(* ===== verification/Zener_Prelude.thy ===== *)
theory Zener_Prelude
  imports Main "HOL-Library.Word"
begin

text \<open>
  Shared vocabulary of the development: the ways a C++ call can fail to return
  normally, arithmetic on \<open>size_t\<close> with its wrap-around, C strings, and the generic
  lemmas on lists and maps that the component theories use.
\<close>

named_theorems outcome_simps "rules that evaluate a sequence of fallible calls"
named_theorems size_simps "size_t arithmetic that does not wrap"

section \<open>Outcomes of a call\<close>

text \<open>
  A call returns a value, throws, runs into an \<open>assert\<close>, blocks for ever, or does
  something the C++ standard leaves undefined. \<open>Length_Error\<close>, \<open>Bad_Alloc\<close>,
  \<open>Overflow_Error\<close> and \<open>System_Error\<close> are exceptions that derive from \<open>std::exception\<close>; the others
  cannot be caught.
\<close>

datatype fault =
    Assertion_Failed
  | Length_Error
  | Bad_Alloc
  | Overflow_Error
  | System_Error
  | Undefined_Behaviour
  | Deadlock

type_synonym 'a outcome = "fault + 'a"

definition catchable :: "fault \<Rightarrow> bool" where
  "catchable e \<longleftrightarrow> e \<in> {Length_Error, Bad_Alloc, Overflow_Error, System_Error}"

definition and_then :: "'a outcome \<Rightarrow> ('a \<Rightarrow> 'b outcome) \<Rightarrow> 'b outcome" where
  "and_then m f = (case m of Inl e \<Rightarrow> Inl e | Inr x \<Rightarrow> f x)"

definition cpp_assert :: "bool \<Rightarrow> 'a outcome \<Rightarrow> 'a outcome" where
  "cpp_assert c m = (if c then m else Inl Assertion_Failed)"

lemma and_then_simps [simp, outcome_simps]:
  "and_then (Inl e) f = Inl e"
  "and_then (Inr x) f = f x"
  by (simp_all add: and_then_def)

lemma and_then_Inr_iff [simp]:
  "and_then m f = Inr y \<longleftrightarrow> (\<exists>x. m = Inr x \<and> f x = Inr y)"
  by (cases m) auto

lemma and_then_assoc: "and_then (and_then m f) g = and_then m (\<lambda>x. and_then (f x) g)"
  by (cases m) auto

lemma cpp_assert_simps [simp, outcome_simps]:
  "cpp_assert True m = m"
  "cpp_assert False m = Inl Assertion_Failed"
  by (simp_all add: cpp_assert_def)

lemma cpp_assert_Inr_iff [simp]: "cpp_assert c m = Inr y \<longleftrightarrow> c \<and> m = Inr y"
  by (auto simp: cpp_assert_def)

section \<open>\<open>size_t\<close>\<close>

text \<open>
  \<open>size_t\<close> is 64 bits wide on the targets of the build. Its values are natural numbers
  below \<open>size_lim\<close>; addition and subtraction wrap.
\<close>

definition size_lim :: nat where
  "size_lim = 2 ^ 64"

definition sz_add :: "nat \<Rightarrow> nat \<Rightarrow> nat" where
  "sz_add a b = (a + b) mod size_lim"

definition sz_sub :: "nat \<Rightarrow> nat \<Rightarrow> nat" where
  "sz_sub a b = (a + (size_lim - b mod size_lim)) mod size_lim"

lemma size_lim_pos [simp]: "0 < size_lim"
  by (simp add: size_lim_def)

lemma sz_add_exact [size_simps]: "a + b < size_lim \<Longrightarrow> sz_add a b = a + b"
  by (simp add: sz_add_def)

lemma sz_sub_exact [size_simps]: "b \<le> a \<Longrightarrow> a < size_lim \<Longrightarrow> sz_sub a b = a - b"
proof -
  assume b: "b \<le> a" and a: "a < size_lim"
  from b a have "a + (size_lim - b mod size_lim) = (a - b) + size_lim"
    by simp
  with a show ?thesis
    by (simp add: sz_sub_def)
qed

lemma sz_bounded [simp]: "sz_add a b < size_lim" "sz_sub a b < size_lim"
  by (simp_all add: sz_add_def sz_sub_def)

lemma sz_sub_underflow:
  "a < b \<Longrightarrow> b < size_lim \<Longrightarrow> sz_sub a b = a + size_lim - b"
  by (simp add: sz_sub_def)

lemma sz_sub_int: "int (sz_sub a b) = (int a - int b) mod int size_lim"
proof -
  have "int (size_lim - b mod size_lim) = int size_lim - int b mod int size_lim"
    by (simp add: of_nat_diff zmod_int less_imp_le)
  then have "int (sz_sub a b) = (int a + (int size_lim - int b mod int size_lim)) mod int size_lim"
    by (simp only: sz_sub_def zmod_int of_nat_add)
  also have "\<dots> = ((int a - int b mod int size_lim) + int size_lim) mod int size_lim"
    by (simp only: diff_conv_add_uminus ac_simps)
  also have "\<dots> = (int a - int b) mod int size_lim"
    by (simp only: mod_add_self2 mod_diff_right_eq)
  finally show ?thesis .
qed

text \<open>The largest \<open>std::vector<char>\<close> (\<open>max_size()\<close>, the range of \<open>ptrdiff_t\<close>).\<close>

definition vec_max :: nat where
  "vec_max = 2 ^ 63 - 1"

lemma vec_max_size_lim: "vec_max < size_lim"
  by (simp add: vec_max_def size_lim_def)

lemma vec_max_double: "Suc (vec_max + vec_max) < size_lim"
  by (simp add: vec_max_def size_lim_def)

text \<open>The largest \<open>int\<close>; signed arithmetic beyond it is undefined.\<close>

definition int_max :: nat where
  "int_max = 2 ^ 31 - 1"

text \<open>\<open>std::atomic<int>\<close> counts modulo \<open>2 ^ 32\<close>: its increment and decrement wrap.\<close>

definition atomic_inc :: "int \<Rightarrow> int" where
  "atomic_inc n = (if n = int int_max then - int int_max - 1 else n + 1)"

definition atomic_dec :: "int \<Rightarrow> int" where
  "atomic_dec n = (if n = - int int_max - 1 then int int_max else n - 1)"

lemma atomic_exact [size_simps]:
  "n < int int_max \<Longrightarrow> atomic_inc n = n + 1" "0 \<le> n \<Longrightarrow> atomic_dec n = n - 1"
  by (simp_all add: atomic_inc_def atomic_dec_def)

lemma atomic_small [simp]: "atomic_inc 0 = 1" "atomic_inc 1 = 2" "atomic_dec 1 = 0" "atomic_dec 2 = 1"
  by (simp_all add: atomic_inc_def atomic_dec_def int_max_def)

section \<open>C strings and characters\<close>

abbreviation nul :: char where
  "nul \<equiv> CHR 0x00"

abbreviation cr :: char where
  "cr \<equiv> CHR 0x0D"

abbreviation lf :: char where
  "lf \<equiv> CHR 0x0A"

definition crlf :: string where
  "crlf = [cr, lf]"

text \<open>What a C function sees of a \<open>std::string\<close> passed by \<open>c_str()\<close> or \<open>data()\<close>.\<close>

definition c_str :: "string \<Rightarrow> string" where
  "c_str s = takeWhile (\<lambda>c. c \<noteq> nul) s"

lemma c_str_id [simp]: "nul \<notin> set s \<Longrightarrow> c_str s = s"
  by (auto simp: c_str_def takeWhile_eq_all_conv)

text \<open>\<open>std::to_string\<close> of an integer.\<close>

definition digit_char :: "nat \<Rightarrow> char" where
  "digit_char d = char_of (48 + d)"

fun dec_nat :: "nat \<Rightarrow> string" where
  "dec_nat n = (if n < 10 then [digit_char n] else dec_nat (n div 10) @ [digit_char (n mod 10)])"

declare dec_nat.simps [simp del]

definition to_string_int :: "int \<Rightarrow> string" where
  "to_string_int i = (if i < 0 then ''-'' @ dec_nat (nat (- i)) else dec_nat (nat i))"

text \<open>Reading decimal digits back; the inverse of \<open>dec_nat\<close>.\<close>

definition digit_val :: "char \<Rightarrow> nat" where
  "digit_val c = of_char c - 48"

definition is_digit :: "char \<Rightarrow> bool" where
  "is_digit c \<longleftrightarrow> 48 \<le> (of_char c :: nat) \<and> (of_char c :: nat) \<le> 57"

definition undec :: "string \<Rightarrow> nat" where
  "undec s = foldl (\<lambda>n c. 10 * n + digit_val c) 0 s"

lemma digit_val_digit_char [simp]: "d < 10 \<Longrightarrow> digit_val (digit_char d) = d"
  by (simp add: digit_val_def digit_char_def)

lemma is_digit_digit_char [simp]: "d < 10 \<Longrightarrow> is_digit (digit_char d)"
  by (simp add: is_digit_def digit_char_def)

lemma undec_snoc [simp]: "undec (s @ [c]) = 10 * undec s + digit_val c"
  by (simp add: undec_def)

lemma undec_dec_nat [simp]: "undec (dec_nat n) = n"
proof (induction n rule: dec_nat.induct)
  case (1 n)
  show ?case
  proof (cases "n < 10")
    case True
    then show ?thesis
      by (subst dec_nat.simps) (simp add: undec_def)
  next
    case False
    with 1 show ?thesis
      by (subst dec_nat.simps) simp
  qed
qed

lemma dec_nat_digits: "\<forall>c \<in> set (dec_nat n). is_digit c"
proof (induction n rule: dec_nat.induct)
  case (1 n)
  show ?case
  proof (cases "n < 10")
    case True
    then show ?thesis by (subst dec_nat.simps) simp
  next
    case False
    with 1 show ?thesis by (subst dec_nat.simps) auto
  qed
qed

lemma dec_nat_inj: "dec_nat m = dec_nat n \<Longrightarrow> m = n"
  by (metis undec_dec_nat)

section \<open>Lists and maps\<close>

lemma take_drop_append_mid:
  assumes "i \<le> j" "j \<le> length xs"
  shows "take (j + length ys - i) (drop i (take j xs @ ys @ zs)) = take (j - i) (drop i xs) @ ys"
proof -
  have "drop i (take j xs @ ys @ zs) = take (j - i) (drop i xs) @ ys @ zs"
    using assms by (simp add: drop_take)
  moreover have "length (take (j - i) (drop i xs)) = j - i"
    using assms by simp
  moreover have "j + length ys - i = (j - i) + length ys"
    using assms by simp
  ultimately show ?thesis
    by (simp only: take_append) simp
qed

lemma takeWhile_append_stop:
  "\<forall>x \<in> set xs. P x \<Longrightarrow> \<not> P y \<Longrightarrow> takeWhile P (xs @ y # ys) = xs"
  by (simp add: takeWhile_append2)

lemma dropWhile_append_stop:
  "\<forall>x \<in> set xs. P x \<Longrightarrow> \<not> P y \<Longrightarrow> dropWhile P (xs @ y # ys) = y # ys"
  by (simp add: dropWhile_append2)

lemma map_upd_commute: "a \<noteq> b \<Longrightarrow> m(a \<mapsto> x, b \<mapsto> y) = m(b \<mapsto> y, a \<mapsto> x)"
  by (rule fun_upd_twist)

lemma list_update_swap_nth:
  "i < length xs \<Longrightarrow> j < length xs \<Longrightarrow> k < length xs \<Longrightarrow>
   (xs[i := xs ! j, j := xs ! i]) ! k = (if k = j then xs ! i else if k = i then xs ! j else xs ! k)"
  by (simp add: nth_list_update)

end
