(* ===== verification/Net_Buffer.thy ===== *)
theory Net_Buffer
  imports Zener_Prelude
begin

text \<open>
  The application-level byte buffer of \<open>src/buffer/buffer.cpp\<close> and
  \<open>include/buffer/buffer.h\<close>: a vector of bytes with a read and a write position.
  The last section states the contract that its clients rely on as a locale and
  discharges it for this implementation.
\<close>

section \<open>State\<close>

text \<open>
  \<open>_buffer\<close>, \<open>_readPos\<close> and \<open>_writePos\<close>. A pointer into the buffer
  (\<open>Peek()\<close>, \<open>BeginWrite()\<close>) is represented by its offset.
\<close>

record buffer =
  buf_data :: "char list"
  read_pos :: nat
  write_pos :: nat

definition INIT_BUFFER_SIZE :: nat where
  "INIT_BUFFER_SIZE = 1024"

text \<open>
  \<open>std::vector::resize\<close>: the argument \<open>mem\<close> is the largest allocation the
  environment grants. Growing pads with zero bytes, and a failed growth throws.
\<close>

definition vec_resize :: "nat \<Rightarrow> char list \<Rightarrow> nat \<Rightarrow> char list outcome" where
  "vec_resize mem xs n =
     (if n \<le> length xs then Inr (take n xs)
      else if vec_max < n then Inl Length_Error
      else if mem < n then Inl Bad_Alloc
      else Inr (xs @ replicate (n - length xs) nul))"

definition make_buffer :: "nat \<Rightarrow> nat \<Rightarrow> buffer outcome" where
  "make_buffer mem n =
     and_then (vec_resize mem [] n)
       (\<lambda>d. Inr \<lparr>buf_data = d, read_pos = 0, write_pos = 0\<rparr>)"

section \<open>Operations\<close>

definition writable_bytes :: "buffer \<Rightarrow> nat" where
  "writable_bytes b = sz_sub (length (buf_data b)) (write_pos b)"

definition readable_bytes :: "buffer \<Rightarrow> nat" where
  "readable_bytes b = sz_sub (write_pos b) (read_pos b)"

definition prependable_bytes :: "buffer \<Rightarrow> nat" where
  "prependable_bytes b = read_pos b"

text \<open>Move construction and move assignment: the source is left empty with both positions 0.\<close>

definition move_buffer :: "buffer \<Rightarrow> buffer \<times> buffer" where
  "move_buffer other =
     (\<lparr>buf_data = buf_data other, read_pos = read_pos other, write_pos = write_pos other\<rparr>,
      \<lparr>buf_data = [], read_pos = 0, write_pos = 0\<rparr>)"

definition retrieve :: "buffer \<Rightarrow> nat \<Rightarrow> buffer outcome" where
  "retrieve b len =
     cpp_assert (len \<le> readable_bytes b)
       (Inr (b\<lparr>read_pos := sz_add (read_pos b) len\<rparr>))"

definition retrieve_until :: "buffer \<Rightarrow> nat \<Rightarrow> buffer outcome" where
  "retrieve_until b endp =
     cpp_assert (read_pos b \<le> endp) (retrieve b (endp - read_pos b))"

definition retrieve_all :: "buffer \<Rightarrow> buffer" where
  "retrieve_all b =
     \<lparr>buf_data = replicate (length (buf_data b)) nul, read_pos = 0, write_pos = 0\<rparr>"

text \<open>
  Reading the bytes between the two positions, as \<open>std::string(Peek(), ReadableBytes())\<close>
  does; a range that is not inside the vector is undefined behaviour.
\<close>

definition to_string :: "buffer \<Rightarrow> string outcome" where
  "to_string b =
     (if read_pos b + readable_bytes b \<le> length (buf_data b)
      then Inr (take (readable_bytes b) (drop (read_pos b) (buf_data b)))
      else Inl Undefined_Behaviour)"

definition retrieve_all_to_string :: "buffer \<Rightarrow> (string \<times> buffer) outcome" where
  "retrieve_all_to_string b = and_then (to_string b) (\<lambda>s. Inr (s, retrieve_all b))"

definition has_written :: "buffer \<Rightarrow> nat \<Rightarrow> buffer" where
  "has_written b len = b\<lparr>write_pos := sz_add (write_pos b) len\<rparr>"

text \<open>
  \<open>makeSpace\<close>: grow the vector if the free space at both ends does not suffice, else move
  the unread bytes to the front. The overflow guard is computed with wrapping subtraction,
  as in the source.
\<close>

definition make_space :: "nat \<Rightarrow> buffer \<Rightarrow> nat \<Rightarrow> buffer outcome" where
  "make_space mem b len =
     (let r = read_pos b; w = write_pos b in
      if sz_add (writable_bytes b) (prependable_bytes b) < len then
        if sz_sub (sz_sub (size_lim - 1) len) 1 < w then Inl Overflow_Error
        else and_then (vec_resize mem (buf_data b) (sz_add (sz_add w len) 1))
               (\<lambda>d. Inr (b\<lparr>buf_data := d\<rparr>))
      else if w < r \<or> length (buf_data b) < w then Inl Undefined_Behaviour
      else
        let readable = readable_bytes b;
            d = take (w - r) (drop r (buf_data b)) @ drop (w - r) (buf_data b);
            b' = b\<lparr>buf_data := d, read_pos := 0, write_pos := readable\<rparr>
        in cpp_assert (readable = readable_bytes b') (Inr b'))"

definition ensure_writable :: "nat \<Rightarrow> buffer \<Rightarrow> nat \<Rightarrow> buffer outcome" where
  "ensure_writable mem b len =
     and_then (if writable_bytes b < len then make_space mem b len else Inr b)
       (\<lambda>b'. cpp_assert (len \<le> writable_bytes b') (Inr b'))"

text \<open>\<open>std::copy_n(str, len, BeginWrite())\<close>.\<close>

definition poke :: "char list \<Rightarrow> nat \<Rightarrow> string \<Rightarrow> char list outcome" where
  "poke xs i s =
     (if i + length s \<le> length xs then Inr (take i xs @ s @ drop (i + length s) xs)
      else Inl Undefined_Behaviour)"

definition append_bytes :: "nat \<Rightarrow> buffer \<Rightarrow> string \<Rightarrow> buffer outcome" where
  "append_bytes mem b s =
     and_then (ensure_writable mem b (length s)) (\<lambda>b1.
     and_then (poke (buf_data b1) (write_pos b1) s) (\<lambda>d.
     Inr (has_written (b1\<lparr>buf_data := d\<rparr>) (length s))))"

definition append_buffer :: "nat \<Rightarrow> buffer \<Rightarrow> buffer \<Rightarrow> buffer outcome" where
  "append_buffer mem b other = and_then (to_string other) (append_bytes mem b)"

subsection \<open>Scatter input and gather output on a descriptor\<close>

text \<open>
  \<open>readv\<close> and \<open>write\<close> are the environment: \<open>rv cap\<close> is what \<open>readv\<close> answers when
  the \<open>iovec\<close>s offer \<open>cap\<close> bytes, an \<open>errno\<close> or the bytes it delivers; \<open>wr s\<close> is what
  \<open>write\<close> answers for the bytes \<open>s\<close>, an \<open>errno\<close> or how many it took. The result of
  the models is the returned length, the value left in \<open>*saveErrno\<close> and the buffer.
\<close>

definition ENOMEM :: int where "ENOMEM = 12"
definition ENOBUFS :: int where "ENOBUFS = 105"

definition EXTRA_BUF_SIZE :: nat where
  "EXTRA_BUF_SIZE = 4096"

text \<open>The kernel fills the first \<open>iovec\<close> before it touches the second.\<close>

definition scatter :: "buffer \<Rightarrow> nat \<Rightarrow> string \<Rightarrow> buffer \<times> string" where
  "scatter b room bytes =
     (b\<lparr>buf_data := take (write_pos b) (buf_data b) @ take room bytes
                     @ drop (write_pos b + length (take room bytes)) (buf_data b)\<rparr>,
      drop room bytes)"

text \<open>The part of \<open>ReadFd\<close> after the buffer has been given room.\<close>

definition read_fd_tail ::
  "nat \<Rightarrow> (nat \<Rightarrow> int + string) \<Rightarrow> int \<Rightarrow> buffer \<Rightarrow> (int \<times> int \<times> buffer) outcome" where
  "read_fd_tail mem rv errno b1 =
     (let room = writable_bytes b1;
          cap = (if room < EXTRA_BUF_SIZE then room + EXTRA_BUF_SIZE else room)
      in (case rv cap of
            Inl err \<Rightarrow> Inr (-1, err, b1)
          | Inr bytes \<Rightarrow>
              let len = length bytes; (b2, extra) = scatter b1 room bytes in
              if len = 0 then Inr (0, errno, b1)
              else if len \<le> room then
                Inr (int len, errno, b2\<lparr>write_pos := sz_add (write_pos b2) len\<rparr>)
              else
                let b3 = b2\<lparr>write_pos := length (buf_data b2)\<rparr>;
                    extraLen = min (len - room) EXTRA_BUF_SIZE
                in (case append_bytes mem b3 (take extraLen extra) of
                      Inl e \<Rightarrow> if catchable e then Inr (int len, ENOBUFS, b3) else Inl e
                    | Inr b4 \<Rightarrow> Inr (int len, errno, b4))))"

definition read_fd ::
  "nat \<Rightarrow> (nat \<Rightarrow> int + string) \<Rightarrow> int \<Rightarrow> buffer \<Rightarrow> (int \<times> int \<times> buffer) outcome" where
  "read_fd mem rv errno b =
     (case (if writable_bytes b < 1024
            then ensure_writable mem b (max 4096 (readable_bytes b)) else Inr b) of
        Inl e \<Rightarrow> if catchable e then Inr (-1, ENOMEM, b) else Inl e
      | Inr b1 \<Rightarrow> read_fd_tail mem rv errno b1)"

definition write_fd ::
  "(string \<Rightarrow> int + nat) \<Rightarrow> int \<Rightarrow> buffer \<Rightarrow> (int \<times> int \<times> buffer) outcome" where
  "write_fd wr errno b =
     and_then (to_string b) (\<lambda>s.
       case wr s of
         Inl err \<Rightarrow> Inr (-1, err, b)
       | Inr len \<Rightarrow> Inr (int len, errno, b\<lparr>read_pos := sz_add (read_pos b) len\<rparr>))"

section \<open>Invariant and abstraction\<close>

text \<open>
  The order of the positions drawn in the header file, and the abstraction of a buffer to
  the byte sequence it holds.
\<close>

definition buf_inv :: "buffer \<Rightarrow> bool" where
  "buf_inv b \<longleftrightarrow> read_pos b \<le> write_pos b \<and> write_pos b \<le> length (buf_data b)
                 \<and> length (buf_data b) \<le> vec_max"

definition content :: "buffer \<Rightarrow> string" where
  "content b = take (write_pos b - read_pos b) (drop (read_pos b) (buf_data b))"

lemma buf_invE:
  assumes "buf_inv b"
  obtains "read_pos b \<le> write_pos b" "write_pos b \<le> length (buf_data b)"
    "length (buf_data b) \<le> vec_max" "length (buf_data b) < size_lim"
  using assms vec_max_size_lim by (auto simp: buf_inv_def)

lemma length_content: "buf_inv b \<Longrightarrow> length (content b) = write_pos b - read_pos b"
  by (auto simp: content_def buf_inv_def)

lemma readable_bytes_content: "buf_inv b \<Longrightarrow> readable_bytes b = length (content b)"
  by (erule buf_invE) (simp add: readable_bytes_def sz_sub_exact length_content buf_inv_def)

lemma readable_bytes_diff: "buf_inv b \<Longrightarrow> readable_bytes b = write_pos b - read_pos b"
  by (simp add: readable_bytes_content length_content)

lemma writable_bytes_diff: "buf_inv b \<Longrightarrow> writable_bytes b = length (buf_data b) - write_pos b"
  by (erule buf_invE) (simp add: writable_bytes_def sz_sub_exact)

lemma to_string_content: "buf_inv b \<Longrightarrow> to_string b = Inr (content b)"
  by (auto simp: to_string_def content_def readable_bytes_diff elim: buf_invE)

lemma retrieve_ok:
  assumes "buf_inv b" "len \<le> length (content b)"
  shows "\<exists>b'. retrieve b len = Inr b' \<and> buf_inv b' \<and> content b' = drop len (content b)
              \<and> buf_data b' = buf_data b \<and> read_pos b' = read_pos b + len \<and> write_pos b' = write_pos b"
proof -
  from assms have bounds: "read_pos b + len \<le> write_pos b" "read_pos b + len < size_lim"
    by (auto simp: length_content elim!: buf_invE)
  with assms show ?thesis
    by (auto simp: retrieve_def readable_bytes_content sz_add_exact buf_inv_def content_def
        drop_take add.commute)
qed

lemma retrieve_readable:
  assumes "retrieve b len = Inr b'"
  shows "len \<le> readable_bytes b \<and> readable_bytes b' = readable_bytes b - len"
proof -
  from assms have len: "len \<le> readable_bytes b" and b': "b' = b\<lparr>read_pos := sz_add (read_pos b) len\<rparr>"
    by (auto simp: retrieve_def)
  have "int (readable_bytes b') = (int (write_pos b) - int (read_pos b) - int len) mod int size_lim"
    by (simp add: b' readable_bytes_def sz_sub_int sz_add_def zmod_int mod_simps diff_diff_add)
  also have "\<dots> = (int (readable_bytes b) - int len) mod int size_lim"
    by (simp add: readable_bytes_def sz_sub_int mod_simps)
  also have "\<dots> = int (readable_bytes b) - int len"
    using len sz_bounded(2) [of "write_pos b" "read_pos b"]
    by (intro mod_pos_pos_trivial) (auto simp: readable_bytes_def less_imp_of_nat_less
        intro: le_less_trans [of _ "int (sz_sub (write_pos b) (read_pos b))"])
  finally show ?thesis
    using len by (simp add: of_nat_diff [symmetric] del: of_nat_diff)
qed

lemma retrieve_reject:
  "buf_inv b \<Longrightarrow> length (content b) < len \<Longrightarrow> retrieve b len = Inl Assertion_Failed"
  by (simp add: retrieve_def readable_bytes_content)

lemma retrieve_all_ok:
  "buf_inv b \<Longrightarrow> buf_inv (retrieve_all b) \<and> content (retrieve_all b) = []
     \<and> length (buf_data (retrieve_all b)) = length (buf_data b)"
  by (simp add: retrieve_all_def buf_inv_def content_def)

lemma vec_resize_length: "vec_resize mem xs n = Inr d \<Longrightarrow> length d = n"
  by (auto simp: vec_resize_def split: if_splits)

lemma vec_resize_grow:
  "length xs < n \<Longrightarrow> vec_resize mem xs n = Inr d \<Longrightarrow>
     n \<le> vec_max \<and> n \<le> mem \<and> d = xs @ replicate (n - length xs) nul"
  by (auto simp: vec_resize_def split: if_splits)

lemma vec_resize_fault:
  "vec_resize mem xs n = Inl e \<Longrightarrow> catchable e \<and> (vec_max < n \<or> mem < n)"
  by (auto simp: vec_resize_def catchable_def split: if_splits)

subsection \<open>\<open>makeSpace\<close> and \<open>EnsureWritable\<close>\<close>

lemma make_space_grow_eq:
  assumes inv: "buf_inv b" and len: "len < size_lim - 1"
    and full: "length (buf_data b) - write_pos b + read_pos b < len"
  shows "make_space mem b len =
           (if size_lim - 2 - len < write_pos b then Inl Overflow_Error
            else and_then (vec_resize mem (buf_data b) (write_pos b + len + 1))
                   (\<lambda>d. Inr (b\<lparr>buf_data := d\<rparr>)))"
proof -
  from inv have b: "read_pos b \<le> write_pos b" "write_pos b \<le> length (buf_data b)"
    "length (buf_data b) < size_lim"
    by (auto elim: buf_invE)
  then have free: "sz_add (writable_bytes b) (prependable_bytes b)
                   = length (buf_data b) - write_pos b + read_pos b"
    by (simp add: writable_bytes_diff inv prependable_bytes_def sz_add_exact)
  have guard: "sz_sub (sz_sub (size_lim - 1) len) 1 = size_lim - 2 - len"
    using len by (simp add: sz_sub_exact)
  have "sz_add (sz_add (write_pos b) len) 1 = write_pos b + len + 1"
    if "\<not> size_lim - 2 - len < write_pos b"
    using that len by (simp add: sz_add_exact)
  with full free guard show ?thesis
    by (auto simp: make_space_def Let_def)
qed

lemma make_space_compact_eq:
  assumes inv: "buf_inv b"
    and room: "len \<le> length (buf_data b) - write_pos b + read_pos b"
  shows "make_space mem b len =
           Inr (b\<lparr>buf_data := content b @ drop (write_pos b - read_pos b) (buf_data b),
                  read_pos := 0, write_pos := write_pos b - read_pos b\<rparr>)"
proof -
  from inv have b: "read_pos b \<le> write_pos b" "write_pos b \<le> length (buf_data b)"
    "length (buf_data b) < size_lim"
    by (auto elim: buf_invE)
  then have free: "sz_add (writable_bytes b) (prependable_bytes b)
                   = length (buf_data b) - write_pos b + read_pos b"
    by (simp add: writable_bytes_diff inv prependable_bytes_def sz_add_exact)
  have "sz_sub (write_pos b - read_pos b) 0 = write_pos b - read_pos b"
    using b by (simp add: sz_sub_exact)
  with room free b inv show ?thesis
    by (simp add: make_space_def Let_def readable_bytes_diff content_def)
       (simp add: readable_bytes_def)
qed

lemma make_space_ok:
  assumes inv: "buf_inv b" and len: "len < size_lim - 1"
    and need: "length (buf_data b) - write_pos b < len"
    and res: "make_space mem b len = Inr b'"
  shows "buf_inv b' \<and> content b' = content b \<and> write_pos b' + len \<le> length (buf_data b')"
proof (cases "length (buf_data b) - write_pos b + read_pos b < len")
  case True
  from inv have b: "read_pos b \<le> write_pos b" "write_pos b \<le> length (buf_data b)"
    by (auto elim: buf_invE)
  from True res len obtain d where
    d: "vec_resize mem (buf_data b) (write_pos b + len + 1) = Inr d" "b' = b\<lparr>buf_data := d\<rparr>"
    by (auto simp: make_space_grow_eq inv split: if_splits)
  moreover have "length (buf_data b) < write_pos b + len + 1"
    using need b by simp
  ultimately show ?thesis
    using b need by (auto simp: buf_inv_def content_def dest!: vec_resize_grow)
next
  case False
  with res inv show ?thesis
    by (auto simp: make_space_compact_eq buf_inv_def length_content elim!: buf_invE)
       (auto simp: content_def)
qed

lemma ensure_writable_ok:
  assumes inv: "buf_inv b" and len: "len < size_lim - 1"
    and res: "ensure_writable mem b len = Inr b'"
  shows "buf_inv b' \<and> content b' = content b \<and> write_pos b' + len \<le> length (buf_data b')"
proof (cases "writable_bytes b < len")
  case True
  with res have "make_space mem b len = Inr b'"
    by (auto simp: ensure_writable_def)
  with True inv len show ?thesis
    by (intro make_space_ok) (simp_all add: writable_bytes_diff)
next
  case False
  with res inv show ?thesis
    by (auto simp: ensure_writable_def writable_bytes_diff elim: buf_invE)
qed

text \<open>
  A request that fits below the allocation limits succeeds; otherwise the call throws one of
  the exceptions that \<open>std::exception\<close> handlers catch. In particular the final
  \<open>assert(WritableBytes() >= len)\<close> holds.
\<close>

lemma ensure_writable_cases:
  assumes inv: "buf_inv b" and len: "len < size_lim - 1"
  shows "(\<exists>b'. ensure_writable mem b len = Inr b')
         \<or> (\<exists>e. ensure_writable mem b len = Inl e \<and> catchable e
                \<and> min mem vec_max < write_pos b + len + 1)"
proof (cases "make_space mem b len")
  case (Inr b')
  show ?thesis
  proof (cases "writable_bytes b < len")
    case True
    with Inr inv len have "len \<le> writable_bytes b'"
      using make_space_ok [OF inv len _ Inr] by (auto simp: writable_bytes_diff)
    with True Inr show ?thesis by (simp add: ensure_writable_def)
  next
    case False
    then show ?thesis by (simp add: ensure_writable_def)
  qed
next
  case (Inl e)
  show ?thesis
  proof (cases "writable_bytes b < len")
    case True
    have full: "length (buf_data b) - write_pos b + read_pos b < len"
      using Inl make_space_compact_eq [OF inv, of len mem] by (cases "length (buf_data b) - write_pos b + read_pos b < len") auto
    from Inl make_space_grow_eq [OF inv len full, of mem]
    have "catchable e \<and> min mem vec_max < write_pos b + len + 1"
      using vec_max_size_lim vec_max_double len
      by (auto simp: and_then_def catchable_def dest!: vec_resize_fault split: if_splits sum.splits)
    with True Inl show ?thesis by (simp add: ensure_writable_def)
  next
    case False
    then show ?thesis by (simp add: ensure_writable_def)
  qed
qed

subsection \<open>\<open>Append\<close>\<close>

lemma poke_ok:
  "i + length s \<le> length xs \<Longrightarrow> poke xs i s = Inr (take i xs @ s @ drop (i + length s) xs)"
  by (simp add: poke_def)

lemma write_at_content:
  assumes "buf_inv b" "write_pos b + length s \<le> length (buf_data b)"
  shows "buf_inv (b\<lparr>buf_data := take (write_pos b) (buf_data b) @ s
                    @ drop (write_pos b + length s) (buf_data b),
                    write_pos := write_pos b + length s\<rparr>)"
    and "content (b\<lparr>buf_data := take (write_pos b) (buf_data b) @ s
                    @ drop (write_pos b + length s) (buf_data b),
                    write_pos := write_pos b + length s\<rparr>) = content b @ s"
  using assms
  by (auto simp: buf_inv_def content_def take_drop_append_mid drop_take)

lemma append_bytes_eq:
  assumes inv: "buf_inv b" and len: "length s < size_lim - 1"
  shows "append_bytes mem b s =
           and_then (ensure_writable mem b (length s)) (\<lambda>b1.
             Inr (b1\<lparr>buf_data := take (write_pos b1) (buf_data b1) @ s
                        @ drop (write_pos b1 + length s) (buf_data b1),
                     write_pos := write_pos b1 + length s\<rparr>))"
proof (cases "ensure_writable mem b (length s)")
  case (Inr b1)
  from ensure_writable_ok [OF inv len Inr]
  have fits: "write_pos b1 + length s \<le> length (buf_data b1)" and "length (buf_data b1) < size_lim"
    by (auto elim: buf_invE)
  with Inr show ?thesis
    by (simp add: append_bytes_def poke_ok has_written_def sz_add_exact)
qed (simp add: append_bytes_def)

lemma append_bytes_ok:
  assumes inv: "buf_inv b" and len: "length s < size_lim - 1"
    and res: "append_bytes mem b s = Inr b'"
  shows "buf_inv b' \<and> content b' = content b @ s"
proof -
  from res append_bytes_eq [OF inv len, of mem] obtain b1 where
    b1: "ensure_writable mem b (length s) = Inr b1" and
    b': "b' = b1\<lparr>buf_data := take (write_pos b1) (buf_data b1) @ s
                        @ drop (write_pos b1 + length s) (buf_data b1),
                     write_pos := write_pos b1 + length s\<rparr>"
    by auto
  from ensure_writable_ok [OF inv len b1] show ?thesis
    unfolding b' using write_at_content [of b1 s] by auto
qed

lemma append_bytes_cases:
  assumes inv: "buf_inv b" and len: "length s < size_lim - 1"
  shows "(\<exists>b'. append_bytes mem b s = Inr b')
         \<or> (\<exists>e. append_bytes mem b s = Inl e \<and> catchable e
                \<and> min mem vec_max < write_pos b + length s + 1)"
  using ensure_writable_cases [OF inv len, of mem] append_bytes_eq [OF inv len, of mem]
  by auto

lemma append_bytes_success:
  "buf_inv b \<Longrightarrow> write_pos b + length s + 1 \<le> min mem vec_max \<Longrightarrow>
     \<exists>b'. append_bytes mem b s = Inr b'"
  using append_bytes_cases [of b s mem] vec_max_size_lim by fastforce

subsection \<open>\<open>ReadFd\<close> and \<open>WriteFd\<close>\<close>

text \<open>What POSIX promises of \<open>readv\<close> and \<open>write\<close>: they never move more than was offered.\<close>

definition readv_contract :: "(nat \<Rightarrow> int + string) \<Rightarrow> bool" where
  "readv_contract rv \<longleftrightarrow> (\<forall>cap bytes. rv cap = Inr bytes \<longrightarrow> length bytes \<le> cap)"

definition write_contract :: "(string \<Rightarrow> int + nat) \<Rightarrow> bool" where
  "write_contract wr \<longleftrightarrow> (\<forall>s n. wr s = Inr n \<longrightarrow> n \<le> length s)"

text \<open>What a result of \<open>ReadFd\<close> says about the buffer before and after.\<close>

definition read_fd_post ::
  "(nat \<Rightarrow> int + string) \<Rightarrow> int \<Rightarrow> buffer \<Rightarrow> int \<times> int \<times> buffer \<Rightarrow> bool" where
  "read_fd_post rv errno b r \<longleftrightarrow>
     (case r of (n, e, b') \<Rightarrow> buf_inv b' \<and>
        (n = -1 \<and> content b' = content b
         \<or> (\<exists>cap bytes. rv cap = Inr bytes \<and> n = int (length bytes)
              \<and> (e = errno \<and> content b' = content b @ bytes
                 \<or> e = ENOBUFS \<and> (\<exists>k < length bytes. content b' = content b @ take k bytes)))))"

lemma read_fd_growth:
  assumes "buf_inv b"
  shows "max 4096 (readable_bytes b) < size_lim - 1"
  using assms vec_max_double
  by (auto simp: readable_bytes_diff size_lim_def vec_max_def elim!: buf_invE)

lemma read_fd_body_post:
  fixes b b1 :: buffer
  assumes inv: "buf_inv b1" and same: "content b1 = content b" and rv: "readv_contract rv"
  defines "room \<equiv> writable_bytes b1"
  defines "cap \<equiv> (if room < EXTRA_BUF_SIZE then room + EXTRA_BUF_SIZE else room)"
  assumes ok: "rv cap = Inr bytes" and long: "room < length bytes"
  defines "b3 \<equiv> (fst (scatter b1 room bytes))\<lparr>write_pos := length (buf_data (fst (scatter b1 room bytes)))\<rparr>"
  shows "buf_inv b3 \<and> content b3 = content b @ take room bytes
         \<and> min (length bytes - room) EXTRA_BUF_SIZE = length bytes - room"
proof -
  have room: "room = length (buf_data b1) - write_pos b1"
    using inv by (simp add: room_def writable_bytes_diff)
  have w: "write_pos b1 + room = length (buf_data b1)"
    using inv room by (auto elim: buf_invE)
  have tk: "length (take room bytes) = room"
    using long by simp
  have b3: "b3 = b1\<lparr>buf_data := take (write_pos b1) (buf_data b1) @ take room bytes
                    @ drop (write_pos b1 + length (take room bytes)) (buf_data b1),
                    write_pos := write_pos b1 + length (take room bytes)\<rparr>"
    using w tk by (simp add: b3_def scatter_def)
  have "length bytes \<le> cap"
    using rv ok by (auto simp: readv_contract_def)
  then have "length bytes - room \<le> EXTRA_BUF_SIZE"
    using long by (auto simp: cap_def split: if_splits)
  moreover have "buf_inv b3 \<and> content b3 = content b1 @ take room bytes"
    unfolding b3 using write_at_content [OF inv, of "take room bytes"] w tk by auto
  ultimately show ?thesis
    using same by simp
qed

lemma scatter_short:
  assumes inv: "buf_inv b1" and short: "length bytes \<le> writable_bytes b1"
  shows "let b2 = fst (scatter b1 (writable_bytes b1) bytes);
             b3 = b2\<lparr>write_pos := sz_add (write_pos b2) (length bytes)\<rparr>
         in buf_inv b3 \<and> content b3 = content b1 @ bytes"
proof -
  have w: "write_pos b1 + length bytes \<le> length (buf_data b1)" "length (buf_data b1) < size_lim"
    using assms by (auto simp: writable_bytes_diff elim: buf_invE)
  then have "sz_add (write_pos b1) (length bytes) = write_pos b1 + length bytes"
    by (simp add: sz_add_exact)
  with short w write_at_content [OF inv, of bytes] show ?thesis
    by (simp add: scatter_def Let_def)
qed

lemma read_fd_tail_correct:
  fixes b b1 :: buffer
  assumes inv: "buf_inv b1" and same: "content b1 = content b" and rv: "readv_contract rv"
  shows "\<exists>r. read_fd_tail mem rv errno b1 = Inr r \<and> read_fd_post rv errno b r"
proof -
  let ?room = "writable_bytes b1"
  let ?cap = "if ?room < EXTRA_BUF_SIZE then ?room + EXTRA_BUF_SIZE else ?room"
  show ?thesis
  proof (cases "rv ?cap")
    case (Inl err)
    with inv same show ?thesis
      by (simp add: read_fd_tail_def Let_def read_fd_post_def)
  next
    case (Inr bytes)
    note ok = Inr
    consider "bytes = []" | "bytes \<noteq> []" "length bytes \<le> ?room" | "?room < length bytes"
      by fastforce
    then show ?thesis
    proof cases
      case 1
      have "\<exists>cap. rv cap = Inr []" using ok 1 by blast
      with ok 1 inv same show ?thesis
        by (simp add: read_fd_tail_def Let_def read_fd_post_def scatter_def)
    next
      case 2
      have "\<exists>cap. rv cap = Inr bytes" using ok by blast
      with scatter_short [OF inv 2(2)] ok 2 same show ?thesis
        by (auto simp: read_fd_tail_def Let_def read_fd_post_def split: prod.splits) blast
    next
      case 3
      define b3 where "b3 = (fst (scatter b1 ?room bytes))
        \<lparr>write_pos := length (buf_data (fst (scatter b1 ?room bytes)))\<rparr>"
      let ?rest = "drop ?room bytes"
      from read_fd_body_post [OF inv same rv ok 3]
      have b3: "buf_inv b3" "content b3 = content b @ take ?room bytes"
        and fits: "min (length bytes - ?room) EXTRA_BUF_SIZE = length bytes - ?room"
        by (simp_all add: b3_def)
      have ex: "snd (scatter b1 ?room bytes) = ?rest"
        by (simp add: scatter_def)
      have "length ?rest \<le> EXTRA_BUF_SIZE"
        using fits by simp
      then have small: "length ?rest < size_lim - 1"
        by (simp add: EXTRA_BUF_SIZE_def size_lim_def)
      have eq: "read_fd_tail mem rv errno b1 =
          (case append_bytes mem b3 ?rest of
             Inl e \<Rightarrow> if catchable e then Inr (int (length bytes), ENOBUFS, b3) else Inl e
           | Inr b4 \<Rightarrow> Inr (int (length bytes), errno, b4))"
        using ok 3 fits ex unfolding read_fd_tail_def Let_def b3_def
        by (auto simp: case_prod_beta)
      show ?thesis
      proof (cases "append_bytes mem b3 ?rest")
        case (Inr b4)
        from append_bytes_ok [OF b3(1) small Inr] b3(2) ok eq Inr show ?thesis
          by (auto simp: read_fd_post_def)
      next
        case (Inl e)
        with append_bytes_cases [OF b3(1) small, of mem] have "catchable e"
          by auto
        with b3 ok eq Inl 3 show ?thesis
          by (auto simp: read_fd_post_def)
      qed
    qed
  qed
qed

lemma read_fd_correct:
  assumes inv: "buf_inv b" and rv: "readv_contract rv"
  shows "\<exists>r. read_fd mem rv errno b = Inr r \<and> read_fd_post rv errno b r"
proof (cases "writable_bytes b < 1024")
  case True
  let ?n = "max 4096 (readable_bytes b)"
  note len = read_fd_growth [OF inv]
  show ?thesis
  proof (cases "ensure_writable mem b ?n")
    case (Inl e)
    with ensure_writable_cases [OF inv len, of mem] have "catchable e"
      by auto
    with True Inl inv show ?thesis
      by (simp add: read_fd_def read_fd_post_def)
  next
    case (Inr b1)
    from ensure_writable_ok [OF inv len Inr]
    have "\<exists>r. read_fd_tail mem rv errno b1 = Inr r \<and> read_fd_post rv errno b r"
      by (intro read_fd_tail_correct rv) auto
    with True Inr show ?thesis
      by (simp add: read_fd_def)
  qed
next
  case False
  with read_fd_tail_correct [OF inv refl rv] show ?thesis
    by (simp add: read_fd_def)
qed

lemma write_fd_correct:
  assumes inv: "buf_inv b" and wr: "write_contract wr"
  shows "write_fd wr errno b =
           (case wr (content b) of
              Inl err \<Rightarrow> Inr (-1, err, b)
            | Inr n \<Rightarrow> Inr (int n, errno, b\<lparr>read_pos := read_pos b + n\<rparr>))"
    and "wr (content b) = Inr n \<Longrightarrow>
           buf_inv (b\<lparr>read_pos := read_pos b + n\<rparr>)
           \<and> content (b\<lparr>read_pos := read_pos b + n\<rparr>) = drop n (content b)"
proof -
  have bound: "n \<le> length (content b)" if "wr (content b) = Inr n" for n
    using wr that by (auto simp: write_contract_def)
  have exact: "sz_add (read_pos b) n = read_pos b + n" if "wr (content b) = Inr n" for n
    using bound [OF that] inv by (auto simp: length_content sz_add_exact elim!: buf_invE)
  show "write_fd wr errno b =
           (case wr (content b) of
              Inl err \<Rightarrow> Inr (-1, err, b)
            | Inr n \<Rightarrow> Inr (int n, errno, b\<lparr>read_pos := read_pos b + n\<rparr>))"
    using inv exact by (auto simp: write_fd_def to_string_content split: sum.splits)
  show "buf_inv (b\<lparr>read_pos := read_pos b + n\<rparr>)
           \<and> content (b\<lparr>read_pos := read_pos b + n\<rparr>) = drop n (content b)"
    if "wr (content b) = Inr n"
    using retrieve_ok [OF inv bound [OF that]] exact [OF that]
    by (auto simp: retrieve_def readable_bytes_content inv)
qed

section \<open>The contract of the buffer\<close>

text \<open>A sequence of appends that stops at the first exception.\<close>

fun append_seq ::
  "('q \<Rightarrow> string \<Rightarrow> 'q outcome) \<Rightarrow> 'q \<Rightarrow> string list \<Rightarrow> fault option \<times> 'q" where
  "append_seq app q [] = (None, q)"
| "append_seq app q (s # ss) =
     (case app q s of Inl e \<Rightarrow> (Some e, q) | Inr q' \<Rightarrow> append_seq app q' ss)"

text \<open>
  A history of writes (\<open>Inl s\<close>) and reads (\<open>Inr n\<close>, skipped when fewer than \<open>n\<close> bytes are
  held): all that was written, all that was read, and the final queue.
\<close>

fun history ::
  "('q \<Rightarrow> string) \<Rightarrow> ('q \<Rightarrow> string \<Rightarrow> 'q outcome) \<Rightarrow> ('q \<Rightarrow> nat \<Rightarrow> 'q outcome) \<Rightarrow>
   'q \<Rightarrow> (string + nat) list \<Rightarrow> (string \<times> string \<times> 'q) outcome" where
  "history held app con q [] = Inr ([], [], q)"
| "history held app con q (Inl s # evs) =
     and_then (app q s) (\<lambda>q1. and_then (history held app con q1 evs)
       (\<lambda>(w, r, q2). Inr (s @ w, r, q2)))"
| "history held app con q (Inr n # evs) =
     (if n \<le> length (held q)
      then and_then (con q n) (\<lambda>q1. and_then (history held app con q1 evs)
             (\<lambda>(w, r, q2). Inr (w, take n (held q) @ r, q2)))
      else history held app con q evs)"

text \<open>
  What the HTTP code relies on: a buffer is a queue of bytes. \<open>append\<close> may throw, and then
  the caller still holds the old buffer; when it returns, the bytes are at the end. \<open>consume\<close>
  of at most the readable bytes removes a prefix.
\<close>

locale byte_queue =
  fixes invar :: "'q \<Rightarrow> bool"
    and bytes_of :: "'q \<Rightarrow> string"
    and append :: "'q \<Rightarrow> string \<Rightarrow> 'q outcome"
    and consume :: "'q \<Rightarrow> nat \<Rightarrow> 'q outcome"
    and wipe :: "'q \<Rightarrow> 'q"
    and limit :: nat
  assumes append_ok:
      "invar q \<Longrightarrow> length s < limit \<Longrightarrow> append q s = Inr q' \<Longrightarrow>
         invar q' \<and> bytes_of q' = bytes_of q @ s"
    and append_throws:
      "invar q \<Longrightarrow> length s < limit \<Longrightarrow> append q s = Inl e \<Longrightarrow> catchable e"
    and consume_ok:
      "invar q \<Longrightarrow> n \<le> length (bytes_of q) \<Longrightarrow>
         \<exists>q'. consume q n = Inr q' \<and> invar q' \<and> bytes_of q' = drop n (bytes_of q)"
    and wipe_ok: "invar q \<Longrightarrow> invar (wipe q) \<and> bytes_of (wipe q) = []"
begin

lemma append_seq_ok:
  assumes "invar q" "\<forall>s \<in> set ss. length s < limit" "append_seq append q ss = (None, q')"
  shows "invar q' \<and> bytes_of q' = bytes_of q @ concat ss"
  using assms
proof (induction ss arbitrary: q)
  case (Cons s ss)
  then obtain q1 where q1: "append q s = Inr q1" "append_seq append q1 ss = (None, q')"
    by (auto split: sum.splits)
  with Cons.prems append_ok [of q s q1] have "invar q1" "bytes_of q1 = bytes_of q @ s"
    by auto
  with Cons.IH [of q1] Cons.prems q1 show ?case by simp
qed simp

lemma append_seq_prefix:
  assumes "invar q" "\<forall>s \<in> set ss. length s < limit" "append_seq append q ss = (Some e, q')"
  shows "invar q' \<and> catchable e \<and> (\<exists>k < length ss. bytes_of q' = bytes_of q @ concat (take k ss))"
  using assms
proof (induction ss arbitrary: q)
  case (Cons s ss)
  show ?case
  proof (cases "append q s")
    case (Inl e')
    with Cons.prems append_throws [of q s e'] show ?thesis
      by (auto intro!: exI [of _ 0])
  next
    case (Inr q1)
    with Cons.prems append_ok [of q s q1] have q1: "invar q1" "bytes_of q1 = bytes_of q @ s"
      by auto
    with Cons.IH [of q1] Cons.prems Inr obtain k where
      "invar q'" "catchable e" "k < length ss" "bytes_of q' = bytes_of q1 @ concat (take k ss)"
      by auto
    with q1 show ?thesis
      by (auto intro!: exI [of _ "Suc k"])
  qed
qed simp

lemma history_fifo:
  assumes "invar q" "\<forall>s. Inl s \<in> set evs \<longrightarrow> length s < limit"
    "history bytes_of append consume q evs = Inr (w, r, q')"
  shows "invar q' \<and> bytes_of q @ w = r @ bytes_of q'"
  using assms
proof (induction evs arbitrary: q w r)
  case (Cons ev evs)
  show ?case
  proof (cases ev)
    case (Inl s)
    with Cons.prems obtain q1 w' where
      q1: "append q s = Inr q1" "history bytes_of append consume q1 evs = Inr (w', r, q')" "w = s @ w'"
      by auto
    with Cons.prems Inl append_ok [of q s q1] have "invar q1" "bytes_of q1 = bytes_of q @ s"
      by auto
    with Cons.IH [of q1 w' r] Cons.prems q1 show ?thesis by auto
  next
    case (Inr n)
    show ?thesis
    proof (cases "n \<le> length (bytes_of q)")
      case True
      with Cons.prems consume_ok [of q n] obtain q1 where
        q1: "consume q n = Inr q1" "invar q1" "bytes_of q1 = drop n (bytes_of q)"
        by blast
      with True Inr Cons.prems obtain r' where
        "history bytes_of append consume q1 evs = Inr (w, r', q')" "r = take n (bytes_of q) @ r'"
        by auto
      with Cons.IH [of q1 w r'] Cons.prems q1 have "invar q'" "drop n (bytes_of q) @ w = r' @ bytes_of q'"
        by auto
      with \<open>r = _\<close> show ?thesis
        by (metis append_assoc append_take_drop_id)
    next
      case False
      with Cons Inr show ?thesis by auto
    qed
  qed
qed simp

end

interpretation net_buffer: byte_queue buf_inv content "append_bytes mem" retrieve retrieve_all
    "size_lim - 1" for mem
proof (unfold_locales, goal_cases)
  case (1 q s q')
  then show ?case by (rule append_bytes_ok)
next
  case (2 q s e)
  then show ?case using append_bytes_cases [of q s mem] by auto
next
  case (3 q n)
  then show ?case using retrieve_ok by blast
next
  case (4 q)
  then show ?case using retrieve_all_ok by blast
qed

section \<open>Properties of the buffer\<close>

lemma make_buffer_ok:
  "make_buffer mem n = Inr b \<Longrightarrow> buf_inv b \<and> content b = []"
  by (auto simp: make_buffer_def vec_resize_def buf_inv_def content_def split: if_splits)

text \<open>A small buffer with four unread bytes, for the witnesses.\<close>

definition sample_buffer :: buffer where
  "sample_buffer = \<lparr>buf_data = ''xxabcd'', read_pos = 2, write_pos = 6\<rparr>"

lemma sample_buffer_facts [simp]:
  "buf_inv sample_buffer" "content sample_buffer = ''abcd''"
  by (simp_all add: sample_buffer_def buf_inv_def content_def vec_max_def)

text \<open>
  C9: the buffer is a queue of bytes. Whatever is written to and consumed from a freshly
  constructed buffer, in any order, what was written is what was consumed followed by what the
  buffer still holds: growing the vector, moving the unread bytes to its front and the two
  positions never lose, repeat or reorder a byte, and the positions stay ordered inside the
  vector.
\<close>

theorem buffer_fifo:
  assumes "make_buffer mem n = Inr b0"
    and "\<forall>s. Inl s \<in> set evs \<longrightarrow> length s < size_lim - 1"
    and "history content (append_bytes mem) retrieve b0 evs = Inr (written, taken, b)"
  shows "buf_inv b \<and> written = taken @ content b"
  using net_buffer.history_fifo [OF _ assms(2,3)] make_buffer_ok [OF assms(1)] by simp

theorem buffer_fifo_witness:
  "\<exists>b0 w r b. make_buffer 100 4 = Inr b0
     \<and> history content (append_bytes 100) retrieve b0 [Inl ''abc'', Inr 2, Inl ''defg'', Inr 1]
         = Inr (w, r, b)
     \<and> buf_inv b \<and> w = r @ content b \<and> r = ''abc'' \<and> w = ''abcdefg''"
proof -
  let ?init = "\<lparr>buf_data = replicate 4 nul, read_pos = 0, write_pos = 0\<rparr>"
  let ?final = "\<lparr>buf_data = ''abcdefg'' @ [nul], read_pos = 3, write_pos = 7\<rparr>"
  let ?evs = "[Inl ''abc'', Inr 2, Inl ''defg'', Inr 1]"
  have m: "make_buffer 100 4 = Inr ?init"
    unfolding make_buffer_def vec_resize_def vec_max_def by simp
  have h: "history content (append_bytes 100) retrieve ?init ?evs = Inr (''abcdefg'', ''abc'', ?final)"
    by (simp add: content_def append_bytes_def ensure_writable_def make_space_def writable_bytes_def
        readable_bytes_def prependable_bytes_def sz_add_def sz_sub_def size_lim_def vec_resize_def
        vec_max_def poke_def has_written_def retrieve_def)
  have "\<forall>s. Inl s \<in> set ?evs \<longrightarrow> length s < size_lim - 1"
    by (auto simp: size_lim_def)
  from buffer_fifo [OF m this h] have "buf_inv ?final" "''abcdefg'' = ''abc'' @ content ?final"
    by blast+
  with m h show ?thesis by blast
qed

text \<open>
  \<open>Append\<close> either stores exactly the given bytes behind the ones already there, or throws
  an exception that the handlers of the code catch; it throws only when the vector would
  have to exceed \<open>max_size()\<close> or the memory at hand. The assertions inside never fail.
\<close>

theorem append_exact_or_throws:
  assumes "buf_inv b" "length s < size_lim - 1"
  shows "case append_bytes mem b s of
           Inr b' \<Rightarrow> buf_inv b' \<and> content b' = content b @ s
         | Inl e \<Rightarrow> catchable e \<and> min mem vec_max < write_pos b + length s + 1"
  using append_bytes_cases [OF assms, of mem] append_bytes_ok [OF assms, of mem]
  by (auto split: sum.split)

theorem append_exact_or_throws_witness:
  "(case append_bytes 64 sample_buffer ''ef'' of
      Inr b' \<Rightarrow> buf_inv b' \<and> content b' = ''abcdef''
    | Inl e \<Rightarrow> catchable e)
   \<and> (\<exists>e. append_bytes 8 sample_buffer ''0123456789'' = Inl e \<and> catchable e)"
proof -
  have "\<exists>e. append_bytes 8 sample_buffer ''0123456789'' = Inl e"
    by (simp add: sample_buffer_def append_bytes_def ensure_writable_def make_space_def
        writable_bytes_def prependable_bytes_def sz_add_def sz_sub_def size_lim_def vec_resize_def
        vec_max_def)
  then show ?thesis
    using append_exact_or_throws [of sample_buffer "''ef''" 64]
      append_exact_or_throws [of sample_buffer "''0123456789''" 8]
    by (auto simp: size_lim_def split: sum.splits)
qed

text \<open>
  \<open>ReadFd\<close>, whatever the kernel answers within the contract of \<open>readv\<close>: it never faults,
  and it either reports an error and leaves the unread bytes as they were, or appends what
  the kernel delivered. The exception is named: when the spill-over from the stack buffer
  cannot be appended, the whole count is returned although a suffix of the bytes is lost, and
  \<open>ENOBUFS\<close> is the only sign of it.
\<close>

theorem read_fd_delivers:
  assumes "buf_inv b" "readv_contract rv"
  shows "\<exists>n e b'. read_fd mem rv errno b = Inr (n, e, b') \<and> buf_inv b'
     \<and> (n = -1 \<and> content b' = content b
        \<or> (\<exists>cap bytes. rv cap = Inr bytes \<and> n = int (length bytes)
             \<and> (e = errno \<and> content b' = content b @ bytes
                \<or> e = ENOBUFS \<and> (\<exists>k < length bytes. content b' = content b @ take k bytes))))"
  using read_fd_correct [OF assms, of mem errno] unfolding read_fd_post_def by (auto split: prod.splits)

theorem read_fd_delivers_witness:
  "\<exists>n e b'. read_fd 10000 (\<lambda>cap. Inr (take cap ''hello'')) 0 sample_buffer = Inr (n, e, b')
     \<and> buf_inv b'"
  using read_fd_delivers [of sample_buffer "\<lambda>cap. Inr (take cap ''hello'')" 10000 0]
  by (auto simp: readv_contract_def)

text \<open>
  The lost suffix is real. With no memory left for growing, a \<open>readv\<close> that fills
  the vector and spills one byte makes \<open>ReadFd\<close> return 2001 while the buffer holds
  2000 bytes.
\<close>

theorem read_fd_can_lose_bytes:
  "\<exists>b b'. buf_inv b \<and> content b = []
     \<and> read_fd 2000 (\<lambda>cap. Inr (replicate (min cap 2001) CHR ''a'')) 0 b = Inr (2001, ENOBUFS, b')
     \<and> content b' = replicate 2000 CHR ''a''"
proof -
  let ?b = "\<lparr>buf_data = replicate 2000 nul, read_pos = 0, write_pos = 0\<rparr>"
  let ?b' = "\<lparr>buf_data = replicate 2000 CHR ''a'', read_pos = 0, write_pos = 2000\<rparr>"
  have w: "writable_bytes ?b = 2000"
    by (simp add: writable_bytes_def sz_sub_def size_lim_def)
  have app: "append_bytes 2000 ?b' [CHR ''a''] = Inl Bad_Alloc"
    by (simp add: append_bytes_def ensure_writable_def make_space_def writable_bytes_def
        prependable_bytes_def sz_add_def sz_sub_def size_lim_def vec_resize_def vec_max_def)
  have tail: "read_fd_tail 2000 (\<lambda>cap. Inr (replicate (min cap 2001) CHR ''a'')) 0 ?b
      = Inr (2001, ENOBUFS, ?b')"
    using app
    by (simp add: read_fd_tail_def Let_def w EXTRA_BUF_SIZE_def scatter_def catchable_def)
  have "read_fd 2000 (\<lambda>cap. Inr (replicate (min cap 2001) CHR ''a'')) 0 ?b = Inr (2001, ENOBUFS, ?b')"
    by (simp add: read_fd_def w tail)
  moreover have "buf_inv ?b" "content ?b = []" "content ?b' = replicate 2000 CHR ''a''"
    by (simp_all add: buf_inv_def content_def vec_max_def)
  ultimately show ?thesis by blast
qed

text \<open>
  \<open>WriteFd\<close> offers exactly the unread bytes to the descriptor and removes exactly the
  prefix that the kernel took; on an error nothing is removed.
\<close>

theorem write_fd_consumes:
  assumes "buf_inv b" "write_contract wr"
  shows "\<exists>n e b'. write_fd wr errno b = Inr (n, e, b') \<and> buf_inv b'
     \<and> (case wr (content b) of
          Inl err \<Rightarrow> n = -1 \<and> e = err \<and> content b' = content b
        | Inr k \<Rightarrow> n = int k \<and> e = errno \<and> take k (content b) @ content b' = content b)"
  using write_fd_correct [OF assms] assms(1) by (auto split: sum.split)

theorem write_fd_consumes_witness:
  "\<exists>n e b'. write_fd (\<lambda>s. Inr (min 3 (length s))) 0 sample_buffer = Inr (n, e, b')
     \<and> n = 3 \<and> ''abc'' @ content b' = ''abcd''"
  using write_fd_consumes [of sample_buffer "\<lambda>s. Inr (min 3 (length s))" 0]
  by (auto simp: write_contract_def)

section \<open>Reading with enough memory\<close>

text \<open>How far the vector grows, and that a \<open>ReadFd\<close> that may grow it loses nothing.\<close>

lemma ensure_writable_length:
  assumes inv: "buf_inv b" and len: "len < size_lim - 1" and res: "ensure_writable mem b len = Inr b'"
  shows "length (buf_data b') \<le> max (length (buf_data b)) (write_pos b + len + 1)"
proof (cases "writable_bytes b < len")
  case True
  with res have ms: "make_space mem b len = Inr b'" by (auto simp: ensure_writable_def)
  show ?thesis
  proof (cases "length (buf_data b) - write_pos b + read_pos b < len")
    case True
    from ms [unfolded make_space_grow_eq [OF inv len True]] show ?thesis
      by (auto dest!: vec_resize_length split: if_splits)
  next
    case False
    with make_space_compact_eq [OF inv, of len mem] ms show ?thesis
      using inv by (auto simp: length_content elim!: buf_invE)
  qed
next
  case False
  with res show ?thesis by (simp add: ensure_writable_def)
qed

lemma append_bytes_length:
  assumes "buf_inv b" "length s < size_lim - 1" "append_bytes mem b s = Inr b'"
  shows "length (buf_data b') \<le> max (length (buf_data b)) (write_pos b + length s + 1)"
proof -
  from assms(3) append_bytes_eq [OF assms(1,2), of mem] obtain b1 where
    b1: "ensure_writable mem b (length s) = Inr b1" and
    b': "b' = b1\<lparr>buf_data := take (write_pos b1) (buf_data b1) @ s
                        @ drop (write_pos b1 + length s) (buf_data b1),
                     write_pos := write_pos b1 + length s\<rparr>" by auto
  have "length (buf_data b') = length (buf_data b1)"
    using ensure_writable_ok [OF assms(1,2) b1] by (simp add: b')
  with ensure_writable_length [OF assms(1,2) b1] show ?thesis by simp
qed

definition read_exactly :: "(nat \<Rightarrow> int + string) \<Rightarrow> int \<Rightarrow> buffer \<Rightarrow> int \<times> int \<times> buffer \<Rightarrow> bool" where
  "read_exactly rv errno b r \<longleftrightarrow>
     (case r of (n, e, b') \<Rightarrow> buf_inv b' \<and>
        (n = -1 \<and> content b' = content b
         \<or> (\<exists>cap bytes. rv cap = Inr bytes \<and> n = int (length bytes) \<and> e = errno \<and> content b' = content b @ bytes)))"

lemma read_fd_tail_exact:
  fixes b b1 :: buffer
  assumes inv: "buf_inv b1" and same: "content b1 = content b" and rv: "readv_contract rv"
    and mem: "length (buf_data b1) + 4097 \<le> min mem vec_max"
  shows "\<exists>r. read_fd_tail mem rv errno b1 = Inr r \<and> read_exactly rv errno b r
           \<and> length (buf_data (snd (snd r))) \<le> length (buf_data b1) + 4097"
proof -
  let ?room = "writable_bytes b1"
  let ?cap = "if ?room < EXTRA_BUF_SIZE then ?room + EXTRA_BUF_SIZE else ?room"
  show ?thesis
  proof (cases "rv ?cap")
    case (Inl err)
    with inv same show ?thesis
      by (simp add: read_fd_tail_def Let_def read_exactly_def)
  next
    case (Inr bytes)
    note ok = Inr
    have w: "write_pos b1 \<le> length (buf_data b1)" "?room = length (buf_data b1) - write_pos b1"
      using inv by (auto simp: writable_bytes_diff elim: buf_invE)
    have sc: "length (buf_data (fst (scatter b1 ?room bytes))) = length (buf_data b1)"
      using w by (simp add: scatter_def min_def)
    show ?thesis
    proof (cases "length bytes \<le> ?room")
      case True
      from scatter_short [OF inv True] ok True same inv sc show ?thesis
        by (cases "bytes = []")
           (auto simp: read_fd_tail_def Let_def read_exactly_def case_prod_beta intro!: exI [of _ ?cap])
    next
      case False
      let ?b2 = "fst (scatter b1 ?room bytes)"
      let ?b3 = "?b2\<lparr>write_pos := length (buf_data ?b2)\<rparr>"
      let ?x = "take (min (length bytes - ?room) EXTRA_BUF_SIZE) (snd (scatter b1 ?room bytes))"
      from False have "?room < length bytes" by simp
      from read_fd_body_post [OF inv same rv ok this] have
        b3: "buf_inv ?b3" "content ?b3 = content b @ take ?room bytes"
          "min (length bytes - ?room) EXTRA_BUF_SIZE = length bytes - ?room" by simp_all
      have x: "?x = drop ?room bytes" using b3(3) by (simp add: scatter_def)
      have xl: "length ?x \<le> 4096" unfolding x using b3(3) by (simp add: EXTRA_BUF_SIZE_def min_def split: if_splits)
      then have xs: "length ?x < size_lim - 1" by (simp add: size_lim_def)
      have "write_pos ?b3 + length ?x + 1 \<le> min mem vec_max"
        using mem xl sc by simp
      from append_bytes_success [OF b3(1) this] obtain b4 where b4: "append_bytes mem ?b3 ?x = Inr b4" by blast
      from append_bytes_ok [OF b3(1) xs b4] x have 1: "buf_inv b4" "content b4 = content b @ bytes"
        by (simp_all add: b3(2))
      from append_bytes_length [OF b3(1) xs b4] xl sc have "length (buf_data b4) \<le> length (buf_data b1) + 4097"
        by simp
      with False ok b4 1 show ?thesis
        by (auto simp: read_fd_tail_def Let_def read_exactly_def case_prod_beta)
    qed
  qed
qed

lemma read_fd_exact:
  assumes inv: "buf_inv b" and rv: "readv_contract rv"
    and mem: "2 * length (buf_data b) + 8194 \<le> min mem vec_max"
  shows "\<exists>r. read_fd mem rv errno b = Inr r \<and> read_exactly rv errno b r
           \<and> length (buf_data (snd (snd r))) \<le> 2 * length (buf_data b) + 8194"
proof (cases "writable_bytes b < 1024")
  case True
  let ?n = "max 4096 (readable_bytes b)"
  note len = read_fd_growth [OF inv]
  have n: "write_pos b + ?n + 1 \<le> 2 * length (buf_data b) + 4097"
    using inv by (auto simp: readable_bytes_diff elim!: buf_invE)
  from ensure_writable_cases [OF inv len, of mem] n mem obtain b1 where
    b1: "ensure_writable mem b ?n = Inr b1" by auto
  from ensure_writable_length [OF inv len b1] n
  have L: "length (buf_data b1) \<le> 2 * length (buf_data b) + 4097" by simp
  from ensure_writable_ok [OF inv len b1] have "buf_inv b1" "content b1 = content b" by simp_all
  from read_fd_tail_exact [OF this rv, of mem errno] L mem True b1 show ?thesis
    by (auto simp: read_fd_def)
next
  case False
  from read_fd_tail_exact [OF inv refl rv, of mem errno] mem False show ?thesis
    by (auto simp: read_fd_def)
qed

end
