(* ===== verification/Sql_Pool.thy ===== *)
theory Sql_Pool
  imports Zener_Prelude "HOL-Library.Multiset"
begin

text \<open>
  The MySQL connection pool of \<open>src/database/sql_connector.cpp\<close> and its RAII lease
  (\<open>include/database/sqlconnRAII.hpp\<close>). The client library is not part of the repository:
  \<open>mysql_init\<close> and \<open>mysql_real_connect\<close> are parameters of \<open>sql_init\<close>, and
  \<open>mysql_close\<close> is recorded in the state. A \<open>MYSQL*\<close> that is not null is a number.
\<close>

section \<open>State and operations\<close>

record sql_pool =
  conn_que :: "nat list"
  max_conn_size :: int
  closed_conns :: "nat list"

definition empty_pool :: sql_pool where
  "empty_pool = \<lparr>conn_que = [], max_conn_size = 0, closed_conns = []\<rparr>"

text \<open>
  One round of the loop of \<open>Init\<close> per connection: a failed \<open>mysql_init\<close> runs into the
  \<open>assert(sql)\<close>, a failed connect skips the slot.
\<close>

fun init_loop ::
  "(nat \<Rightarrow> nat option) \<Rightarrow> (nat \<Rightarrow> nat option) \<Rightarrow> nat list \<Rightarrow> sql_pool \<Rightarrow> sql_pool outcome" where
  "init_loop minit mconn [] p = Inr p"
| "init_loop minit mconn (i # is) p =
     (case minit i of
        None \<Rightarrow> Inl Assertion_Failed
      | Some h \<Rightarrow>
          (case mconn h of
             None \<Rightarrow> init_loop minit mconn is p
           | Some h' \<Rightarrow> init_loop minit mconn is (p\<lparr>conn_que := conn_que p @ [h']\<rparr>)))"

definition sql_init ::
  "(nat \<Rightarrow> nat option) \<Rightarrow> (nat \<Rightarrow> nat option) \<Rightarrow> int \<Rightarrow> sql_pool \<Rightarrow> sql_pool outcome" where
  "sql_init minit mconn n p =
     cpp_assert (0 < n)
       (and_then (init_loop minit mconn [0..<nat n] p) (\<lambda>p'. Inr (p'\<lparr>max_conn_size := n\<rparr>)))"

text \<open>
  \<open>GetConn\<close> waits on the condition variable only when the queue is not empty, where the wait
  returns at once; on an empty queue it goes on to \<open>front()\<close>, which is undefined.
\<close>

definition get_conn :: "sql_pool \<Rightarrow> (nat \<times> sql_pool) outcome" where
  "get_conn p = (case conn_que p of
       [] \<Rightarrow> Inl Undefined_Behaviour
     | h # hs \<Rightarrow> Inr (h, p\<lparr>conn_que := hs\<rparr>))"

definition free_conn :: "sql_pool \<Rightarrow> nat \<Rightarrow> sql_pool outcome" where
  "free_conn p h = Inr (p\<lparr>conn_que := conn_que p @ [h]\<rparr>)"

fun close_loop :: "nat list \<Rightarrow> sql_pool \<Rightarrow> sql_pool" where
  "close_loop [] p = p\<lparr>conn_que := []\<rparr>"
| "close_loop (h # hs) p = close_loop hs (p\<lparr>conn_que := hs, closed_conns := closed_conns p @ [h]\<rparr>)"

definition close_pool :: "sql_pool \<Rightarrow> sql_pool" where
  "close_pool p = close_loop (conn_que p) p"

definition free_conn_count :: "sql_pool \<Rightarrow> nat" where
  "free_conn_count p = length (conn_que p)"

text \<open>
  \<open>SqlConnRAII\<close>: the constructor takes a connection, the destructor gives it back on every
  way out of the enclosing block.
\<close>

definition with_handle ::
  "('p \<Rightarrow> ('h \<times> 'p) outcome) \<Rightarrow> ('p \<Rightarrow> 'h \<Rightarrow> 'p outcome) \<Rightarrow>
   ('h \<Rightarrow> 'r outcome) \<Rightarrow> 'p \<Rightarrow> ('r \<times> 'p) outcome" where
  "with_handle get put body p =
     and_then (get p) (\<lambda>(h, p1).
     and_then (body h) (\<lambda>r.
     and_then (put p1 h) (\<lambda>p2. Inr (r, p2))))"

section \<open>Borrowing by several threads\<close>

text \<open>
  The lock makes each call atomic, so a schedule of the threads is a sequence of steps on the
  pool and the list of handles that are out.
\<close>

inductive lease_step ::
  "('p \<Rightarrow> ('h \<times> 'p) outcome) \<Rightarrow> ('p \<Rightarrow> 'h \<Rightarrow> 'p outcome) \<Rightarrow> 'p \<times> 'h list \<Rightarrow> 'p \<times> 'h list \<Rightarrow> bool"
  for get put where
  take_handle: "get p = Inr (h, p') \<Longrightarrow> lease_step get put (p, out) (p', h # out)"
| give_back: "h \<in> set out \<Longrightarrow> put p h = Inr p' \<Longrightarrow> lease_step get put (p, out) (p', remove1 h out)"

text \<open>
  What the pool promises, as a locale: the idle handles form a queue, \<open>get\<close> takes the first
  and \<open>put\<close> appends.
\<close>

locale handle_pool =
  fixes idle :: "'p \<Rightarrow> 'h list"
    and get :: "'p \<Rightarrow> ('h \<times> 'p) outcome"
    and put :: "'p \<Rightarrow> 'h \<Rightarrow> 'p outcome"
  assumes get_ok: "idle p = h # hs \<Longrightarrow> \<exists>p'. get p = Inr (h, p') \<and> idle p' = hs"
    and get_empty: "idle p = [] \<Longrightarrow> \<exists>e. get p = Inl e"
    and put_ok: "\<exists>p'. put p h = Inr p' \<and> idle p' = idle p @ [h]"
begin

lemma with_handle_rotates:
  assumes "idle p = h # hs" "body h = Inr r"
  shows "\<exists>p'. with_handle get put body p = Inr (r, p') \<and> idle p' = hs @ [h]"
proof -
  from get_ok [OF assms(1)] obtain p1 where p1: "get p = Inr (h, p1)" "idle p1 = hs"
    by blast
  moreover from put_ok [of p1 h] obtain p2 where "put p1 h = Inr p2" "idle p2 = idle p1 @ [h]"
    by blast
  ultimately show ?thesis
    using assms(2) by (simp add: with_handle_def)
qed

lemma with_handle_fault:
  assumes "idle p = h # hs" "body h = Inl e"
  shows "with_handle get put body p = Inl e"
  using get_ok [OF assms(1)] assms(2) by (auto simp: with_handle_def)

lemma lease_step_conserves:
  assumes "lease_step get put (p, out) (p', out')"
  shows "mset (idle p') + mset out' = mset (idle p) + mset out"
  using assms
proof (cases rule: lease_step.cases)
  case (take_handle h)
  then obtain hs where "idle p = h # hs" "idle p' = hs"
    using get_ok [of p] get_empty [of p] by (cases "idle p") fastforce+
  with take_handle show ?thesis by simp
next
  case (give_back h)
  with put_ok [of p h] show ?thesis by auto
qed

lemma leases_conserve:
  assumes "(lease_step get put)\<^sup>*\<^sup>* (p, out) (p', out')"
  shows "mset (idle p') + mset out' = mset (idle p) + mset out"
  using assms
proof (induction rule: rtranclp_induct2)
  case refl
  show ?case by simp
next
  case (step p1 out1 p2 out2)
  with lease_step_conserves [of p1 out1 p2 out2] show ?case by simp
qed

lemma leases_exclusive:
  assumes "(lease_step get put)\<^sup>*\<^sup>* (p, []) (p', out')" "distinct (idle p)"
  shows "distinct (idle p' @ out') \<and> set (idle p' @ out') = set (idle p)"
proof -
  from leases_conserve [OF assms(1)] have "mset (idle p' @ out') = mset (idle p)"
    by simp
  with assms(2) show ?thesis
    by (metis mset_eq_imp_distinct_iff mset_eq_setD)
qed

end

interpretation sql_pool: handle_pool conn_que get_conn free_conn
  by unfold_locales (auto simp: get_conn_def free_conn_def)

section \<open>Properties of the pool\<close>

text \<open>The handle that slot \<open>i\<close> of \<open>Init\<close> ends up with, if any.\<close>

definition slot_handle :: "(nat \<Rightarrow> nat option) \<Rightarrow> (nat \<Rightarrow> nat option) \<Rightarrow> nat \<Rightarrow> nat option" where
  "slot_handle minit mconn i = Option.bind (minit i) mconn"

lemma init_loop_queue:
  "init_loop minit mconn is p = Inr p' \<Longrightarrow>
     conn_que p' = conn_que p @ List.map_filter (slot_handle minit mconn) is
     \<and> closed_conns p' = closed_conns p"
  by (induction minit mconn "is" p rule: init_loop.induct)
     (auto simp: slot_handle_def map_filter_simps split: option.splits)

lemma close_loop_closes:
  "close_loop hs p = p\<lparr>conn_que := [], closed_conns := closed_conns p @ hs\<rparr>"
  by (induction hs arbitrary: p) auto

lemma get_all:
  "conn_que p = hs \<Longrightarrow>
     (lease_step get_conn free_conn)\<^sup>*\<^sup>* (p, out) (p\<lparr>conn_que := []\<rparr>, rev hs @ out)"
proof (induction hs arbitrary: p out)
  case Nil
  then have "p\<lparr>conn_que := []\<rparr> = p" by (cases p) simp
  then show ?case by simp
next
  case (Cons h hs)
  have "lease_step get_conn free_conn (p, out) (p\<lparr>conn_que := hs\<rparr>, h # out)"
    using Cons.prems by (intro take_handle) (simp add: get_conn_def)
  moreover have "(lease_step get_conn free_conn)\<^sup>*\<^sup>* (p\<lparr>conn_que := hs\<rparr>, h # out)
      (p\<lparr>conn_que := []\<rparr>, rev (h # hs) @ out)"
    using Cons.IH [of "p\<lparr>conn_que := hs\<rparr>" "h # out"] by simp
  ultimately show ?case by (rule converse_rtranclp_into_rtranclp)
qed

text \<open>
  \<open>Init\<close> queues one connection per slot that connected, in slot order; slots whose
  connect failed are skipped without a retry, and \<open>_maxConnSize\<close> is the number asked for, even
  when fewer are open.
\<close>

theorem init_queues_connected_slots:
  assumes "sql_init minit mconn n p = Inr p'"
  shows "conn_que p' = conn_que p @ List.map_filter (slot_handle minit mconn) [0..<nat n]
     \<and> max_conn_size p' = n \<and> 0 < n
     \<and> free_conn_count p' \<le> free_conn_count p + nat n"
proof -
  from assms obtain q where "0 < n" "init_loop minit mconn [0..<nat n] p = Inr q"
      "p' = q\<lparr>max_conn_size := n\<rparr>"
    by (auto simp: sql_init_def)
  moreover have "length (List.map_filter (slot_handle minit mconn) is) \<le> length is" for "is"
    by (simp add: map_filter_def)
  from this [of "[0..<nat n]"]
  have "length (List.map_filter (slot_handle minit mconn) [0..<nat n]) \<le> nat n" by simp
  ultimately show ?thesis
    using init_loop_queue [of minit mconn "[0..<nat n]" p q] by (simp add: free_conn_count_def)
qed

theorem init_queues_connected_slots_witness:
  "\<exists>p'. sql_init (\<lambda>i. Some (10 + i)) (\<lambda>h. if h = 11 then None else Some h) 3 empty_pool = Inr p'
     \<and> conn_que p' = [10, 12] \<and> max_conn_size p' = 3"
proof -
  have run: "\<exists>p'. sql_init (\<lambda>i. Some (10 + i)) (\<lambda>h. if h = 11 then None else Some h) 3 empty_pool = Inr p'"
    by (simp add: sql_init_def upt_rec empty_pool_def numeral_3_eq_3)
  then obtain p' where p': "sql_init (\<lambda>i. Some (10 + i)) (\<lambda>h. if h = 11 then None else Some h) 3 empty_pool = Inr p'"
    by blast
  from init_queues_connected_slots [OF p'] p' show ?thesis
    by (auto simp: slot_handle_def map_filter_simps upt_rec empty_pool_def numeral_3_eq_3)
qed



text \<open>
  An exhausted pool does not make the borrower wait. From every state the threads can borrow
  all idle connections, and the next \<open>GetConn\<close> reads the front of an empty queue: the wait
  on the condition variable stands in the branch where there is nothing to wait for.
\<close>

theorem exhausted_pool_is_undefined:
  "\<exists>p' out. (lease_step get_conn free_conn)\<^sup>*\<^sup>* (p, []) (p', out)
     \<and> set out = set (conn_que p) \<and> length out = free_conn_count p
     \<and> get_conn p' = Inl Undefined_Behaviour"
  using get_all [of p "conn_que p" "[]"]
  by (intro exI [of _ "p\<lparr>conn_que := []\<rparr>"] exI [of _ "rev (conn_que p)"])
     (simp add: get_conn_def free_conn_count_def)

text \<open>
  \<open>Close\<close> closes every idle connection exactly once, in queue order, and leaves the queue
  empty. A connection that is lent out at that time is not closed: giving it back afterwards
  puts it into the queue of the closed pool.
\<close>

theorem close_closes_idle_only:
  assumes "distinct (conn_que p0)" "closed_conns p0 = []"
    and "(lease_step get_conn free_conn)\<^sup>*\<^sup>* (p0, []) (p, out)" "closed_conns p = []"
  shows "conn_que (close_pool p) = [] \<and> closed_conns (close_pool p) = conn_que p
     \<and> distinct (closed_conns (close_pool p))
     \<and> set out \<inter> set (closed_conns (close_pool p)) = {}
     \<and> (\<forall>h. \<exists>q. free_conn (close_pool p) h = Inr q \<and> conn_que q = [h]
              \<and> closed_conns q = conn_que p)"
  using sql_pool.leases_exclusive [OF assms(3,1)] assms(4)
  by (auto simp: close_pool_def close_loop_closes free_conn_def)

theorem close_closes_idle_only_witness:
  "closed_conns (close_pool \<lparr>conn_que = [3, 4], max_conn_size = 2, closed_conns = []\<rparr>) = [3, 4]
   \<and> distinct (closed_conns (close_pool \<lparr>conn_que = [3, 4], max_conn_size = 2, closed_conns = []\<rparr>))"
  using close_closes_idle_only [of "\<lparr>conn_que = [3, 4], max_conn_size = 2, closed_conns = []\<rparr>"
      "\<lparr>conn_que = [3, 4], max_conn_size = 2, closed_conns = []\<rparr>" "[]"]
  by simp

end
