(* ===== verification/Http_Request.thy ===== *)
theory Http_Request
  imports Net_Buffer Sql_Pool "HOL-Library.Signed_Division"
begin

text \<open>
  The request parser of \<open>src/http/request.cpp\<close>: the state machine over the lines of the read
  buffer, the form decoder and the check of a user against the database. Boost.Regex and the
  MySQL client library are parameters; what is used of them is stated by the locale
  \<open>boost_regex\<close> and in the record \<open>mysql_api\<close>.
\<close>

section \<open>State\<close>

datatype parse_state = REQUEST_LINE | HEADERS | BODY | FINISH

record request =
  req_state :: parse_state
  req_method :: string
  req_path :: string
  req_version :: string
  req_body :: string
  req_header :: "string \<rightharpoonup> string"
  req_post :: "string \<rightharpoonup> string"

definition request_init :: request where
  "request_init = \<lparr>req_state = REQUEST_LINE, req_method = [], req_path = [], req_version = [],
     req_body = [], req_header = Map.empty, req_post = Map.empty\<rparr>"

text \<open>
  The defaulted move operations. What a moved-from string or table holds is left open by the standard; the model takes
  the empty one that libstdc++ leaves.
\<close>

definition move_request :: "request \<Rightarrow> request \<times> request" where
  "move_request other = (other, request_init\<lparr>req_state := req_state other\<rparr>)"

definition DEFAULT_HTML :: "string list" where
  "DEFAULT_HTML = [''/index'', ''/register'', ''/login'', ''/welcome'', ''/video'', ''/picture'']"

definition DEFAULT_HTML_TAG :: "(string \<times> int) list" where
  "DEFAULT_HTML_TAG = [(''/register.html'', 0), (''/login.html'', 1)]"

definition request_keep_alive :: "request \<Rightarrow> bool" where
  "request_keep_alive r =
     (case req_header r ''Connection'' of
        Some v \<Rightarrow> v = ''keep-alive'' \<and> req_version r = ''1.1''
      | None \<Rightarrow> False)"

section \<open>Lines\<close>

text \<open>\<open>std::search\<close> for CR LF: the offset of the first occurrence, or the length.\<close>

fun line_end :: "string \<Rightarrow> nat" where
  "line_end [] = 0"
| "line_end (c # cs) =
     (if c = cr \<and> (case cs of [] \<Rightarrow> False | d # _ \<Rightarrow> d = lf) then 0 else Suc (line_end cs))"

text \<open>
  \<open>parsePath\<close>: the loop over the set of default pages finds at most one entry, so its order
  does not matter.
\<close>

definition parse_path :: "request \<Rightarrow> request" where
  "parse_path r =
     (if req_path r = ''/'' then r\<lparr>req_path := ''/index.html''\<rparr>
      else if req_path r \<in> set DEFAULT_HTML then r\<lparr>req_path := req_path r @ ''.html''\<rparr>
      else r)"

definition REQUEST_LINE_RE :: string where
  "REQUEST_LINE_RE = ''^([^ ]*) ([^ ]*) HTTP/([^ ]*)$''"

definition HEADER_RE :: string where
  "HEADER_RE = ''^([^:]*): ?(.*)$''"

text \<open>
  \<open>regex_match\<close> as a function from the pattern and the subject to the captures of a full match;
  a sub-match that does not exist reads as the empty string.
\<close>

type_synonym regex_match = "string \<Rightarrow> string \<Rightarrow> string list option"

definition sub_match :: "string list \<Rightarrow> nat \<Rightarrow> string" where
  "sub_match gs i = (if i \<le> length gs \<and> 0 < i then gs ! (i - 1) else [])"

definition parse_request_line :: "regex_match \<Rightarrow> string \<Rightarrow> request \<Rightarrow> bool \<times> request" where
  "parse_request_line rx line r =
     (case rx REQUEST_LINE_RE line of
        Some gs \<Rightarrow> (True, r\<lparr>req_method := sub_match gs 1, req_path := sub_match gs 2,
                         req_version := sub_match gs 3, req_state := HEADERS\<rparr>)
      | None \<Rightarrow> (False, r))"

definition parse_header :: "regex_match \<Rightarrow> string \<Rightarrow> request \<Rightarrow> request" where
  "parse_header rx line r =
     (case rx HEADER_RE line of
        Some gs \<Rightarrow> r\<lparr>req_header := (req_header r)(sub_match gs 1 \<mapsto> sub_match gs 2)\<rparr>
      | None \<Rightarrow> r\<lparr>req_state := BODY\<rparr>)"

section \<open>Form data\<close>

text \<open>\<open>char\<close> is signed on the target; storing an \<open>int\<close> into it keeps the low byte.\<close>

definition schar :: "char \<Rightarrow> int" where
  "schar c = (let n = (of_char c :: int) in if n < 128 then n else n - 256)"

definition to_schar :: "int \<Rightarrow> char" where
  "to_schar i = char_of (nat (i mod 256))"

definition convert_hex :: "char \<Rightarrow> int" where
  "convert_hex ch =
     (if schar (CHR ''A'') \<le> schar ch \<and> schar ch \<le> schar (CHR ''F'')
      then schar ch - schar (CHR ''A'') + 10
      else if schar (CHR ''a'') \<le> schar ch \<and> schar ch \<le> schar (CHR ''f'')
      then schar ch - schar (CHR ''a'') + 10
      else schar ch)"

text \<open>
  The loop of \<open>parseFromUrlencoded\<close>. Its state is the body, which is edited in place, the
  indices \<open>i\<close> and \<open>j\<close>, the last key and the map. Stepping past the end with a percent sign
  writes outside the string; an index beyond \<open>INT_MAX\<close> overflows.
\<close>

record form_state =
  fs_body :: string
  fs_j :: nat
  fs_key :: string
  fs_post :: "string \<rightharpoonup> string"

definition substr :: "string \<Rightarrow> nat \<Rightarrow> nat \<Rightarrow> string" where
  "substr s i n = take n (drop i s)"

definition form_char :: "nat \<Rightarrow> form_state \<Rightarrow> (nat \<times> form_state) outcome" where
  "form_char i st =
     (let body = fs_body st; ch = body ! i in
      if ch = CHR ''='' then
        Inr (i, st\<lparr>fs_key := substr body (fs_j st) (i - fs_j st), fs_j := i + 1\<rparr>)
      else if ch = CHR ''+'' then
        Inr (i, st\<lparr>fs_body := body[i := CHR '' '']\<rparr>)
      else if ch = CHR ''%'' then
        if i + 2 < length body then
          let num = convert_hex (body ! (i + 1)) * 16 + convert_hex (body ! (i + 2)) in
          Inr (i + 2, st\<lparr>fs_body := body[i + 2 := to_schar (num smod 10 + schar (CHR ''0'')),
                                        i + 1 := to_schar (num sdiv 10 + schar (CHR ''0''))]\<rparr>)
        else Inl Undefined_Behaviour
      else if ch = CHR ''&'' then
        Inr (i, st\<lparr>fs_post := (fs_post st)(fs_key st \<mapsto> substr body (fs_j st) (i - fs_j st)),
                  fs_j := i + 1\<rparr>)
      else Inr (i, st))"

lemma form_char_length:
  "form_char i st = Inr (i', st') \<Longrightarrow> i \<le> i' \<and> length (fs_body st') = length (fs_body st)"
  by (auto simp: form_char_def Let_def split: if_splits)

function form_loop :: "nat \<Rightarrow> form_state \<Rightarrow> (nat \<times> form_state) outcome" where
  "form_loop i st =
     (if int_max < i then Inl Undefined_Behaviour
      else if i < length (fs_body st) then
        (case form_char i st of Inl e \<Rightarrow> Inl e | Inr (i', st') \<Rightarrow> form_loop (i' + 1) st')
      else Inr (i, st))"
  by pat_completeness auto
termination
  by (relation "measure (\<lambda>(i, st). length (fs_body st) - i)") (auto dest: form_char_length)

declare form_loop.simps [simp del]

definition parse_from_urlencoded :: "request \<Rightarrow> request outcome" where
  "parse_from_urlencoded r =
     (if req_body r = [] then Inr r
      else
        and_then (form_loop 0 \<lparr>fs_body = req_body r, fs_j = 0, fs_key = [], fs_post = req_post r\<rparr>)
          (\<lambda>(i, st). cpp_assert (fs_j st \<le> i)
             (Inr (r\<lparr>req_body := fs_body st,
                     req_post := (if fs_post st (fs_key st) = None \<and> fs_j st < i
                       then (fs_post st)(fs_key st \<mapsto> substr (fs_body st) (fs_j st) (i - fs_j st))
                       else fs_post st)\<rparr>))))"

section \<open>Checking a user\<close>

text \<open>
  What is used of the MySQL client: \<open>mysql_query\<close> on a connection says whether it failed,
  \<open>mysql_store_result\<close> gives the rows (\<open>None\<close> for a null pointer), a column being null or a
  string. Both may change the database \<open>'d\<close>.
\<close>

record 'd mysql_api =
  mysql_query :: "nat \<Rightarrow> string \<Rightarrow> 'd \<Rightarrow> bool \<times> 'd"
  mysql_store_result :: "nat \<Rightarrow> 'd \<Rightarrow> string option list list option \<times> 'd"

abbreviation squote :: string where
  "squote \<equiv> [CHR 0x27]"

text \<open>\<open>snprintf(order, 256, ...)\<close> keeps at most 255 characters.\<close>

definition select_order :: "string \<Rightarrow> string" where
  "select_order name = take 255
     (''SELECT username, password FROM user WHERE username='' @ squote @ c_str name @ squote
      @ '' LIMIT 1'')"

definition insert_order :: "string \<Rightarrow> string \<Rightarrow> string" where
  "insert_order name pwd = take 255
     (''INSERT INTO user(username, password) VALUES('' @ squote @ c_str name @ squote @ '',''
      @ squote @ c_str pwd @ squote @ '')'')"

fun verify_rows :: "bool \<Rightarrow> string \<Rightarrow> string option list list \<Rightarrow> bool \<Rightarrow> bool outcome" where
  "verify_rows is_login pwd [] flag = Inr flag"
| "verify_rows is_login pwd (row # rows) flag =
     (if length row < 2 then Inl Undefined_Behaviour
      else case row ! 1 of
        None \<Rightarrow> Inl Undefined_Behaviour
      | Some password \<Rightarrow>
          verify_rows is_login pwd rows (if is_login then pwd = password else False))"

text \<open>The body of \<open>userVerify\<close> between taking and returning the connection.\<close>

definition verify_body ::
  "'d mysql_api \<Rightarrow> string \<Rightarrow> string \<Rightarrow> bool \<Rightarrow> 'd \<Rightarrow> nat \<Rightarrow> (bool \<times> 'd) outcome" where
  "verify_body my name pwd is_login d h =
     (let (failed, d1) = mysql_query my h (select_order name) d in
      if failed then Inr (False, d1)
      else
        let (res, d2) = mysql_store_result my h d1 in
        case res of
          None \<Rightarrow> Inr (False, d2)
        | Some rows \<Rightarrow>
            and_then (verify_rows is_login pwd rows (\<not> is_login)) (\<lambda>flag.
              if \<not> is_login \<and> flag then
                let (insert_failed, d3) = mysql_query my h (insert_order name pwd) d2;
                    flag1 = (if insert_failed then False else flag);
                    flag2 = True
                in Inr (flag2, d3)
              else Inr (flag, d2)))"

definition user_verify ::
  "'d mysql_api \<Rightarrow> string \<Rightarrow> string \<Rightarrow> bool \<Rightarrow> sql_pool \<times> 'd \<Rightarrow> (bool \<times> sql_pool \<times> 'd) outcome" where
  "user_verify my name pwd is_login w =
     (if name = [] \<or> pwd = [] then Inr (False, w)
      else
        and_then (with_handle get_conn free_conn (verify_body my name pwd is_login (snd w)) (fst w))
          (\<lambda>((flag, d), p). Inr (flag, p, d)))"

section \<open>The parser\<close>

text \<open>\<open>operator[]\<close> of a map inserts an empty value for a missing key.\<close>

definition touch_key :: "string \<Rightarrow> (string \<rightharpoonup> string) \<Rightarrow> (string \<rightharpoonup> string)" where
  "touch_key k m = (if m k = None then m(k \<mapsto> []) else m)"

definition parse_post ::
  "'d mysql_api \<Rightarrow> request \<Rightarrow> sql_pool \<times> 'd \<Rightarrow> (request \<times> sql_pool \<times> 'd) outcome" where
  "parse_post my r w =
     (if req_method r \<noteq> ''POST'' then Inr (r, w)
      else
        let r1 = r\<lparr>req_header := touch_key ''Content-Type'' (req_header r)\<rparr> in
        if req_header r1 ''Content-Type'' \<noteq> Some ''application/x-www-form-urlencoded'' then Inr (r1, w)
        else
          and_then (parse_from_urlencoded r1) (\<lambda>r2.
            case map_of DEFAULT_HTML_TAG (req_path r2) of
              None \<Rightarrow> Inr (r2, w)
            | Some tag \<Rightarrow>
                if tag = 0 \<or> tag = 1 then
                  let post = touch_key ''password'' (touch_key ''username'' (req_post r2));
                      r3 = r2\<lparr>req_post := post\<rparr>
                  in and_then
                       (user_verify my (the (post ''username'')) (the (post ''password'')) (tag = 1) w)
                       (\<lambda>(ok, w1).
                         Inr (r3\<lparr>req_path := (if ok then ''/welcome.html'' else ''/error.html'')\<rparr>, w1))
                else Inr (r2, w)))"

definition parse_body ::
  "'d mysql_api \<Rightarrow> string \<Rightarrow> request \<Rightarrow> sql_pool \<times> 'd \<Rightarrow> (request \<times> sql_pool \<times> 'd) outcome" where
  "parse_body my line r w =
     and_then (parse_post my (r\<lparr>req_body := line\<rparr>) w)
       (\<lambda>(r1, w1). Inr (r1\<lparr>req_state := FINISH\<rparr>, w1))"

text \<open>
  The \<open>switch\<close> on one line: \<open>False\<close> is the early return after a malformed request line;
  \<open>readable\<close> is \<open>buff.ReadableBytes()\<close> before the line is consumed.
\<close>

definition parse_line ::
  "regex_match \<Rightarrow> 'd mysql_api \<Rightarrow> string \<Rightarrow> nat \<Rightarrow> request \<Rightarrow> sql_pool \<times> 'd \<Rightarrow>
   (bool \<times> request \<times> sql_pool \<times> 'd) outcome" where
  "parse_line rx my line readable r w =
     (case req_state r of
        REQUEST_LINE \<Rightarrow>
          let (ok, r1) = parse_request_line rx line r in
          if ok then Inr (True, parse_path r1, w) else Inr (False, r1, w)
      | HEADERS \<Rightarrow>
          let r1 = parse_header rx line r in
          Inr (True, if readable \<le> 2 then r1\<lparr>req_state := FINISH\<rparr> else r1, w)
      | BODY \<Rightarrow> and_then (parse_body my line r w) (\<lambda>(r1, w1). Inr (True, r1, w1))
      | FINISH \<Rightarrow> Inr (True, r, w))"

lemma retrieve_until_decreases:
  "retrieve_until b (Suc (Suc (read_pos b + k))) = Inr b' \<Longrightarrow> readable_bytes b' < readable_bytes b"
  by (auto simp: retrieve_until_def dest!: retrieve_readable)

function parse_loop ::
  "regex_match \<Rightarrow> 'd mysql_api \<Rightarrow> buffer \<Rightarrow> request \<Rightarrow> sql_pool \<times> 'd \<Rightarrow>
   (bool \<times> request \<times> buffer \<times> sql_pool \<times> 'd) outcome" where
  "parse_loop rx my b r w =
     (if readable_bytes b = 0 \<or> req_state r = FINISH then Inr (True, r, b, w)
      else
        (case to_string b of
           Inl e \<Rightarrow> Inl e
         | Inr s \<Rightarrow>
             (case parse_line rx my (take (line_end s) s) (readable_bytes b) r w of
                Inl e \<Rightarrow> Inl e
              | Inr (go_on, r1, w1) \<Rightarrow>
                  if \<not> go_on then Inr (False, r1, b, w1)
                  else if line_end s = length s then Inr (True, r1, b, w1)
                  else
                    (case retrieve_until b (read_pos b + line_end s + 2) of
                       Inl e \<Rightarrow> Inl e
                     | Inr b1 \<Rightarrow> parse_loop rx my b1 r1 w1))))"
  by pat_completeness auto
termination
  by (relation "measure (\<lambda>(rx, my, b, r, w). readable_bytes b)") (auto dest: retrieve_until_decreases)

declare parse_loop.simps [simp del]

definition request_parse ::
  "regex_match \<Rightarrow> 'd mysql_api \<Rightarrow> request \<Rightarrow> buffer \<Rightarrow> sql_pool \<times> 'd \<Rightarrow>
   (bool \<times> request \<times> buffer \<times> sql_pool \<times> 'd) outcome" where
  "request_parse rx my r b w =
     (if readable_bytes b = 0 then Inr (False, r, b, w) else parse_loop rx my b r w)"

section \<open>What is used of Boost.Regex\<close>

text \<open>
  The documented Perl semantics of a full match of the two patterns: the captures of the request
  line are separated by the two blanks; those of a header line by the first colon, with one
  optional blank taken greedily (the dot of Boost matches every character).
\<close>

definition drop_blank :: "string \<Rightarrow> string" where
  "drop_blank v = (case v of [] \<Rightarrow> [] | c # cs \<Rightarrow> if c = CHR '' '' then cs else v)"

locale boost_regex =
  fixes rx :: regex_match
  assumes request_line_match:
      "CHR '' '' \<notin> set m \<Longrightarrow> CHR '' '' \<notin> set p \<Longrightarrow> CHR '' '' \<notin> set v \<Longrightarrow>
         rx REQUEST_LINE_RE (m @ '' '' @ p @ '' HTTP/'' @ v) = Some [m, p, v]"
    and request_line_only:
      "rx REQUEST_LINE_RE s = Some gs \<Longrightarrow>
         \<exists>m p v. CHR '' '' \<notin> set m \<and> CHR '' '' \<notin> set p \<and> CHR '' '' \<notin> set v
                \<and> s = m @ '' '' @ p @ '' HTTP/'' @ v \<and> gs = [m, p, v]"
    and header_match:
      "CHR '':'' \<notin> set k \<Longrightarrow> rx HEADER_RE (k @ '':'' @ v) = Some [k, drop_blank v]"
    and header_only:
      "CHR '':'' \<notin> set s \<Longrightarrow> rx HEADER_RE s = None"
begin

lemma parse_request_line_match:
  "CHR '' '' \<notin> set m \<Longrightarrow> CHR '' '' \<notin> set p \<Longrightarrow> CHR '' '' \<notin> set v \<Longrightarrow>
     parse_request_line rx (m @ '' '' @ p @ '' HTTP/'' @ v) r
       = (True, r\<lparr>req_method := m, req_path := p, req_version := v, req_state := HEADERS\<rparr>)"
  using request_line_match [of m p v] by (simp add: parse_request_line_def sub_match_def)

lemma parse_request_line_reject:
  assumes "\<And>m p v. CHR '' '' \<notin> set m \<Longrightarrow> CHR '' '' \<notin> set p \<Longrightarrow> CHR '' '' \<notin> set v \<Longrightarrow>
             s \<noteq> m @ '' '' @ p @ '' HTTP/'' @ v"
  shows "parse_request_line rx s r = (False, r)"
proof (cases "rx REQUEST_LINE_RE s")
  case (Some gs)
  from request_line_only [OF this] assms show ?thesis by blast
qed (simp add: parse_request_line_def)

lemma parse_header_match:
  "CHR '':'' \<notin> set k \<Longrightarrow>
     parse_header rx (k @ '':'' @ v) r = r\<lparr>req_header := (req_header r)(k \<mapsto> drop_blank v)\<rparr>"
  using header_match [of k v] by (simp add: parse_header_def sub_match_def)

lemma parse_header_end:
  "CHR '':'' \<notin> set s \<Longrightarrow> parse_header rx s r = r\<lparr>req_state := BODY\<rparr>"
  by (simp add: parse_header_def header_only)

end

text \<open>
  A backtracking matcher for patterns of this form. It shows that the laws are consistent and
  gives the witnesses a matcher that computes.
\<close>

datatype rx_item = Lit char | Maybe char | Star "char \<Rightarrow> bool"

fun first_some :: "'a option list \<Rightarrow> 'a option" where
  "first_some [] = None"
| "first_some (None # xs) = first_some xs"
| "first_some (Some x # xs) = Some x"

fun backtrack :: "rx_item list \<Rightarrow> string \<Rightarrow> string list option" where
  "backtrack [] s = (if s = [] then Some [] else None)"
| "backtrack (Lit c # r) s =
     (case s of [] \<Rightarrow> None | x # xs \<Rightarrow> if x = c then backtrack r xs else None)"
| "backtrack (Maybe c # r) s =
     (case s of
        [] \<Rightarrow> backtrack r s
      | x # xs \<Rightarrow> if x = c then first_some [backtrack r xs, backtrack r s] else backtrack r s)"
| "backtrack (Star P # r) s =
     first_some (map (\<lambda>n. map_option (Cons (take n s)) (backtrack r (drop n s)))
       (rev [0..<Suc (length (takeWhile P s))]))"

declare backtrack.simps(4) [simp del]

definition perl_match :: regex_match where
  "perl_match pat s =
     (if pat = REQUEST_LINE_RE then
        backtrack ([Star (\<lambda>c. c \<noteq> CHR '' ''), Lit (CHR '' ''), Star (\<lambda>c. c \<noteq> CHR '' '')]
                   @ map Lit '' HTTP/'' @ [Star (\<lambda>c. c \<noteq> CHR '' '')]) s
      else if pat = HEADER_RE then
        backtrack [Star (\<lambda>c. c \<noteq> CHR '':''), Lit (CHR '':''), Maybe (CHR '' ''), Star (\<lambda>c. True)] s
      else None)"

lemma first_some_None: "\<forall>x \<in> set xs. x = None \<Longrightarrow> first_some xs = None"
  by (induction xs rule: first_some.induct) auto

lemma first_some_Cons: "first_some (x # xs) = (case x of None \<Rightarrow> first_some xs | Some y \<Rightarrow> Some y)"
  by (cases x) auto

lemma backtrack_lits:
  "backtrack (map Lit t @ r) s = (if \<exists>s'. s = t @ s' then backtrack r (drop (length t) s) else None)"
  by (induction t arbitrary: s) (auto split: list.splits)

lemma backtrack_star_lit:
  assumes "\<not> P c"
  shows "backtrack (Star P # Lit c # r) s =
           (case dropWhile P s of
              [] \<Rightarrow> None
            | x # xs \<Rightarrow> if x = c then map_option (Cons (takeWhile P s)) (backtrack r xs) else None)"
proof -
  let ?k = "length (takeWhile P s)"
  let ?f = "\<lambda>n. map_option (Cons (take n s)) (backtrack (Lit c # r) (drop n s))"
  have none: "?f n = None" if "n < ?k" for n
  proof -
    from that have "n < length s" and "P (s ! n)"
      using nth_mem [OF that] takeWhile_nth [OF that] set_takeWhileD [of "s ! n" P s]
        length_takeWhile_le [of P s] by auto
    then have "drop n s = s ! n # drop (Suc n) s" "s ! n \<noteq> c"
      using assms by (auto simp: Cons_nth_drop_Suc)
    then show ?thesis by simp
  qed
  have rest: "first_some (map ?f (rev [0..<?k])) = None"
    by (rule first_some_None) (use none in auto)
  have "backtrack (Star P # Lit c # r) s = first_some (?f ?k # map ?f (rev [0..<?k]))"
    by (simp add: backtrack.simps(4) del: backtrack.simps(2))
  also have "\<dots> = ?f ?k"
    by (simp only: first_some_Cons rest) (simp split: option.split)
  also have "\<dots> = map_option (Cons (takeWhile P s)) (backtrack (Lit c # r) (dropWhile P s))"
    by (simp add: dropWhile_eq_drop takeWhile_eq_take [symmetric] del: backtrack.simps(2))
  finally have eq: "backtrack (Star P # Lit c # r) s
      = map_option (Cons (takeWhile P s)) (backtrack (Lit c # r) (dropWhile P s))" .
  show ?thesis
  proof (cases "dropWhile P s")
    case Nil
    show ?thesis unfolding eq Nil by simp
  next
    case (Cons x xs)
    show ?thesis unfolding eq Cons by simp
  qed
qed

lemma backtrack_star_end:
  "backtrack [Star P] s = (if \<forall>c \<in> set s. P c then Some [s] else None)"
proof (cases "\<forall>c \<in> set s. P c")
  case True
  then have len: "length (takeWhile P s) = length s"
    by (metis takeWhile_eq_all_conv)
  show ?thesis
    using True by (simp only: backtrack.simps(4) len) (simp add: first_some_Cons)
next
  case False
  have lt: "length (takeWhile P s) < length s"
    using False by (metis length_takeWhile_le nat_less_le takeWhile_eq_all_conv takeWhile_eq_take take_all_iff)
  have "backtrack [] (drop n s) = None" if "n \<le> length (takeWhile P s)" for n
    using that lt by simp
  then have "backtrack [Star P] s = None"
    by (simp only: backtrack.simps(4)) (rule first_some_None, auto)
  with False show ?thesis by simp
qed

lemma perl_match_request_line:
  assumes "perl_match REQUEST_LINE_RE s = Some gs"
  shows "\<exists>m p v. CHR '' '' \<notin> set m \<and> CHR '' '' \<notin> set p \<and> CHR '' '' \<notin> set v
                \<and> s = m @ '' '' @ p @ '' HTTP/'' @ v \<and> gs = [m, p, v]"
proof -
  let ?ns = "\<lambda>c. c \<noteq> CHR '' ''"
  let ?m = "takeWhile ?ns s"
  from assms obtain s1 gs1 where s1: "dropWhile ?ns s = CHR '' '' # s1" "gs = ?m # gs1"
    and b1: "backtrack (Star ?ns # Lit (CHR '' '') # map Lit ''HTTP/'' @ [Star ?ns]) s1 = Some gs1"
    by (auto simp: perl_match_def backtrack_star_lit split: list.splits if_splits)
  let ?p = "takeWhile ?ns s1"
  from b1 obtain s2 gs2 where s2: "dropWhile ?ns s1 = CHR '' '' # s2" "gs1 = ?p # gs2"
    and b2: "backtrack (map Lit ''HTTP/'' @ [Star ?ns]) s2 = Some gs2"
    by (auto simp: backtrack_star_lit split: list.splits if_splits)
  from b2 [unfolded backtrack_lits] obtain v where
    v: "s2 = ''HTTP/'' @ v" "gs2 = [v]" "\<forall>c \<in> set v. ?ns c"
    by (auto simp: backtrack_star_end split: if_splits)
  have "s = ?m @ '' '' @ ?p @ '' HTTP/'' @ v"
    using s1(1) s2(1) v(1) takeWhile_dropWhile_id [of ?ns s] takeWhile_dropWhile_id [of ?ns s1]
    by (metis append.assoc append_Cons append_Nil)
  moreover have "CHR '' '' \<notin> set ?m" "CHR '' '' \<notin> set ?p" "CHR '' '' \<notin> set v"
    using v(3) by (auto dest: set_takeWhileD)
  ultimately show ?thesis
    using s1(2) s2(2) v(2) by blast
qed

lemma no_char_all: "c \<notin> set s \<Longrightarrow> \<forall>x \<in> set s. x \<noteq> c"
  by auto

interpretation perl: boost_regex perl_match
proof (unfold_locales, goal_cases)
  case (1 m p v)
  note [simp] = no_char_all [OF 1(1)] no_char_all [OF 1(2)] no_char_all [OF 1(3)]
  show ?case
    by (simp add: perl_match_def backtrack_star_lit backtrack_star_end takeWhile_append2
        dropWhile_append2)
next
  case (2 s gs)
  then show ?case by (rule perl_match_request_line)
next
  case (3 k v)
  note [simp] = no_char_all [OF 3]
  show ?case
    by (simp add: perl_match_def REQUEST_LINE_RE_def HEADER_RE_def backtrack_star_lit
        backtrack_star_end takeWhile_append2 dropWhile_append2 drop_blank_def first_some_Cons
        split: list.split)
next
  case (4 s)
  then have none: "dropWhile (\<lambda>c. c \<noteq> CHR '':'') s = []"
    by auto
  have "backtrack (Star (\<lambda>c. c \<noteq> CHR '':'') # Lit (CHR '':'') # r) s = None" for r
    using backtrack_star_lit [of "\<lambda>c. c \<noteq> CHR '':''" "CHR '':''" r s] unfolding none by simp
  then show ?case
    by (simp add: perl_match_def REQUEST_LINE_RE_def HEADER_RE_def)
qed

end
