(* ===== verification/Request_Facts.thy ===== *)
theory Request_Facts
  imports Http_Request
begin

text \<open>
  Facts about the request parser: its refinement to a parser on strings, the requests it
  accepts, and what it leaves in the buffer.
\<close>

section \<open>Lines\<close>

definition no_crlf :: "string \<Rightarrow> bool" where
  "no_crlf l \<longleftrightarrow> line_end l = length l"

lemma line_end_le: "line_end s \<le> length s"
  by (induction s) auto

lemma line_end_hit:
  "line_end s \<noteq> length s \<Longrightarrow> line_end s + 2 \<le> length s \<and> (\<exists>t. drop (line_end s) s = cr # lf # t)"
proof (induction s)
  case (Cons c s)
  show ?case
  proof (cases "c = cr \<and> (case s of [] \<Rightarrow> False | d # _ \<Rightarrow> d = lf)")
    case True
    then show ?thesis by (cases s) auto
  next
    case False
    then have eq: "line_end (c # s) = Suc (line_end s)"
      by (simp only: line_end.simps if_False)
    with Cons show ?thesis
      by (simp only: eq) auto
  qed
qed simp

lemma line_end_append: "no_crlf l \<Longrightarrow> line_end (l @ cr # lf # rest) = length l"
proof (induction l)
  case (Cons c l)
  then have "no_crlf l"
    by (auto simp: no_crlf_def split: if_splits)
  with Cons show ?case
    by (cases l) (auto simp: no_crlf_def split: if_splits)
qed (simp add: no_crlf_def)

lemma no_crlf_iff: "no_crlf l \<longleftrightarrow> (\<forall>a b. l \<noteq> a @ cr # lf # b)"
proof
  assume "no_crlf l"
  show "\<forall>a b. l \<noteq> a @ cr # lf # b"
  proof (intro allI notI)
    fix a b assume l: "l = a @ cr # lf # b"
    have "line_end (a @ cr # lf # b) \<le> length a"
      by (induction a) (auto split: list.splits)
    with \<open>no_crlf l\<close> l show False by (simp add: no_crlf_def)
  qed
next
  assume none: "\<forall>a b. l \<noteq> a @ cr # lf # b"
  show "no_crlf l"
  proof (rule ccontr)
    assume "\<not> no_crlf l"
    then obtain t where "drop (line_end l) l = cr # lf # t"
      using line_end_hit [of l] by (auto simp: no_crlf_def)
    with none show False
      by (metis append_take_drop_id)
  qed
qed

lemma no_crlf_plain: "cr \<notin> set l \<or> lf \<notin> set l \<Longrightarrow> no_crlf l"
  by (auto simp: no_crlf_iff)

section \<open>The parser on strings\<close>

text \<open>
  The abstract parser works on the unread bytes alone and returns those it leaves. The buffer
  parser refines it: the positions and the capacity of the buffer do not influence the result.
\<close>

function parse_text ::
  "regex_match \<Rightarrow> 'd mysql_api \<Rightarrow> string \<Rightarrow> request \<Rightarrow> sql_pool \<times> 'd \<Rightarrow>
   (bool \<times> request \<times> string \<times> sql_pool \<times> 'd) outcome" where
  "parse_text rx my s r w =
     (if s = [] \<or> req_state r = FINISH then Inr (True, r, s, w)
      else
        (case parse_line rx my (take (line_end s) s) (length s) r w of
           Inl e \<Rightarrow> Inl e
         | Inr (go_on, r1, w1) \<Rightarrow>
             if \<not> go_on then Inr (False, r1, s, w1)
             else if line_end s = length s then Inr (True, r1, s, w1)
             else parse_text rx my (drop (line_end s + 2) s) r1 w1))"
  by pat_completeness auto
termination
  by (relation "measure (\<lambda>(rx, my, s, r, w). length s)") auto

declare parse_text.simps [simp del]

definition see_content ::
  "(bool \<times> request \<times> buffer \<times> 'w) outcome \<Rightarrow> (bool \<times> request \<times> string \<times> 'w) outcome" where
  "see_content res = and_then res (\<lambda>(ok, r, b, w). Inr (ok, r, content b, w))"

lemma parse_loop_refines:
  assumes "buf_inv b"
  shows "see_content (parse_loop rx my b r w) = parse_text rx my (content b) r w
         \<and> (\<forall>ok r' b' w'. parse_loop rx my b r w = Inr (ok, r', b', w') \<longrightarrow> buf_inv b')"
  using assms
proof (induction rx my b r w rule: parse_loop.induct)
  case (1 rx my b r w)
  let ?s = "content b"
  note inv = "1.prems"
  note unfold = parse_loop.simps [of rx my b r w] parse_text.simps [of rx my ?s r w]
  have rd: "readable_bytes b = length ?s"
    using inv by (rule readable_bytes_content)
  note ts = to_string_content [OF inv]
  show ?case
  proof (cases "?s = [] \<or> req_state r = FINISH")
    case True
    with inv rd show ?thesis
      by (auto simp: unfold see_content_def)
  next
    case False
    note live = False
    show ?thesis
    proof (cases "parse_line rx my (take (line_end ?s) ?s) (length ?s) r w")
      case (Inl e)
      with live rd ts show ?thesis
        by (simp add: unfold see_content_def)
    next
      case (Inr res)
      obtain go_on r1 w1 where res: "res = (go_on, r1, w1)" by (cases res)
      show ?thesis
      proof (cases "go_on \<and> line_end ?s \<noteq> length ?s")
        case False
        with live rd ts Inr res inv show ?thesis
          by (auto simp: unfold see_content_def)
      next
        case True
        then have "line_end ?s + 2 \<le> length ?s"
          using line_end_hit by blast
        from retrieve_ok [OF inv this] obtain b1 where
          b1: "retrieve b (line_end ?s + 2) = Inr b1" "buf_inv b1"
            "content b1 = drop (line_end ?s + 2) ?s" by blast
        then have ru: "retrieve_until b (read_pos b + line_end ?s + 2) = Inr b1"
          by (simp add: retrieve_until_def add.assoc)
        have "see_content (parse_loop rx my b1 r1 w1) = parse_text rx my (content b1) r1 w1
          \<and> (\<forall>ok r' b' w'. parse_loop rx my b1 r1 w1 = Inr (ok, r', b', w') \<longrightarrow> buf_inv b')"
          using "1.IH" [of ?s "(go_on, r1, w1)" go_on "(r1, w1)" r1 w1 b1] live rd ts Inr res True ru b1(2)
          by auto
        with live rd ts Inr res True ru b1(3) show ?thesis
          by (simp add: unfold)
      qed
    qed
  qed
qed

section \<open>Rendered requests\<close>

text \<open>
  A client's message: a request line, header lines \<open>key: value\<close>, an empty line, a body.
\<close>

definition render_header :: "string \<times> string \<Rightarrow> string" where
  "render_header kv = fst kv @ '': '' @ snd kv @ crlf"

definition render_request ::
  "string \<Rightarrow> string \<Rightarrow> string \<Rightarrow> (string \<times> string) list \<Rightarrow> string \<Rightarrow> string" where
  "render_request m p v hs body =
     m @ '' '' @ p @ '' HTTP/'' @ v @ crlf @ concat (map render_header hs) @ crlf @ body"

definition header_ok :: "string \<times> string \<Rightarrow> bool" where
  "header_ok kv \<longleftrightarrow> CHR '':'' \<notin> set (fst kv) \<and> no_crlf (fst kv @ '': '' @ snd kv)"

definition request_line_ok :: "string \<Rightarrow> string \<Rightarrow> string \<Rightarrow> bool" where
  "request_line_ok m p v \<longleftrightarrow>
     CHR '' '' \<notin> set m \<and> CHR '' '' \<notin> set p \<and> CHR '' '' \<notin> set v
     \<and> no_crlf (m @ '' '' @ p @ '' HTTP/'' @ v)"

definition put_header :: "string \<times> string \<Rightarrow> (string \<rightharpoonup> string) \<Rightarrow> (string \<rightharpoonup> string)" where
  "put_header kv m = m(fst kv \<mapsto> snd kv)"

text \<open>The request a message describes, before its body is looked at.\<close>

definition request_of ::
  "string \<Rightarrow> string \<Rightarrow> string \<Rightarrow> (string \<times> string) list \<Rightarrow> request \<Rightarrow> request" where
  "request_of m p v hs r =
     (parse_path (r\<lparr>req_method := m, req_path := p, req_version := v\<rparr>))
       \<lparr>req_header := fold put_header hs (req_header r)\<rparr>"

lemma parse_text_line:
  assumes "no_crlf l" "req_state r \<noteq> FINISH"
  shows "parse_text rx my (l @ crlf @ rest) r w =
           (case parse_line rx my l (length l + 2 + length rest) r w of
              Inl e \<Rightarrow> Inl e
            | Inr (go_on, r1, w1) \<Rightarrow>
                if go_on then parse_text rx my rest r1 w1
                else Inr (False, r1, l @ crlf @ rest, w1))"
proof -
  have le: "line_end (l @ crlf @ rest) = length l"
    using line_end_append [OF assms(1), of rest] by (simp add: crlf_def)
  show ?thesis
    using assms(2) le
    by (subst parse_text.simps) (auto simp: crlf_def split: sum.split)
qed

context boost_regex
begin

lemma parse_text_header:
  assumes "header_ok kv" "req_state r = HEADERS" "rest \<noteq> []"
  shows "parse_text rx my (render_header kv @ rest) r w =
         parse_text rx my rest (r\<lparr>req_header := put_header kv (req_header r)\<rparr>) w"
proof -
  obtain k v where kv: "kv = (k, v)" by (cases kv)
  have "parse_header rx (k @ '':'' @ '' '' @ v) r = r\<lparr>req_header := (req_header r)(k \<mapsto> v)\<rparr>"
    using assms(1) parse_header_match [of k "'' '' @ v" r] by (simp add: kv header_ok_def drop_blank_def)
  then have "parse_line rx my (k @ '': '' @ v) (length (k @ '': '' @ v) + 2 + length rest) r w
             = Inr (True, r\<lparr>req_header := (req_header r)(k \<mapsto> v)\<rparr>, w)"
    using assms(2) by (simp add: parse_line_def)
  with assms parse_text_line [of "k @ '': '' @ v" r rx my rest w] show ?thesis
    by (simp add: kv render_header_def header_ok_def put_header_def)
qed

lemma parse_text_headers:
  assumes "\<forall>kv \<in> set hs. header_ok kv" "req_state r = HEADERS" "rest \<noteq> []"
  shows "parse_text rx my (concat (map render_header hs) @ rest) r w =
         parse_text rx my rest (r\<lparr>req_header := fold put_header hs (req_header r)\<rparr>) w"
  using assms
proof (induction hs arbitrary: r)
  case (Cons kv hs)
  then have "concat (map render_header hs) @ rest \<noteq> []" by simp
  with Cons.prems parse_text_header [of kv r "concat (map render_header hs) @ rest" my w]
    Cons.IH [of "r\<lparr>req_header := put_header kv (req_header r)\<rparr>"]
  show ?case by simp
qed simp

lemma parse_text_end_of_headers:
  assumes "req_state r = HEADERS"
  shows "parse_text rx my (crlf @ body) r w =
         parse_text rx my body (r\<lparr>req_state := (if body = [] then FINISH else BODY)\<rparr>) w"
proof -
  have "parse_header rx [] r = r\<lparr>req_state := BODY\<rparr>"
    by (rule parse_header_end) simp
  then have "parse_line rx my [] (2 + length body) r w
             = Inr (True, r\<lparr>req_state := (if body = [] then FINISH else BODY)\<rparr>, w)"
    using assms by (cases body) (simp_all add: parse_line_def)
  with assms parse_text_line [of "[]" r rx my body w] show ?thesis
    by (simp add: no_crlf_def)
qed

text \<open>Everything up to the body: a well-formed head leaves the parser at the body.\<close>

lemma parse_text_head:
  assumes "request_line_ok m p v" "\<forall>kv \<in> set hs. header_ok kv" "req_state r = REQUEST_LINE"
  shows "parse_text rx my (render_request m p v hs body) r w =
         parse_text rx my body
           ((request_of m p v hs r)\<lparr>req_state := (if body = [] then FINISH else BODY)\<rparr>) w"
proof -
  let ?l = "m @ '' '' @ p @ '' HTTP/'' @ v"
  let ?tail = "concat (map render_header hs) @ crlf @ body"
  let ?r1 = "parse_path (r\<lparr>req_method := m, req_path := p, req_version := v, req_state := HEADERS\<rparr>)"
  have split: "render_request m p v hs body = ?l @ crlf @ ?tail"
    by (simp add: render_request_def)
  have "parse_line rx my ?l (length ?l + 2 + length ?tail) r w = Inr (True, ?r1, w)"
    using assms(1,3) parse_request_line_match [of m p v r]
    by (simp add: parse_line_def request_line_ok_def)
  then have "parse_text rx my (render_request m p v hs body) r w = parse_text rx my ?tail ?r1 w"
    unfolding split using assms(1,3)
    by (subst parse_text_line) (simp_all add: request_line_ok_def)
  also have "\<dots> = parse_text rx my (crlf @ body)
                   (?r1\<lparr>req_header := fold put_header hs (req_header ?r1)\<rparr>) w"
    by (rule parse_text_headers) (use assms(2) in \<open>simp_all add: crlf_def parse_path_def\<close>)
  also have "\<dots> = parse_text rx my body
      ((?r1\<lparr>req_header := fold put_header hs (req_header ?r1)\<rparr>)
         \<lparr>req_state := (if body = [] then FINISH else BODY)\<rparr>) w"
    by (rule parse_text_end_of_headers) (simp add: parse_path_def)
  also have "(?r1\<lparr>req_header := fold put_header hs (req_header ?r1)\<rparr>)
               \<lparr>req_state := (if body = [] then FINISH else BODY)\<rparr>
             = (request_of m p v hs r)\<lparr>req_state := (if body = [] then FINISH else BODY)\<rparr>"
    by (simp add: request_of_def parse_path_def)
  finally show ?thesis .
qed

text \<open>A message without a body is consumed completely.\<close>

lemma parse_text_no_body:
  assumes "request_line_ok m p v" "\<forall>kv \<in> set hs. header_ok kv" "req_state r = REQUEST_LINE"
  shows "parse_text rx my (render_request m p v hs []) r w =
         Inr (True, (request_of m p v hs r)\<lparr>req_state := FINISH\<rparr>, [], w)"
  using parse_text_head [OF assms, of my "[]" w] by (simp add: parse_text.simps)

text \<open>A body without CR LF is parsed as one line and stays in the buffer.\<close>

lemma parse_text_body:
  assumes "request_line_ok m p v" "\<forall>kv \<in> set hs. header_ok kv" "req_state r = REQUEST_LINE"
    and "no_crlf body" "body \<noteq> []"
  shows "parse_text rx my (render_request m p v hs body) r w =
         and_then (parse_body my body ((request_of m p v hs r)\<lparr>req_state := BODY\<rparr>) w)
           (\<lambda>(r1, w1). Inr (True, r1, body, w1))"
  using parse_text_head [OF assms(1-3), of my body w] assms(4,5)
  by (simp add: parse_text.simps [of rx my body] parse_line_def no_crlf_def
      and_then_def case_prod_beta split: sum.split)

end

section \<open>Form data\<close>

text \<open>The reference decoder for a form without percent escapes: split, then undo the plus signs.\<close>

definition unplus :: "char \<Rightarrow> char" where
  "unplus c = (if c = CHR ''+'' then CHR '' '' else c)"

definition enplus :: "char \<Rightarrow> char" where
  "enplus c = (if c = CHR '' '' then CHR ''+'' else c)"

definition form_plain :: "string \<Rightarrow> bool" where
  "form_plain s \<longleftrightarrow> CHR ''='' \<notin> set s \<and> CHR ''%'' \<notin> set s \<and> CHR ''&'' \<notin> set s"

fun render_form :: "(string \<times> string) list \<Rightarrow> string" where
  "render_form [] = []"
| "render_form [(k, v)] = k @ ''='' @ v"
| "render_form ((k, v) # kvs) = k @ ''='' @ v @ ''&'' @ render_form kvs"

lemma form_step:
  assumes "i \<le> int_max" "i < length (fs_body st)"
  shows "form_loop i st =
           (case form_char i st of Inl e \<Rightarrow> Inl e | Inr (i', st') \<Rightarrow> form_loop (i' + 1) st')"
  using assms by (subst form_loop.simps) simp

lemma form_scan:
  assumes "fs_body st = pre @ x @ rest" "form_plain x" "length (fs_body st) \<le> int_max"
  shows "form_loop (length pre) st =
         form_loop (length pre + length x) (st\<lparr>fs_body := pre @ map unplus x @ rest\<rparr>)"
  using assms
proof (induction x arbitrary: pre st)
  case Nil
  then have "st\<lparr>fs_body := pre @ rest\<rparr> = st"
    by (cases st) simp
  then show ?case by simp
next
  case (Cons c x)
  let ?st1 = "st\<lparr>fs_body := (pre @ [unplus c]) @ x @ rest\<rparr>"
  have at: "fs_body st ! length pre = c"
    using Cons.prems(1) by simp
  have "form_char (length pre) st = Inr (length pre, ?st1)"
    using Cons.prems(1,2) by (auto simp: form_char_def at form_plain_def unplus_def Let_def)
  then have "form_loop (length pre) st = form_loop (length (pre @ [unplus c])) ?st1"
    using Cons.prems(1,3) by (simp add: form_step)
  also have "\<dots> = form_loop (length (pre @ [unplus c]) + length x)
      (?st1\<lparr>fs_body := (pre @ [unplus c]) @ map unplus x @ rest\<rparr>)"
    by (rule Cons.IH) (use Cons.prems in \<open>auto simp: form_plain_def\<close>)
  finally show ?case by simp
qed

text \<open>One field up to its equals sign, then up to the ampersand or the end.\<close>

lemma form_key:
  assumes "fs_body st = pre @ k @ ''='' @ rest" "fs_j st = length pre" "form_plain k"
    "length (fs_body st) \<le> int_max"
  shows "form_loop (length pre) st =
         form_loop (length pre + length k + 1)
           (st\<lparr>fs_body := pre @ map unplus k @ ''='' @ rest, fs_key := map unplus k,
               fs_j := length pre + length k + 1\<rparr>)"
proof -
  let ?st = "st\<lparr>fs_body := pre @ map unplus k @ ''='' @ rest\<rparr>"
  have "form_char (length pre + length k) ?st =
        Inr (length pre + length k, ?st\<lparr>fs_key := map unplus k, fs_j := length pre + length k + 1\<rparr>)"
    using assms(2) by (simp add: form_char_def Let_def nth_append substr_def)
  then have "form_loop (length pre + length k) ?st = form_loop (length pre + length k + 1)
      (?st\<lparr>fs_key := map unplus k, fs_j := length pre + length k + 1\<rparr>)"
    using assms(1,4) by (simp add: form_step)
  then show ?thesis
    using form_scan [of st pre k "''='' @ rest"] assms by simp
qed

lemma form_value:
  assumes "fs_body st = pre @ v @ ''&'' @ rest" "fs_j st = length pre" "form_plain v"
    "length (fs_body st) \<le> int_max"
  shows "form_loop (length pre) st =
         form_loop (length pre + length v + 1)
           (st\<lparr>fs_body := pre @ map unplus v @ ''&'' @ rest,
               fs_post := (fs_post st)(fs_key st \<mapsto> map unplus v),
               fs_j := length pre + length v + 1\<rparr>)"
proof -
  let ?st = "st\<lparr>fs_body := pre @ map unplus v @ ''&'' @ rest\<rparr>"
  have "form_char (length pre + length v) ?st =
        Inr (length pre + length v, ?st\<lparr>fs_post := (fs_post st)(fs_key st \<mapsto> map unplus v),
                                        fs_j := length pre + length v + 1\<rparr>)"
    using assms(2) by (simp add: form_char_def Let_def nth_append substr_def)
  then have "form_loop (length pre + length v) ?st = form_loop (length pre + length v + 1)
      (?st\<lparr>fs_post := (fs_post st)(fs_key st \<mapsto> map unplus v), fs_j := length pre + length v + 1\<rparr>)"
    using assms(1,4) by (simp add: form_step)
  then show ?thesis
    using form_scan [of st pre v "''&'' @ rest"] assms by simp
qed

lemma form_last:
  assumes "fs_body st = pre @ v" "form_plain v" "length (fs_body st) \<le> int_max"
  shows "form_loop (length pre) st = Inr (length pre + length v, st\<lparr>fs_body := pre @ map unplus v\<rparr>)"
proof -
  have "form_loop (length pre) st
        = form_loop (length pre + length v) (st\<lparr>fs_body := pre @ map unplus v\<rparr>)"
    using form_scan [of st pre v "[]"] assms by simp
  also have "\<dots> = Inr (length pre + length v, st\<lparr>fs_body := pre @ map unplus v\<rparr>)"
    using assms by (subst form_loop.simps) simp
  finally show ?thesis .
qed

definition put_field :: "string \<times> string \<Rightarrow> (string \<rightharpoonup> string) \<Rightarrow> (string \<rightharpoonup> string)" where
  "put_field kv m = m(map unplus (fst kv) \<mapsto> map unplus (snd kv))"

lemma put_field_pair [simp]: "put_field (a, b) m = m(map unplus a \<mapsto> map unplus b)"
  by (simp add: put_field_def)

lemma render_form_nonempty: "kvs \<noteq> [] \<Longrightarrow> render_form kvs \<noteq> []"
  by (cases kvs rule: render_form.cases) auto

lemma form_loop_fields:
  assumes "fs_body st = pre @ render_form (kvs @ [(k, v)])" "fs_j st = length pre"
    "\<forall>kv \<in> set (kvs @ [(k, v)]). form_plain (fst kv) \<and> form_plain (snd kv)"
    "length (fs_body st) \<le> int_max"
  shows "\<exists>st' i. form_loop (length pre) st = Inr (i, st')
           \<and> fs_key st' = map unplus k \<and> fs_post st' = fold put_field kvs (fs_post st)
           \<and> fs_j st' \<le> i \<and> i = length (fs_body st') \<and> i = length (fs_body st)
           \<and> drop (fs_j st') (fs_body st') = map unplus v"
  using assms
proof (induction kvs arbitrary: pre st)
  case Nil
  let ?st1 = "st\<lparr>fs_body := pre @ map unplus k @ ''='' @ v, fs_key := map unplus k,
                 fs_j := length pre + length k + 1\<rparr>"
  have "form_loop (length pre) st = form_loop (length pre + length k + 1) ?st1"
    using Nil by (intro form_key) auto
  also have "\<dots> = form_loop (length (pre @ map unplus k @ ''='')) ?st1"
    by simp
  also have "\<dots> = Inr (length (pre @ map unplus k @ ''='') + length v,
                   ?st1\<lparr>fs_body := (pre @ map unplus k @ ''='') @ map unplus v\<rparr>)"
    by (rule form_last) (use Nil in auto)
  finally show ?case
    using Nil by simp
next
  case (Cons kv kvs)
  obtain a b where kv: "kv = (a, b)" by (cases kv)
  let ?rest = "render_form (kvs @ [(k, v)])"
  have split: "render_form ((kv # kvs) @ [(k, v)]) = a @ ''='' @ b @ ''&'' @ ?rest"
    by (cases "kvs @ [(k, v)]") (auto simp: kv)
  let ?st1 = "st\<lparr>fs_body := pre @ map unplus a @ ''='' @ b @ ''&'' @ ?rest, fs_key := map unplus a,
                 fs_j := length pre + length a + 1\<rparr>"
  let ?pre1 = "pre @ map unplus a @ ''=''"
  let ?st2 = "?st1\<lparr>fs_body := ?pre1 @ map unplus b @ ''&'' @ ?rest,
                   fs_post := (fs_post st)(map unplus a \<mapsto> map unplus b),
                   fs_j := length ?pre1 + length b + 1\<rparr>"
  let ?pre2 = "?pre1 @ map unplus b @ ''&''"
  have "form_loop (length pre) st = form_loop (length pre + length a + 1) ?st1"
    using Cons.prems split by (intro form_key) (auto simp: kv)
  also have "\<dots> = form_loop (length ?pre1) ?st1"
    by simp
  also have "\<dots> = form_loop (length ?pre1 + length b + 1) ?st2"
    using Cons.prems split form_value [of ?st1 ?pre1 b ?rest] by (simp add: kv)
  also have "\<dots> = form_loop (length ?pre2) ?st2"
    by (simp add: add.assoc)
  finally have eq: "form_loop (length pre) st = form_loop (length ?pre2) ?st2" .
  have "\<exists>st' i. form_loop (length ?pre2) ?st2 = Inr (i, st')
           \<and> fs_key st' = map unplus k \<and> fs_post st' = fold put_field kvs (fs_post ?st2)
           \<and> fs_j st' \<le> i \<and> i = length (fs_body st') \<and> i = length (fs_body ?st2)
           \<and> drop (fs_j st') (fs_body st') = map unplus v"
    by (rule Cons.IH) (use Cons.prems split in \<open>auto simp: kv\<close>)
  with eq Cons.prems split show ?case
    by (auto simp: kv)
qed


text \<open>
  The decoded form. The last field is stored only when its key is new and its value not empty.
\<close>

lemma parse_form:
  assumes "req_body r = render_form (kvs @ [(k, v)])"
    "\<forall>kv \<in> set (kvs @ [(k, v)]). form_plain (fst kv) \<and> form_plain (snd kv)"
    "length (req_body r) \<le> int_max"
  shows "\<exists>r'. parse_from_urlencoded r = Inr r' \<and> req_post r' =
           (let m = fold put_field kvs (req_post r) in
            if m (map unplus k) = None \<and> v \<noteq> [] then put_field (k, v) m else m)
           \<and> r' = r\<lparr>req_body := req_body r', req_post := req_post r'\<rparr>"
proof -
  let ?st = "\<lparr>fs_body = req_body r, fs_j = 0, fs_key = [], fs_post = req_post r\<rparr>"
  have ne: "req_body r \<noteq> []"
    using assms(1) by (simp add: render_form_nonempty)
  from form_loop_fields [of ?st "[]" kvs k v] assms obtain st' i where
    st': "form_loop 0 ?st = Inr (i, st')" "fs_key st' = map unplus k"
      "fs_post st' = fold put_field kvs (req_post r)" "fs_j st' \<le> i" "i = length (fs_body st')"
      "drop (fs_j st') (fs_body st') = map unplus v"
    by auto
  have "fs_j st' < i \<longleftrightarrow> v \<noteq> []"
    using arg_cong [OF st'(6), of length] st'(4,5) by (cases v) auto
  moreover have "substr (fs_body st') (fs_j st') (i - fs_j st') = map unplus v"
    unfolding substr_def st'(6) using arg_cong [OF st'(6), of length] st'(5) by simp
  ultimately show ?thesis
    using ne st'
    by (auto simp: parse_from_urlencoded_def Let_def)
qed

lemma map_unplus_enplus: "CHR ''+'' \<notin> set s \<Longrightarrow> map unplus (map enplus s) = s"
  by (induction s) (auto simp: unplus_def enplus_def)

lemma form_plain_enplus: "form_plain s \<Longrightarrow> form_plain (map enplus s)"
  by (auto simp: form_plain_def enplus_def split: if_splits)

lemma fold_put_field_enplus:
  assumes "\<forall>kv \<in> set kvs. CHR ''+'' \<notin> set (fst kv) \<and> CHR ''+'' \<notin> set (snd kv)" "distinct (map fst kvs)"
  shows "fold put_field (map (map_prod (map enplus) (map enplus)) kvs) m = m ++ map_of kvs"
  using assms
proof (induction kvs arbitrary: m)
  case (Cons kv kvs)
  obtain k v where kv: "kv = (k, v)" by (cases kv)
  have "put_field (map enplus k, map enplus v) m = m(k \<mapsto> v)"
    using Cons.prems(1) by (simp add: kv map_unplus_enplus del: map_map)
  then have "fold put_field (map (map_prod (map enplus) (map enplus)) (kv # kvs)) m
             = m(k \<mapsto> v) ++ map_of kvs"
    using Cons by (simp add: kv)
  also have "\<dots> = m ++ map_of (kv # kvs)"
  proof -
    have "k \<notin> dom (map_of kvs)"
      using Cons.prems(2) by (simp add: kv dom_map_of_conv_image_fst)
    then show ?thesis
      by (simp add: kv map_add_upd_left)
  qed
  finally show ?case .
qed simp


text \<open>The decoder works in place and byte for byte: it never shortens the body.\<close>

lemma form_loop_length:
  "form_loop i st = Inr (n, st') \<Longrightarrow> length (fs_body st') = length (fs_body st)"
proof (induction i st rule: form_loop.induct)
  case (1 i st)
  show ?case
  proof (cases "int_max < i \<or> \<not> i < length (fs_body st)")
    case True
    with "1.prems" show ?thesis by (subst (asm) form_loop.simps) (auto split: if_splits)
  next
    case False
    with "1.prems" obtain i1 st1 where s: "form_char i st = Inr (i1, st1)" "form_loop (i1 + 1) st1 = Inr (n, st')"
      by (subst (asm) form_loop.simps) (auto split: sum.splits)
    from "1.IH" [of "(i1, st1)" i1 st1] s False form_char_length [OF s(1)] show ?thesis
      by simp
  qed
qed

section \<open>Checking a user\<close>

lemma verify_rows_last:
  assumes "\<forall>row \<in> set rows. 2 \<le> length row \<and> row ! 1 \<noteq> None" "rows \<noteq> []"
  shows "verify_rows is_login pwd rows flag = Inr (is_login \<and> last rows ! 1 = Some pwd)"
  using assms
proof (induction rows arbitrary: flag)
  case (Cons row rows)
  then obtain pw where pw: "row ! 1 = Some pw" by auto
  show ?case
  proof (cases "rows = []")
    case True
    with Cons.prems pw show ?thesis by auto
  next
    case False
    with Cons pw show ?thesis by simp
  qed
qed simp

lemma user_verify_body:
  assumes "name \<noteq> []" "pwd \<noteq> []" "conn_que p = h # hs" "verify_body my name pwd is_login d h = Inr (flag, d')"
  shows "\<exists>p'. user_verify my name pwd is_login (p, d) = Inr (flag, p', d') \<and> conn_que p' = hs @ [h]"
proof -
  from sql_pool.with_handle_rotates [of p h hs "verify_body my name pwd is_login d" "(flag, d')"] assms
  obtain p' where "with_handle get_conn free_conn (verify_body my name pwd is_login d) p = Inr ((flag, d'), p')"
    "conn_que p' = hs @ [h]" by auto
  with assms show ?thesis by (simp add: user_verify_def)
qed

text \<open>What the database answers to the query of \<open>userVerify\<close> on connection \<open>h\<close>.\<close>

definition db_answers ::
  "'d mysql_api \<Rightarrow> nat \<Rightarrow> string \<Rightarrow> 'd \<Rightarrow> string option list list \<Rightarrow> 'd \<Rightarrow> bool" where
  "db_answers my h name d rows d' \<longleftrightarrow>
     (\<exists>d1. mysql_query my h (select_order name) d = (False, d1)
          \<and> mysql_store_result my h d1 = (Some rows, d'))"

lemma login_body:
  assumes "db_answers my h name d rows d'" "\<forall>row \<in> set rows. 2 \<le> length row \<and> row ! 1 \<noteq> None"
  shows "verify_body my name pwd True d h = Inr (rows \<noteq> [] \<and> last rows ! 1 = Some pwd, d')"
  using assms verify_rows_last [OF assms(2), of True pwd False]
  by (cases "rows = []") (auto simp: verify_body_def db_answers_def)

lemma register_body:
  assumes "db_answers my h name d rows d'" "\<forall>row \<in> set rows. 2 \<le> length row \<and> row ! 1 \<noteq> None"
  shows "verify_body my name pwd False d h =
           (if rows = [] then Inr (True, snd (mysql_query my h (insert_order name pwd) d'))
            else Inr (False, d'))"
  using assms verify_rows_last [OF assms(2), of False pwd True]
  by (cases "rows = []") (auto simp: verify_body_def db_answers_def Let_def case_prod_beta)

section \<open>Properties of the parser\<close>

text \<open>
  Concrete inputs for the witnesses: a buffer that holds a string, and a database that gives
  the same rows to every query.
\<close>

definition buffer_of :: "string \<Rightarrow> buffer" where
  "buffer_of s = \<lparr>buf_data = s, read_pos = 0, write_pos = length s\<rparr>"

definition constant_db :: "bool \<Rightarrow> string option list list \<Rightarrow> unit mysql_api" where
  "constant_db insert_fails rows =
     \<lparr>mysql_query = (\<lambda>h q d. (insert_fails \<and> take 6 q = ''INSERT'', d)),
      mysql_store_result = (\<lambda>h d. (Some rows, d))\<rparr>"

definition one_conn :: sql_pool where
  "one_conn = \<lparr>conn_que = [7], max_conn_size = 1, closed_conns = []\<rparr>"

lemma content_buffer_of [simp]: "content (buffer_of s) = s"
  by (simp add: buffer_of_def content_def)

lemma buf_inv_buffer_of [simp]: "length s \<le> 1000000 \<Longrightarrow> buf_inv (buffer_of s)"
  by (simp add: buffer_of_def buf_inv_def vec_max_def)

lemma db_answers_constant:
  "db_answers (constant_db f rows) h name () rows ()"
  by (simp add: db_answers_def constant_db_def select_order_def)

lemma request_parse_text:
  assumes "buf_inv b" "content b \<noteq> []" "parse_text rx my (content b) r w = Inr (ok, r', rest, w')"
  shows "\<exists>b'. request_parse rx my r b w = Inr (ok, r', b', w') \<and> buf_inv b' \<and> content b' = rest"
proof -
  have nz: "readable_bytes b \<noteq> 0"
    using assms(1,2) by (simp add: readable_bytes_content)
  from parse_loop_refines [OF assms(1), of rx my r w] assms(3)
  have "see_content (parse_loop rx my b r w) = Inr (ok, r', rest, w')" by simp
  then obtain b' where b': "parse_loop rx my b r w = Inr (ok, r', b', w')" "content b' = rest"
    by (auto simp: see_content_def)
  with parse_loop_refines [OF assms(1), of rx my r w] nz show ?thesis
    by (auto simp: request_parse_def)
qed

lemma form_decodes:
  assumes "\<forall>kv \<in> set kvs. form_plain (fst kv) \<and> form_plain (snd kv)
             \<and> CHR ''+'' \<notin> set (fst kv) \<and> CHR ''+'' \<notin> set (snd kv)"
    and "distinct (map fst kvs)" "kvs \<noteq> []" "snd (last kvs) \<noteq> []"
    and "req_body r = render_form (map (map_prod (map enplus) (map enplus)) kvs)"
    and "length (req_body r) \<le> int_max" "req_post r = Map.empty"
  shows "\<exists>r'. parse_from_urlencoded r = Inr r' \<and> req_post r' = map_of kvs"
proof -
  let ?enc = "map_prod (map enplus) (map enplus)"
  obtain ini k v where kvs: "kvs = ini @ [(k, v)]"
    using assms(3) by (metis rev_exhaust surj_pair)
  note facts = assms [unfolded kvs]
  have body: "req_body r = render_form (map ?enc ini @ [(map enplus k, map enplus v)])"
    using facts(5) by simp
  have plain: "\<forall>kv \<in> set (map ?enc ini @ [(map enplus k, map enplus v)]). form_plain (fst kv) \<and> form_plain (snd kv)"
    using facts(1) by (auto intro!: form_plain_enplus)
  have last: "map unplus (map enplus k) = k" "map unplus (map enplus v) = v"
    using facts(1) by (simp_all add: map_unplus_enplus del: map_map)
  have nop: "\<forall>kv \<in> set ini. CHR ''+'' \<notin> set (fst kv) \<and> CHR ''+'' \<notin> set (snd kv)"
    using facts(1) by simp
  have dist: "distinct (map fst ini)" "map_of ini k = None"
    using facts(2) by (auto simp: map_of_eq_None_iff)
  have m: "fold put_field (map ?enc ini) (req_post r) = map_of ini"
    using fold_put_field_enplus [OF nop dist(1), of Map.empty] assms(7) by simp
  have "(map_of ini)(k \<mapsto> v) = map_of kvs"
    by (rule ext) (use dist(2) in \<open>auto simp: kvs map_add_def split: option.split\<close>)
  moreover have "map enplus v \<noteq> []"
    using facts(4) by simp
  ultimately show ?thesis
    using parse_form [OF body plain assms(6)] dist(2) unfolding m Let_def last put_field_def fst_conv snd_conv
    by auto
qed

lemma parse_from_urlencoded_frame:
  "parse_from_urlencoded r = Inr r' \<Longrightarrow> req_path r' = req_path r"
  by (auto simp: parse_from_urlencoded_def split: if_splits)

lemma parse_post_form:
  assumes "req_method r = ''POST''"
    and "req_header r ''Content-Type'' = Some ''application/x-www-form-urlencoded''"
  shows "parse_post my r w =
           and_then (parse_from_urlencoded r) (\<lambda>r2.
            case map_of DEFAULT_HTML_TAG (req_path r2) of
              None \<Rightarrow> Inr (r2, w)
            | Some tag \<Rightarrow>
                if tag = 0 \<or> tag = 1 then
                  let post = touch_key ''password'' (touch_key ''username'' (req_post r2));
                      r3 = r2\<lparr>req_post := post\<rparr>
                  in and_then
                       (user_verify my (the (post ''username'')) (the (post ''password'')) (tag = 1) w)
                       (\<lambda>(ok, w1).
                         Inr (r3\<lparr>req_path := (if ok then ''/welcome.html'' else ''/error.html'')\<rparr>, w1))
                else Inr (r2, w))"
proof -
  have "touch_key ''Content-Type'' (req_header r) = req_header r"
    by (simp add: touch_key_def assms(2))
  then have "r\<lparr>req_header := touch_key ''Content-Type'' (req_header r)\<rparr> = r"
    by simp
  then show ?thesis
    unfolding parse_post_def Let_def using assms by simp
qed

lemma render_request_nonempty: "render_request m p v hs body \<noteq> []"
  by (simp add: render_request_def)

text \<open>
  C18: the parser depends on the unread bytes only. For every buffer whose positions are in order,
  \<open>Request::parse\<close> gives the result of the string parser on its content, and leaves exactly
  the bytes that one leaves.
\<close>

theorem parse_refines_text:
  assumes "buf_inv b"
  shows "see_content (request_parse rx my r b w)
         = (if content b = [] then Inr (False, r, [], w) else parse_text rx my (content b) r w)"
  using parse_loop_refines [OF assms, of rx my r w] readable_bytes_content [OF assms]
  by (auto simp: request_parse_def see_content_def)

theorem parse_refines_text_witness:
  "buf_inv (buffer_of ''x'') \<and>
   see_content (request_parse perl_match (constant_db False []) request_init (buffer_of ''x'') (one_conn, ()))
   = parse_text perl_match (constant_db False []) ''x'' request_init (one_conn, ())"
  using parse_refines_text [of "buffer_of ''x''" perl_match "constant_db False []" request_init "(one_conn, ())"]
  by simp

text \<open>
  C19: a rendered request without a body is read back. For a method, path and version without
  blanks and header lines without colon in the key or CR LF, the parser returns true in state
  FINISH with these fields (the path normalised by \<open>parsePath\<close>), and consumes the whole message.
\<close>

theorem request_roundtrip:
  assumes "boost_regex rx" "buf_inv b" "content b = render_request m p v hs []"
    and "request_line_ok m p v" "\<forall>kv \<in> set hs. header_ok kv"
  shows "\<exists>b'. request_parse rx my request_init b w
                = Inr (True, (request_of m p v hs request_init)\<lparr>req_state := FINISH\<rparr>, b', w)
              \<and> buf_inv b' \<and> content b' = []"
  by (rule request_parse_text)
     (use assms boost_regex.parse_text_no_body [OF assms(1,4,5), of request_init my w]
      in \<open>simp_all add: request_init_def render_request_nonempty\<close>)

theorem request_roundtrip_witness:
  "\<exists>b'. request_parse perl_match (constant_db False []) request_init
          (buffer_of (render_request ''GET'' ''/index'' ''1.1'' [(''Connection'', ''keep-alive'')] []))
          (one_conn, ())
        = Inr (True, (request_of ''GET'' ''/index'' ''1.1'' [(''Connection'', ''keep-alive'')] request_init)
                 \<lparr>req_state := FINISH\<rparr>, b', (one_conn, ())) \<and> buf_inv b' \<and> content b' = []"
  by (rule request_roundtrip [OF perl.boost_regex_axioms])
     (simp_all add: request_line_ok_def header_ok_def render_request_def render_header_def crlf_def
        no_crlf_def)

text \<open>
  The body of a request stays in the read buffer. A well-formed head followed by a body
  without CR LF is parsed (the body is handed to \<open>parseBody\<close>) but the body bytes are not
  consumed: they are the first bytes of what the next call parses.
\<close>

theorem body_stays_in_buffer:
  assumes "boost_regex rx" "buf_inv b" "content b = render_request m p v hs body"
    and "request_line_ok m p v" "\<forall>kv \<in> set hs. header_ok kv"
    and "no_crlf body" "body \<noteq> []"
    and "request_parse rx my request_init b w = Inr (ok, r', b', w')"
  shows "ok \<and> content b' = body \<and> req_state r' = FINISH"
proof -
  have "see_content (request_parse rx my request_init b w)
        = and_then (parse_body my body ((request_of m p v hs request_init)\<lparr>req_state := BODY\<rparr>) w)
            (\<lambda>(r1, w1). Inr (True, r1, body, w1))"
    using parse_loop_refines [OF assms(2), of rx my request_init w] readable_bytes_content [OF assms(2)]
      boost_regex.parse_text_body [OF assms(1,4,5) _ assms(6,7), of request_init my w] assms(3)
    by (simp add: request_parse_def request_init_def render_request_nonempty)
  then have "and_then (parse_body my body ((request_of m p v hs request_init)\<lparr>req_state := BODY\<rparr>) w)
            (\<lambda>(r1, w1). Inr (True, r1, body, w1)) = Inr (ok, r', content b', w')"
    using assms(8) by (simp add: see_content_def)
  then show ?thesis
    by (auto simp: parse_body_def)
qed

theorem body_stays_in_buffer_witness:
  "\<exists>r' b' w'. request_parse perl_match (constant_db False []) request_init
       (buffer_of (render_request ''PUT'' ''/x'' ''1.1'' [] ''abc'')) (one_conn, ()) = Inr (True, r', b', w')
     \<and> content b' = ''abc''"
proof -
  let ?b = "buffer_of (render_request ''PUT'' ''/x'' ''1.1'' [] ''abc'')"
  let ?my = "constant_db False []" and ?w = "(one_conn, ())"
  have line: "request_line_ok ''PUT'' ''/x'' ''1.1''"
    by (simp add: request_line_ok_def no_crlf_def)
  have inv: "buf_inv ?b"
    by (simp add: render_request_def crlf_def)
  have "parse_text perl_match ?my (content ?b) request_init ?w
        = and_then (parse_body ?my ''abc'' ((request_of ''PUT'' ''/x'' ''1.1'' [] request_init)\<lparr>req_state := BODY\<rparr>) ?w)
            (\<lambda>(r1, w1). Inr (True, r1, ''abc'', w1))"
    using boost_regex.parse_text_body [OF perl.boost_regex_axioms line, of "[]" request_init "''abc''" ?my ?w]
    by (simp add: request_init_def no_crlf_def)
  also have "\<dots> = Inr (True, (request_of ''PUT'' ''/x'' ''1.1'' [] request_init)\<lparr>req_state := FINISH, req_body := ''abc''\<rparr>,
                     ''abc'', ?w)"
    by (simp add: parse_body_def parse_post_def request_of_def request_init_def parse_path_def DEFAULT_HTML_def)
  finally obtain b' where b': "request_parse perl_match ?my request_init ?b ?w
      = Inr (True, (request_of ''PUT'' ''/x'' ''1.1'' [] request_init)\<lparr>req_state := FINISH, req_body := ''abc''\<rparr>, b', ?w)"
    using request_parse_text [OF inv] by (fastforce simp: render_request_nonempty)
  have "content b' = ''abc''"
    using body_stays_in_buffer [OF perl.boost_regex_axioms inv content_buffer_of line _ _ _ b']
    by (simp add: no_crlf_def)
  with b' show ?thesis by blast
qed

text \<open>
  Form data round trip. For fields with distinct keys, whose characters are none of the form's
  special characters and whose last value is not empty, the decoder stores exactly the fields,
  blanks sent as plus signs included.
\<close>

theorem form_roundtrip:
  assumes "\<forall>kv \<in> set kvs. form_plain (fst kv) \<and> form_plain (snd kv)
             \<and> CHR ''+'' \<notin> set (fst kv) \<and> CHR ''+'' \<notin> set (snd kv)"
    and "distinct (map fst kvs)" "kvs \<noteq> []" "snd (last kvs) \<noteq> []"
    and "req_body r = render_form (map (map_prod (map enplus) (map enplus)) kvs)"
    and "length (req_body r) \<le> int_max" "req_post r = Map.empty"
  shows "\<exists>r'. parse_from_urlencoded r = Inr r' \<and> req_post r' = map_of kvs"
  using assms by (rule form_decodes)

theorem form_roundtrip_witness:
  "\<exists>r'. parse_from_urlencoded (request_init\<lparr>req_body := ''a=x+y&b=z''\<rparr>) = Inr r'
        \<and> req_post r' = [''a'' \<mapsto> ''x y'', ''b'' \<mapsto> ''z'']"
proof -
  have "\<exists>r'. parse_from_urlencoded (request_init\<lparr>req_body := ''a=x+y&b=z''\<rparr>) = Inr r'
        \<and> req_post r' = map_of [(''a'', ''x y''), (''b'', ''z'')]"
    by (rule form_roundtrip)
       (simp_all add: form_plain_def enplus_def int_max_def request_init_def)
  moreover have "map_of [(''a'', ''x y''), (''b'', ''z'')] = [''a'' \<mapsto> ''x y'', ''b'' \<mapsto> ''z'']"
    by (rule ext) simp
  ultimately show ?thesis by simp
qed

text \<open>
  Percent escapes are not decoded. The escape of \<open>A\<close> is turned into a percent sign and two
  other bytes, the first of which is not even a digit: \<open>convertHex\<close> returns the code of a decimal
  digit instead of its value, and the result is written back as two characters.
\<close>

theorem percent_escape_not_decoded:
  "\<exists>r'. parse_from_urlencoded (request_init\<lparr>req_body := ''a=%41''\<rparr>) = Inr r'
        \<and> req_post r' ''a'' = Some [CHR ''%'', CHR 0x88, CHR ''1'']"
  by (simp add: parse_from_urlencoded_def form_loop.simps form_char_def request_init_def int_max_def
      Let_def substr_def convert_hex_def schar_def to_schar_def)
     code_simp

text \<open>
  Logging in. With an idle connection and a database that answers the query, \<open>userVerify\<close>
  accepts exactly when the password column of the last row is the given password; no row means
  no. The connection goes back to the end of the pool.
\<close>

theorem login_decided_by_password:
  assumes "name \<noteq> []" "pwd \<noteq> []" "conn_que p = h # hs" "db_answers my h name d rows d'"
    and "\<forall>row \<in> set rows. 2 \<le> length row \<and> row ! 1 \<noteq> None"
  shows "\<exists>p'. user_verify my name pwd True (p, d)
                = Inr (rows \<noteq> [] \<and> last rows ! 1 = Some pwd, p', d') \<and> conn_que p' = hs @ [h]"
  by (rule user_verify_body [OF assms(1-3) login_body [OF assms(4,5)]])

theorem login_decided_by_password_witness:
  "\<exists>p'. user_verify (constant_db False [[Some ''bob'', Some ''pw'']]) ''bob'' ''pw'' True (one_conn, ())
        = Inr (True, p', ()) \<and> conn_que p' = [7]"
  using login_decided_by_password [of "''bob''" "''pw''" one_conn 7 "[]" _ "()" "[[Some ''bob'', Some ''pw'']]" "()",
      OF _ _ _ db_answers_constant]
  by (simp add: one_conn_def)

text \<open>
  Registering reports success whenever the name is free, whatever the \<open>INSERT\<close> returned: the
  assignment after the error branch overwrites the flag.
\<close>

theorem register_ignores_insert_error:
  assumes "name \<noteq> []" "pwd \<noteq> []" "conn_que p = h # hs" "db_answers my h name d [] d'"
    and "mysql_query my h (insert_order name pwd) d' = (True, d'')"
  shows "\<exists>p'. user_verify my name pwd False (p, d) = Inr (True, p', d'')"
  using user_verify_body [OF assms(1-3) register_body [OF assms(4), of pwd, simplified]] assms(5)
  by auto

theorem register_ignores_insert_error_witness:
  "\<exists>p'. user_verify (constant_db True []) ''bob'' ''pw'' False (one_conn, ()) = Inr (True, p', ())"
  by (rule register_ignores_insert_error [OF _ _ _ db_answers_constant])
     (simp_all add: one_conn_def constant_db_def insert_order_def)

text \<open>
  C17: the login page, end to end, for names and passwords without special characters. Take a \<open>POST\<close> to \<open>/login\<close>, sent
  as a form with the fields \<open>username\<close> and \<open>password\<close>, neither of them empty and both without equals signs, percent signs,
  ampersands, plus signs and carriage returns (blanks are allowed, the form has a plus sign for them), on a pool that has a free
  connection and a database that answers the query. It leads to \<open>/welcome.html\<close> if the password is the
  one in the last row that the database gives for this name, and to \<open>/error.html\<close> if it is not; the connection is back in the pool.
  A password that the browser sends with percent escapes is outside of this: the code compares it undecoded
  (\<open>percent_escape_not_decoded\<close>).
\<close>

theorem login_flow:
  assumes "boost_regex rx" "buf_inv b"
    and "content b = render_request ''POST'' ''/login'' v hs
           (render_form [(''username'', map enplus name), (''password'', map enplus pwd)])"
    and "request_line_ok ''POST'' ''/login'' v" "\<forall>kv \<in> set hs. header_ok kv"
    and "fold put_header hs Map.empty ''Content-Type'' = Some ''application/x-www-form-urlencoded''"
    and "name \<noteq> []" "form_plain name" "CHR ''+'' \<notin> set name" "cr \<notin> set name"
    and "pwd \<noteq> []" "form_plain pwd" "CHR ''+'' \<notin> set pwd" "cr \<notin> set pwd"
    and "length name + length pwd + 20 \<le> int_max"
    and "conn_que p = h # hs'" "db_answers my h name d rows d'"
    and "\<forall>row \<in> set rows. 2 \<le> length row \<and> row ! 1 \<noteq> None"
  shows "\<exists>r' b' p'. request_parse rx my request_init b (p, d) = Inr (True, r', b', p', d')
           \<and> req_path r' = (if rows \<noteq> [] \<and> last rows ! 1 = Some pwd
                           then ''/welcome.html'' else ''/error.html'')
           \<and> conn_que p' = hs' @ [h]"
proof -
  let ?kvs = "[(''username'', name), (''password'', pwd)]"
  let ?body = "render_form [(''username'', map enplus name), (''password'', map enplus pwd)]"
  let ?head = "(request_of ''POST'' ''/login'' v hs request_init)\<lparr>req_state := BODY\<rparr>"
  let ?r = "?head\<lparr>req_body := ?body\<rparr>"
  have head: "req_method ?r = ''POST''" "req_path ?r = ''/login.html''"
    "req_header ?r = fold put_header hs Map.empty" "req_post ?r = Map.empty" "req_body ?r = ?body"
    by (simp_all add: request_of_def request_init_def parse_path_def DEFAULT_HTML_def)
  have ct: "req_header ?r ''Content-Type'' = Some ''application/x-www-form-urlencoded''"
    using assms(6) by (simp only: head(3))
  have "\<exists>r2. parse_from_urlencoded ?r = Inr r2 \<and> req_post r2 = map_of ?kvs"
    by (rule form_decodes)
       (use assms(7-15) head(4) in \<open>simp_all add: form_plain_def enplus_def\<close>)
  then obtain r2 where r2: "parse_from_urlencoded ?r = Inr r2" "req_post r2 = map_of ?kvs"
    by blast
  then have path: "req_path r2 = ''/login.html''"
    using head(2) parse_from_urlencoded_frame by simp
  obtain p' where p': "user_verify my name pwd True (p, d)
      = Inr (rows \<noteq> [] \<and> last rows ! 1 = Some pwd, p', d')" "conn_que p' = hs' @ [h]"
    using user_verify_body [OF assms(7,11,16) login_body [OF assms(17,18)]] by blast
  let ?r3 = "r2\<lparr>req_path := (if rows \<noteq> [] \<and> last rows ! 1 = Some pwd
                           then ''/welcome.html'' else ''/error.html''), req_state := FINISH\<rparr>"
  have "touch_key ''password'' (touch_key ''username'' (req_post r2)) = req_post r2"
    by (simp add: r2(2) touch_key_def)
  with r2 path p' parse_post_form [OF head(1) ct, of my "(p, d)"]
  have "parse_body my ?body ?head (p, d) = Inr (?r3, p', d')"
    by (simp add: parse_body_def DEFAULT_HTML_TAG_def)
  moreover have "no_crlf ?body" "?body \<noteq> []"
    using assms(10,14) by (auto intro!: no_crlf_plain simp: enplus_def)
  ultimately have "parse_text rx my (content b) request_init (p, d) = Inr (True, ?r3, ?body, p', d')"
    using boost_regex.parse_text_body [OF assms(1,4,5), of request_init ?body my "(p, d)"] assms(3)
    by (simp add: request_init_def)
  from request_parse_text [OF assms(2) _ this] obtain b' where
    "request_parse rx my request_init b (p, d) = Inr (True, ?r3, b', p', d')"
    by (auto simp: assms(3) render_request_nonempty)
  then show ?thesis
    using p'(2) by auto
qed

theorem login_flow_witness:
  "\<exists>r' b' p'. request_parse perl_match (constant_db False [[Some ''bob'', Some ''pw'']]) request_init
      (buffer_of (render_request ''POST'' ''/login'' ''1.1''
         [(''Content-Type'', ''application/x-www-form-urlencoded'')] ''username=bob&password=pw'')) (one_conn, ())
    = Inr (True, r', b', p', ()) \<and> req_path r' = ''/welcome.html'' \<and> conn_que p' = [7]"
  using login_flow [OF perl.boost_regex_axioms _ content_buffer_of, of "''1.1''"
      "[(''Content-Type'', ''application/x-www-form-urlencoded'')]" "''bob''" "''pw''" one_conn 7 "[]"
      "constant_db False [[Some ''bob'', Some ''pw'']]" "()" "[[Some ''bob'', Some ''pw'']]" "()",
      OF _ _ _ _ _ _ _ _ _ _ _ _ _ _ db_answers_constant]
  by (simp add: request_line_ok_def header_ok_def render_request_def render_header_def crlf_def
        no_crlf_def put_header_def form_plain_def int_max_def one_conn_def enplus_def)

end
