(* ===== verification/Heap_Timer.thy ===== *)
theory Heap_Timer
  imports Zener_Prelude "HOL-Library.Multiset"
begin

text \<open>
  The binary-heap timer of \<open>src/task/timer/heaptimer.cpp\<close> and
  \<open>include/task/timer/heaptimer.h\<close> (class \<open>v0::Timer\<close>): a vector of nodes in heap order
  and the map \<open>_ref\<close> from timer ids to vector indices. The operations work on every extension
  of the record, so that the manager, which owns a \<open>Timer\<close>, extends it.
\<close>

section \<open>State\<close>

text \<open>
  A time point is a number of nanoseconds, as \<open>high_resolution_clock\<close> counts them; an empty
  \<open>std::function\<close> is \<open>None\<close>.
\<close>

record 'c timer_node =
  tn_id :: int
  tn_expires :: int
  tn_callback :: "'c option"

record 'c timer =
  tm_heap :: "'c timer_node list"
  tm_ref :: "int \<rightharpoonup> nat"

definition MS :: "int \<Rightarrow> int" where
  "MS n = n * 1000000"

definition empty_timer :: "'c timer" where
  "empty_timer = \<lparr>tm_heap = [], tm_ref = Map.empty\<rparr>"

definition node_less :: "'c timer_node \<Rightarrow> 'c timer_node \<Rightarrow> bool" where
  "node_less a b \<longleftrightarrow> tn_expires a < tn_expires b"

section \<open>Operations\<close>

definition swap_node :: "('c, 'z) timer_scheme \<Rightarrow> nat \<Rightarrow> nat \<Rightarrow> ('c, 'z) timer_scheme" where
  "swap_node t i j =
     (if length (tm_heap t) \<le> i \<or> length (tm_heap t) \<le> j then t
      else
        let h = (tm_heap t)[i := tm_heap t ! j, j := tm_heap t ! i] in
        t\<lparr>tm_heap := h, tm_ref := (tm_ref t)(tn_id (h ! i) \<mapsto> i, tn_id (h ! j) \<mapsto> j)\<rparr>)"

fun sift_up_loop :: "('c, 'z) timer_scheme \<Rightarrow> nat \<Rightarrow> ('c, 'z) timer_scheme" where
  "sift_up_loop t i =
     (if 0 < i then
        let j = (i - 1) div 2 in
        if length (tm_heap t) \<le> j then t
        else if node_less (tm_heap t ! j) (tm_heap t ! i) then t
        else sift_up_loop (swap_node t i j) j
      else t)"

declare sift_up_loop.simps [simp del]

definition sift_up :: "('c, 'z) timer_scheme \<Rightarrow> nat \<Rightarrow> ('c, 'z) timer_scheme" where
  "sift_up t i = (if length (tm_heap t) \<le> i then t else sift_up_loop t i)"

text \<open>The loop of \<open>siftDown\<close> gives the timer and the final value of \<open>i\<close>.\<close>

function sift_down_loop ::
  "('c, 'z) timer_scheme \<Rightarrow> nat \<Rightarrow> nat \<Rightarrow> ('c, 'z) timer_scheme \<times> nat" where
  "sift_down_loop t i n =
     (let j = i * 2 + 1 in
      if j < n then
        let j' = (if j + 1 < n \<and> node_less (tm_heap t ! (j + 1)) (tm_heap t ! j) then j + 1 else j) in
        if node_less (tm_heap t ! i) (tm_heap t ! j') then (t, i)
        else sift_down_loop (swap_node t i j') j' n
      else (t, i))"
  by pat_completeness auto
termination
  by (relation "measure (\<lambda>(t, i, n). n - i)") (auto split: if_splits)

declare sift_down_loop.simps [simp del]

definition sift_down ::
  "('c, 'z) timer_scheme \<Rightarrow> nat \<Rightarrow> nat \<Rightarrow> bool \<times> ('c, 'z) timer_scheme" where
  "sift_down t index n =
     (if length (tm_heap t) \<le> index \<or> length (tm_heap t) < n then (False, t)
      else let (t', i) = sift_down_loop t index n in (index < i, t'))"

text \<open>Re-establishing the order at one position: down, and up when nothing moved.\<close>

definition sift :: "('c, 'z) timer_scheme \<Rightarrow> nat \<Rightarrow> nat \<Rightarrow> ('c, 'z) timer_scheme" where
  "sift t i n = (let (moved, t1) = sift_down t i n in if moved then t1 else sift_up t1 i)"

definition push_node ::
  "int \<Rightarrow> int \<Rightarrow> int \<Rightarrow> 'c option \<Rightarrow> ('c, 'z) timer_scheme \<Rightarrow> ('c, 'z) timer_scheme" where
  "push_node now i timeout cb t =
     t\<lparr>tm_ref := (tm_ref t)(i \<mapsto> length (tm_heap t)),
       tm_heap := tm_heap t @ [\<lparr>tn_id = i, tn_expires = now + MS timeout, tn_callback = cb\<rparr>]\<rparr>"

definition add_node ::
  "int \<Rightarrow> int \<Rightarrow> int \<Rightarrow> 'c option \<Rightarrow> ('c, 'z) timer_scheme \<Rightarrow> ('c, 'z) timer_scheme outcome" where
  "add_node now ident timeout cb t =
     cpp_assert (0 \<le> ident)
       (Inr (case tm_ref t ident of
          None \<Rightarrow> sift_up (push_node now ident timeout cb t) (length (tm_heap t))
        | Some i \<Rightarrow>
            if length (tm_heap t) \<le> i then
              let t1 = push_node now ident timeout cb (t\<lparr>tm_ref := (tm_ref t)(ident := None)\<rparr>)
              in sift_up t1 (length (tm_heap t1) - 1)
            else
              let t1 = t\<lparr>tm_heap := (tm_heap t)[i := (tm_heap t ! i)
                           \<lparr>tn_expires := now + MS timeout, tn_callback := cb\<rparr>]\<rparr>
              in sift t1 i (length (tm_heap t1))))"

definition del_at :: "nat \<Rightarrow> ('c, 'z) timer_scheme \<Rightarrow> ('c, 'z) timer_scheme" where
  "del_at i t =
     (if tm_heap t = [] \<or> length (tm_heap t) \<le> i then t
      else
        let n = length (tm_heap t) - 1;
            node_id = tn_id (tm_heap t ! i);
            t1 = (if i < n then sift (swap_node t i n) i n else t)
        in t1\<lparr>tm_ref := (tm_ref t1)(node_id := None), tm_heap := butlast (tm_heap t1)\<rparr>)"

definition pop_timer :: "('c, 'z) timer_scheme \<Rightarrow> ('c, 'z) timer_scheme" where
  "pop_timer t = (if tm_heap t = [] then t else del_at 0 t)"

definition clear_timer :: "('c, 'z) timer_scheme \<Rightarrow> ('c, 'z) timer_scheme" where
  "clear_timer t = t\<lparr>tm_ref := Map.empty, tm_heap := []\<rparr>"

text \<open>\<open>Adjust\<close> moves the node down only.\<close>

definition adjust :: "int \<Rightarrow> int \<Rightarrow> int \<Rightarrow> ('c, 'z) timer_scheme \<Rightarrow> ('c, 'z) timer_scheme outcome" where
  "adjust now ident timeout t =
     (case tm_ref t ident of
        None \<Rightarrow> Inl Assertion_Failed
      | Some i \<Rightarrow>
          if tm_heap t = [] then Inl Assertion_Failed
          else if length (tm_heap t) \<le> i then Inl Undefined_Behaviour
          else
            let t1 = t\<lparr>tm_heap := (tm_heap t)[i := (tm_heap t ! i)\<lparr>tn_expires := now + MS timeout\<rparr>]\<rparr>
            in Inr (snd (sift_down t1 i (length (tm_heap t1)))))"

text \<open>
  Running a callback is the environment: \<open>run\<close> gives the state that the callback leaves and, for \<open>doWork\<close>, how it
  ends. \<open>doWork\<close> catches what derives from \<open>std::exception\<close>; any other exception leaves it, after the node is gone.
  The result tells the caller how \<open>doWork\<close> ends.
\<close>

datatype call_end = Returned | Threw_std | Threw_other

definition do_work ::
  "('c \<Rightarrow> ('c, 'z) timer_scheme \<Rightarrow> call_end \<times> ('c, 'z) timer_scheme) \<Rightarrow> int \<Rightarrow>
   ('c, 'z) timer_scheme \<Rightarrow> call_end \<times> ('c, 'z) timer_scheme" where
  "do_work run ident t =
     (if tm_heap t = [] then (Returned, t)
      else case tm_ref t ident of
        None \<Rightarrow> (Returned, t)
      | Some i \<Rightarrow>
          if length (tm_heap t) \<le> i then (Returned, t\<lparr>tm_ref := (tm_ref t)(ident := None)\<rparr>)
          else
            let t1 = del_at i t in
            case tn_callback (tm_heap t ! i) of
              None \<Rightarrow> (Returned, t1)
            | Some c \<Rightarrow> (case run c t1 of (e, t2) \<Rightarrow> (if e = Threw_std then Returned else e, t2)))"

text \<open>
  \<open>duration_cast<MS>\<close> rounds towards zero. \<open>now p\<close> is the reading of the clock in round \<open>p\<close>
  of the loop of \<open>Tick\<close>, which ends after 100 rounds; \<open>run p\<close> is what callbacks do in that round. \<open>Tick\<close> catches every
  exception, so it makes no difference whether a callback returns or throws.
\<close>

definition ms_count :: "int \<Rightarrow> int" where
  "ms_count d = (if 0 \<le> d then d div 1000000 else - ((- d) div 1000000))"

function tick_loop ::
  "(nat \<Rightarrow> int) \<Rightarrow> (nat \<Rightarrow> 'c \<Rightarrow> ('c, 'z) timer_scheme \<Rightarrow> ('c, 'z) timer_scheme) \<Rightarrow> nat \<Rightarrow>
   ('c, 'z) timer_scheme \<Rightarrow> ('c, 'z) timer_scheme" where
  "tick_loop now run p t =
     (case tm_heap t of
        [] \<Rightarrow> t
      | node # _ \<Rightarrow>
          if 0 < ms_count (tn_expires node - now p) then t
          else
            let t1 = pop_timer t;
                t2 = (case tn_callback node of None \<Rightarrow> t1 | Some c \<Rightarrow> run p c t1)
            in if 100 \<le> p + 1 then t2 else tick_loop now run (p + 1) t2)"
  by pat_completeness auto
termination
  by (relation "measure (\<lambda>(now, run, p, t). 100 - p)") auto

declare tick_loop.simps [simp del]

definition tick ::
  "(nat \<Rightarrow> int) \<Rightarrow> (nat \<Rightarrow> 'c \<Rightarrow> ('c, 'z) timer_scheme \<Rightarrow> ('c, 'z) timer_scheme) \<Rightarrow>
   ('c, 'z) timer_scheme \<Rightarrow> ('c, 'z) timer_scheme" where
  "tick now run t = tick_loop now run 0 t"

text \<open>\<open>int res = ...count()\<close> keeps the low 32 bits.\<close>

definition to_int32 :: "int \<Rightarrow> int" where
  "to_int32 x = (x + 2 ^ 31) mod 2 ^ 32 - 2 ^ 31"

definition get_next_tick ::
  "(nat \<Rightarrow> int) \<Rightarrow> int \<Rightarrow> (nat \<Rightarrow> 'c \<Rightarrow> ('c, 'z) timer_scheme \<Rightarrow> ('c, 'z) timer_scheme) \<Rightarrow>
   ('c, 'z) timer_scheme \<Rightarrow> int \<times> ('c, 'z) timer_scheme" where
  "get_next_tick now now' run t =
     (let t1 = tick now run t in
      case tm_heap t1 of
        [] \<Rightarrow> (-1, t1)
      | node # _ \<Rightarrow>
          let res = to_int32 (ms_count (tn_expires node - now')) in
          (if res < 0 then 0 else res, t1))"

section \<open>Invariant\<close>

definition ref_ok :: "('c, 'z) timer_scheme \<Rightarrow> bool" where
  "ref_ok t \<longleftrightarrow> (\<forall>i k. tm_ref t i = Some k \<longleftrightarrow> k < length (tm_heap t) \<and> tn_id (tm_heap t ! k) = i)"

definition key :: "('c, 'z) timer_scheme \<Rightarrow> nat \<Rightarrow> int" where
  "key t k = tn_expires (tm_heap t ! k)"

definition ordered :: "(nat \<Rightarrow> int) \<Rightarrow> nat \<Rightarrow> bool" where
  "ordered e n \<longleftrightarrow> (\<forall>k. 0 < k \<and> k < n \<longrightarrow> e ((k - 1) div 2) \<le> e k)"

definition timer_inv :: "('c, 'z) timer_scheme \<Rightarrow> bool" where
  "timer_inv t \<longleftrightarrow> ref_ok t \<and> ordered (key t) (length (tm_heap t))"

subsection \<open>Swapping\<close>

lemma swap_node_heap:
  "i < length (tm_heap t) \<Longrightarrow> j < length (tm_heap t) \<Longrightarrow>
     tm_heap (swap_node t i j) = (tm_heap t)[i := tm_heap t ! j, j := tm_heap t ! i]"
  by (simp add: swap_node_def Let_def)

lemma swap_node_length [simp]: "length (tm_heap (swap_node t i j)) = length (tm_heap t)"
  by (simp add: swap_node_def Let_def)

lemma swap_node_mset [simp]: "mset (tm_heap (swap_node t i j)) = mset (tm_heap t)"
  by (simp add: swap_node_def Let_def mset_swap)

lemma swap_node_more [simp]: "timer.more (swap_node t i j) = timer.more t"
  by (simp add: swap_node_def Let_def)

lemma swap_node_nth:
  "i < length (tm_heap t) \<Longrightarrow> j < length (tm_heap t) \<Longrightarrow> k < length (tm_heap t) \<Longrightarrow>
     tm_heap (swap_node t i j) ! k
     = (if k = j then tm_heap t ! i else if k = i then tm_heap t ! j else tm_heap t ! k)"
  by (simp add: swap_node_heap list_update_swap_nth)

lemma key_swap:
  "i < length (tm_heap t) \<Longrightarrow> j < length (tm_heap t) \<Longrightarrow> k < length (tm_heap t) \<Longrightarrow>
     key (swap_node t i j) k = (if k = j then key t i else if k = i then key t j else key t k)"
  by (simp add: key_def swap_node_nth)

lemma ref_ok_distinct: "ref_ok t \<Longrightarrow> distinct (map tn_id (tm_heap t))"
  unfolding ref_ok_def distinct_conv_nth length_map by (metis nth_map option.inject)

lemma ref_okI:
  assumes "distinct (map tn_id (tm_heap t))"
    and "\<And>k. k < length (tm_heap t) \<Longrightarrow> tm_ref t (tn_id (tm_heap t ! k)) = Some k"
    and "\<And>i k. tm_ref t i = Some k \<Longrightarrow> i \<in> tn_id ` set (tm_heap t)"
  shows "ref_ok t"
  unfolding ref_ok_def
proof (intro allI iffI)
  fix i k
  assume r: "tm_ref t i = Some k"
  then obtain k' where "k' < length (tm_heap t)" "tn_id (tm_heap t ! k') = i"
    using assms(3) by (fastforce simp: in_set_conv_nth)
  with assms(2) [of k'] r show "k < length (tm_heap t) \<and> tn_id (tm_heap t ! k) = i"
    by simp
next
  fix i k
  assume "k < length (tm_heap t) \<and> tn_id (tm_heap t ! k) = i"
  with assms(2) [of k] show "tm_ref t i = Some k" by simp
qed

lemma ref_okD:
  assumes "ref_ok t"
  shows "k < length (tm_heap t) \<Longrightarrow> tm_ref t (tn_id (tm_heap t ! k)) = Some k"
    and "tm_ref t i = Some k \<Longrightarrow> k < length (tm_heap t) \<and> tn_id (tm_heap t ! k) = i"
    and "tm_ref t i = None \<longleftrightarrow> i \<notin> tn_id ` set (tm_heap t)"
proof -
  show *: "k < length (tm_heap t) \<Longrightarrow> tm_ref t (tn_id (tm_heap t ! k)) = Some k" for k
    using assms by (simp add: ref_ok_def)
  show **: "tm_ref t i = Some k \<Longrightarrow> k < length (tm_heap t) \<and> tn_id (tm_heap t ! k) = i" for i k
    using assms by (simp add: ref_ok_def)
  show "tm_ref t i = None \<longleftrightarrow> i \<notin> tn_id ` set (tm_heap t)"
    using * ** by (cases "tm_ref t i") (fastforce simp: in_set_conv_nth image_iff)+
qed

lemma swap_node_ref_ok:
  assumes "ref_ok t" shows "ref_ok (swap_node t i j)"
proof (cases "i < length (tm_heap t) \<and> j < length (tm_heap t)")
  case True
  let ?t = "swap_node t i j"
  have inj: "tn_id (tm_heap t ! a) = tn_id (tm_heap t ! b) \<longleftrightarrow> a = b"
    if "a < length (tm_heap t)" "b < length (tm_heap t)" for a b
    using ref_ok_distinct [OF assms] that by (metis distinct_conv_nth length_map nth_map)
  have ref: "tm_ref ?t = (tm_ref t)(tn_id (tm_heap ?t ! i) \<mapsto> i, tn_id (tm_heap ?t ! j) \<mapsto> j)"
    using True by (simp add: swap_node_def Let_def)
  have ms: "mset (tm_heap ?t) = mset (tm_heap t)" by simp
  show ?thesis
  proof (rule ref_okI)
    have "mset (map tn_id (tm_heap ?t)) = mset (map tn_id (tm_heap t))"
      using ms by (simp only: mset_map)
    then show "distinct (map tn_id (tm_heap ?t))"
      using ref_ok_distinct [OF assms] mset_eq_imp_distinct_iff by blast
  next
    fix k assume "k < length (tm_heap ?t)"
    then show "tm_ref ?t (tn_id (tm_heap ?t ! k)) = Some k"
      unfolding ref using True inj ref_okD(1) [OF assms] by (auto simp: swap_node_nth)
  next
    fix a k assume "tm_ref ?t a = Some k"
    then have "a \<in> tn_id ` set (tm_heap t)"
      unfolding ref using True ref_okD(3) [OF assms, of a] by (auto simp: swap_node_nth split: if_splits)
    then show "a \<in> tn_id ` set (tm_heap ?t)"
      using mset_eq_setD [OF ms] by simp
  qed
next
  case False
  then have "swap_node t i j = t"
    by (auto simp: swap_node_def)
  with assms show ?thesis by simp
qed

section \<open>Sifting\<close>

text \<open>
  What every sifting step keeps: the nodes as a multiset, the consistency of \<open>_ref\<close>, the rest of
  the record, and all positions outside a given set.
\<close>

definition rearranged :: "nat set \<Rightarrow> ('c, 'z) timer_scheme \<Rightarrow> ('c, 'z) timer_scheme \<Rightarrow> bool" where
  "rearranged S t t' \<longleftrightarrow> mset (tm_heap t') = mset (tm_heap t) \<and> timer.more t' = timer.more t
     \<and> (ref_ok t \<longrightarrow> ref_ok t') \<and> (\<forall>k < length (tm_heap t). k \<notin> S \<longrightarrow> tm_heap t' ! k = tm_heap t ! k)"

lemma rearranged_refl [simp, intro]: "rearranged S t t"
  by (simp add: rearranged_def)

lemma rearranged_length: "rearranged S t t' \<Longrightarrow> length (tm_heap t') = length (tm_heap t)"
  by (metis rearranged_def size_mset)

lemma rearranged_trans:
  "rearranged S t t1 \<Longrightarrow> rearranged S t1 t2 \<Longrightarrow> rearranged S t t2"
  using rearranged_length [of S t t1] by (auto simp: rearranged_def)

lemma rearranged_mono: "rearranged S t t' \<Longrightarrow> S \<subseteq> S' \<Longrightarrow> rearranged S' t t'"
  by (auto simp: rearranged_def)

lemma rearranged_swap:
  "i < length (tm_heap t) \<Longrightarrow> j < length (tm_heap t) \<Longrightarrow> i \<in> S \<Longrightarrow> j \<in> S \<Longrightarrow>
     rearranged S t (swap_node t i j)"
  by (auto simp: rearranged_def swap_node_ref_ok swap_node_nth)

text \<open>Order everywhere but between \<open>i\<close> and its parent; or but between \<open>i\<close> and its children.\<close>

definition up_ordered :: "(nat \<Rightarrow> int) \<Rightarrow> nat \<Rightarrow> nat \<Rightarrow> bool" where
  "up_ordered e n i \<longleftrightarrow> (\<forall>k. 0 < k \<and> k < n \<and> k \<noteq> i \<longrightarrow> e ((k - 1) div 2) \<le> e k)
     \<and> (\<forall>k. 0 < i \<and> 0 < k \<and> k < n \<and> (k - 1) div 2 = i \<longrightarrow> e ((i - 1) div 2) \<le> e k)"

definition down_ordered :: "(nat \<Rightarrow> int) \<Rightarrow> nat \<Rightarrow> nat \<Rightarrow> bool" where
  "down_ordered e n i \<longleftrightarrow> (\<forall>k. 0 < k \<and> k < n \<and> (k - 1) div 2 \<noteq> i \<longrightarrow> e ((k - 1) div 2) \<le> e k)
     \<and> (\<forall>k. 0 < i \<and> 0 < k \<and> k < n \<and> (k - 1) div 2 = i \<longrightarrow> e ((i - 1) div 2) \<le> e k)"

definition around_ordered :: "(nat \<Rightarrow> int) \<Rightarrow> nat \<Rightarrow> nat \<Rightarrow> bool" where
  "around_ordered e n i \<longleftrightarrow>
     (\<forall>k. 0 < k \<and> k < n \<and> k \<noteq> i \<and> (k - 1) div 2 \<noteq> i \<longrightarrow> e ((k - 1) div 2) \<le> e k)
     \<and> (\<forall>k. 0 < i \<and> 0 < k \<and> k < n \<and> (k - 1) div 2 = i \<longrightarrow> e ((i - 1) div 2) \<le> e k)"

lemma parent_less: "0 < k \<Longrightarrow> (k - 1) div 2 < (k::nat)"
  by simp

lemma up_ordered_done: "up_ordered e n i \<Longrightarrow> i = 0 \<or> e ((i - 1) div 2) \<le> e i \<Longrightarrow> ordered e n"
  by (auto simp: up_ordered_def ordered_def)

lemma up_ordered_step:
  assumes up: "up_ordered e n i" and i: "0 < i" "i < n" and le: "e i \<le> e ((i - 1) div 2)"
    and e': "\<And>k. k < n \<Longrightarrow> e' k = (if k = (i - 1) div 2 then e i else if k = i then e ((i - 1) div 2) else e k)"
  shows "up_ordered e' n ((i - 1) div 2)"
  unfolding up_ordered_def
proof (intro conjI allI impI; elim conjE)
  let ?p = "(i - 1) div 2"
  have pi: "?p < i" using i by simp
  fix k assume k: "0 < k" "k < n" "k \<noteq> ?p"
  have pk: "(k - 1) div 2 < n" using k by simp
  show "e' ((k - 1) div 2) \<le> e' k"
  proof (cases "k = i")
    case True
    with i le pi show ?thesis by (simp add: e')
  next
    case False
    then have "e ((k - 1) div 2) \<le> e k"
      using up k by (simp add: up_ordered_def)
    moreover have "e ?p \<le> e k" if "(k - 1) div 2 = i"
      using up k i that by (simp add: up_ordered_def)
    moreover have "e i \<le> e k" if "(k - 1) div 2 = ?p"
      using \<open>e ((k - 1) div 2) \<le> e k\<close> le that by simp
    ultimately show ?thesis
      using k pk False by (simp add: e')
  qed
next
  let ?p = "(i - 1) div 2"
  have pi: "?p < i" using i by simp
  fix k assume k: "0 < ?p" "0 < k" "k < n" "(k - 1) div 2 = ?p"
  have gp: "(?p - 1) div 2 < ?p" "(?p - 1) div 2 < n" using parent_less [OF k(1)] pi i by simp_all
  have p_le: "e ((?p - 1) div 2) \<le> e ?p"
    using up k(1) pi i by (simp add: up_ordered_def)
  have kp: "k \<noteq> ?p" using k by auto
  have "e ?p \<le> e k" if "k \<noteq> i"
    using up k that by (metis up_ordered_def)
  then show "e' ((?p - 1) div 2) \<le> e' k"
    using p_le gp kp k pi by (auto simp: e')
qed

lemma sift_up_loop_ok:
  assumes "i < length (tm_heap t)"
  shows "rearranged {..i} t (sift_up_loop t i)
    \<and> (up_ordered (key t) n i \<and> i < n \<and> n \<le> length (tm_heap t) \<longrightarrow> ordered (key (sift_up_loop t i)) n)"
  using assms
proof (induction t i rule: sift_up_loop.induct)
  case (1 t i)
  let ?p = "(i - 1) div 2"
  consider "i = 0" | "0 < i" "node_less (tm_heap t ! ?p) (tm_heap t ! i)"
    | "0 < i" "\<not> node_less (tm_heap t ! ?p) (tm_heap t ! i)" by blast
  then show ?case
  proof cases
    case 3
    have p: "?p < length (tm_heap t)" "?p < i" using 1(2) 3 by simp_all
    have eq: "sift_up_loop t i = sift_up_loop (swap_node t i ?p) ?p"
      using 3 p by (subst sift_up_loop.simps) (simp add: Let_def)
    have sw: "rearranged {..i} t (swap_node t i ?p)"
      using 1(2) p by (intro rearranged_swap) auto
    have IH: "rearranged {..?p} (swap_node t i ?p) (sift_up_loop (swap_node t i ?p) ?p)"
      "up_ordered (key (swap_node t i ?p)) n ?p \<and> ?p < n \<and> n \<le> length (tm_heap t) \<Longrightarrow>
         ordered (key (sift_up_loop (swap_node t i ?p) ?p)) n"
      using 1(1) [OF 3(1) refl] 3(2) p by simp_all
    have "rearranged {..i} t (sift_up_loop t i)"
      unfolding eq using sw rearranged_mono [OF IH(1), of "{..i}"] p by (auto intro: rearranged_trans)
    moreover have "ordered (key (sift_up_loop t i)) n"
      if "up_ordered (key t) n i" "i < n" "n \<le> length (tm_heap t)"
    proof -
      have "up_ordered (key (swap_node t i ?p)) n ?p"
        using that 3 1(2) p
        by (intro up_ordered_step [OF that(1)]) (auto simp: key_swap node_less_def key_def swap_node_nth)
      with IH(2) that p show ?thesis unfolding eq by simp
    qed
    ultimately show ?thesis by simp
  next
    case 2
    then have "sift_up_loop t i = t"
      by (subst sift_up_loop.simps) (simp add: Let_def)
    with 2 show ?thesis
      by (auto simp: node_less_def key_def intro: up_ordered_done)
  next
    case 1
    then have "sift_up_loop t i = t"
      by (subst sift_up_loop.simps) simp
    with 1 show ?thesis by (auto intro: up_ordered_done)
  qed
qed

lemma down_ordered_step:
  assumes down: "around_ordered e n i" and j: "(j - 1) div 2 = i" "0 < j" "j < n"
    and least: "\<And>k. 0 < k \<Longrightarrow> k < n \<Longrightarrow> (k - 1) div 2 = i \<Longrightarrow> e j \<le> e k" and le: "e j \<le> e i"
    and e': "\<And>k. k < n \<Longrightarrow> e' k = (if k = j then e i else if k = i then e j else e k)"
  shows "down_ordered e' n j"
  unfolding down_ordered_def
proof (intro conjI allI impI; elim conjE)
  have ij: "i < j" "i < n" using j parent_less [of j] by auto
  fix k assume k: "0 < k" "k < n" "(k - 1) div 2 \<noteq> j"
  have pk: "(k - 1) div 2 < n" "(k - 1) div 2 < k" using k parent_less [of k] by auto
  consider "k = j" | "k = i" | "k \<noteq> i" "k \<noteq> j" "(k - 1) div 2 = i"
    | "k \<noteq> i" "k \<noteq> j" "(k - 1) div 2 \<noteq> i" by blast
  then show "e' ((k - 1) div 2) \<le> e' k"
  proof cases
    case 1
    then show ?thesis using j ij le by (simp add: e')
  next
    case 2
    then have "e ((i - 1) div 2) \<le> e j"
      using down j k by (simp add: around_ordered_def)
    then show ?thesis using 2 k pk ij j by (simp add: e')
  next
    case 3
    then show ?thesis using least k pk ij j by (simp add: e')
  next
    case 4
    then have "e ((k - 1) div 2) \<le> e k"
      using down k by (simp add: around_ordered_def)
    then show ?thesis using 4 k pk by (simp add: e')
  qed
next
  have ij: "i < j" "i < n" using j parent_less [of j] by auto
  fix k assume k: "0 < j" "0 < k" "k < n" "(k - 1) div 2 = j"
  then have "k \<noteq> j" "k \<noteq> i" "(k - 1) div 2 \<noteq> i"
    using parent_less [of k] ij by auto
  then have "e j \<le> e k"
    using down k by (auto simp: around_ordered_def)
  then show "e' ((j - 1) div 2) \<le> e' k"
    using \<open>k \<noteq> j\<close> \<open>k \<noteq> i\<close> k ij j by (simp add: e')
qed

lemma down_around: "down_ordered e n i \<Longrightarrow> around_ordered e n i"
  by (auto simp: down_ordered_def around_ordered_def)

lemma up_around: "up_ordered e n i \<Longrightarrow> around_ordered e n i"
  by (auto simp: up_ordered_def around_ordered_def)

lemma child_cases: "0 < k \<Longrightarrow> (k - 1) div 2 = i \<longleftrightarrow> k = i * 2 + 1 \<or> k = i * 2 + (2::nat)"
  by auto

lemma down_ordered_done:
  assumes "down_ordered e n i" "\<And>k. 0 < k \<Longrightarrow> k < n \<Longrightarrow> (k - 1) div 2 = i \<Longrightarrow> e i \<le> e k"
  shows "ordered e n"
  using assms unfolding down_ordered_def ordered_def by metis

lemma around_ordered_done:
  assumes "around_ordered e n i" "\<And>k. 0 < k \<Longrightarrow> k < n \<Longrightarrow> (k - 1) div 2 = i \<Longrightarrow> e i \<le> e k"
  shows "up_ordered e n i"
  using assms unfolding up_ordered_def around_ordered_def by metis

lemma node_less_key: "node_less (tm_heap t ! a) (tm_heap t ! b) \<longleftrightarrow> key t a < key t b"
  by (simp add: node_less_def key_def)

text \<open>The child the loop compares with, when there is one, is the least.\<close>

definition least_child :: "('c, 'z) timer_scheme \<Rightarrow> nat \<Rightarrow> nat \<Rightarrow> nat" where
  "least_child t i n =
     (if i * 2 + 1 + 1 < n \<and> node_less (tm_heap t ! (i * 2 + 1 + 1)) (tm_heap t ! (i * 2 + 1))
      then i * 2 + 1 + 1 else i * 2 + 1)"

lemma least_child:
  assumes "i * 2 + 1 < n"
  shows "least_child t i n < n" "0 < least_child t i n" "(least_child t i n - 1) div 2 = i"
    "i < least_child t i n"
    "0 < k \<Longrightarrow> k < n \<Longrightarrow> (k - 1) div 2 = i \<Longrightarrow> key t (least_child t i n) \<le> key t k"
  using assms by (auto simp: least_child_def child_cases node_less_def key_def simp del: One_nat_def)

lemma sift_down_loop_unfold:
  "sift_down_loop t i n =
     (if i * 2 + 1 < n then
        if node_less (tm_heap t ! i) (tm_heap t ! least_child t i n) then (t, i)
        else sift_down_loop (swap_node t i (least_child t i n)) (least_child t i n) n
      else (t, i))"
  by (subst sift_down_loop.simps) (simp add: Let_def least_child_def)

lemma sift_down_loop_frame:
  assumes "n \<le> length (tm_heap t)" "sift_down_loop t i n = (t', i')"
  shows "rearranged {i..<n} t t' \<and> i \<le> i'"
  using assms
proof (induction t i n arbitrary: t' i' rule: sift_down_loop.induct)
  case (1 t i n)
  let ?j = "least_child t i n"
  show ?case
  proof (cases "i * 2 + 1 < n \<and> \<not> node_less (tm_heap t ! i) (tm_heap t ! ?j)")
    case True
    note j = least_child [where i = i and n = n and t = t]
    have "sift_down_loop (swap_node t i ?j) ?j n = (t', i')"
      using 1(3) True by (subst (asm) sift_down_loop_unfold) simp
    with 1(1) [OF refl _ refl] True 1(2)
    have rest: "rearranged {?j..<n} (swap_node t i ?j) t'" "?j \<le> i'"
      by (simp_all add: least_child_def)
    have "rearranged {i..<n} t (swap_node t i ?j)"
      using True j 1(2) by (intro rearranged_swap) auto
    moreover have "rearranged {i..<n} (swap_node t i ?j) t'"
      using rest(1) j(4) True by (auto intro: rearranged_mono)
    ultimately show ?thesis
      using rest(2) j(4) True by (auto intro: rearranged_trans)
  next
    case False
    with 1(3) show ?thesis
      by (subst (asm) sift_down_loop_unfold) (auto split: if_splits)
  qed
qed

lemma sift_down_loop_ordered:
  assumes "n \<le> length (tm_heap t)" "sift_down_loop t i n = (t', i')" "down_ordered (key t) n i"
  shows "ordered (key t') n"
  using assms
proof (induction t i n arbitrary: t' i' rule: sift_down_loop.induct)
  case (1 t i n)
  let ?j = "least_child t i n"
  consider "n \<le> i * 2 + 1" | "i * 2 + 1 < n" "node_less (tm_heap t ! i) (tm_heap t ! ?j)"
    | "i * 2 + 1 < n" "\<not> node_less (tm_heap t ! i) (tm_heap t ! ?j)" by linarith
  then show ?case
  proof cases
    case 1
    with 1(1) \<open>sift_down_loop t i n = (t', i')\<close> have "t' = t"
      by (subst (asm) sift_down_loop_unfold) simp
    moreover have False if "0 < k" "k < n" "(k - 1) div 2 = i" for k
      using that \<open>n \<le> i * 2 + 1\<close> by (auto simp: child_cases)
    ultimately show ?thesis
      using \<open>down_ordered (key t) n i\<close> by (blast intro: down_ordered_done)
  next
    case 2
    have "t' = t"
      using 2 \<open>sift_down_loop t i n = (t', i')\<close> by (subst (asm) sift_down_loop_unfold) simp
    moreover have "key t i \<le> key t k" if "0 < k" "k < n" "(k - 1) div 2 = i" for k
      using 2 least_child(5) [OF 2(1) that, where t = t] by (auto simp: node_less_def key_def)
    ultimately show ?thesis
      using \<open>down_ordered (key t) n i\<close> by (blast intro: down_ordered_done)
  next
    case 3
    note j = least_child [OF 3(1), where t = t]
    have rest: "sift_down_loop (swap_node t i ?j) ?j n = (t', i')"
      using 3 \<open>sift_down_loop t i n = (t', i')\<close> by (subst (asm) sift_down_loop_unfold) simp
    have "down_ordered (key (swap_node t i ?j)) n ?j"
      using 3 j \<open>n \<le> length (tm_heap t)\<close> \<open>down_ordered (key t) n i\<close>
      by (intro down_ordered_step [of "key t" n i]) (auto simp: key_swap down_around node_less_key)
    with 1(1) [OF refl _ refl, of t' i'] 3 rest \<open>n \<le> length (tm_heap t)\<close> show ?thesis
      by (simp add: least_child_def)
  qed
qed


lemma sift_ok:
  assumes "i < n" "n \<le> length (tm_heap t)"
  shows "rearranged {..<n} t (sift t i n)
    \<and> (around_ordered (key t) n i \<longrightarrow> ordered (key (sift t i n)) n)"
proof -
  obtain t' i' where r: "sift_down_loop t i n = (t', i')" by fastforce
  from sift_down_loop_frame [OF assms(2) r]
  have down: "rearranged {i..<n} t t'" "i \<le> i'" by auto
  have eq: "sift t i n = (if i < i' then t' else sift_up_loop t' i)"
    using assms r down rearranged_length [OF down(1)] by (simp add: sift_def sift_down_def sift_up_def)
  have up: "rearranged {..i} t' (sift_up_loop t' i)
      \<and> (up_ordered (key t') n i \<longrightarrow> ordered (key (sift_up_loop t' i)) n)"
    using sift_up_loop_ok [of i t' n] rearranged_length [OF down(1)] assms by auto
  have "rearranged {..<n} t t'" "rearranged {..<n} t' (sift_up_loop t' i)"
    using down(1) up assms(1) by (auto intro: rearranged_mono)
  then have frame: "rearranged {..<n} t (sift t i n)"
    unfolding eq by (auto intro: rearranged_trans)
  have "ordered (key (sift t i n)) n" if ord: "around_ordered (key t) n i"
  proof (cases "i * 2 + 1 < n \<and> \<not> node_less (tm_heap t ! i) (tm_heap t ! least_child t i n)")
    case True
    let ?j = "least_child t i n"
    note j = least_child [where i = i and n = n and t = t]
    have rest: "sift_down_loop (swap_node t i ?j) ?j n = (t', i')"
      using True r by (subst (asm) sift_down_loop_unfold) simp
    have "down_ordered (key (swap_node t i ?j)) n ?j"
      using True j assms ord by (intro down_ordered_step [of "key t" n i]) (auto simp: key_swap node_less_key)
    with sift_down_loop_ordered [OF _ rest] assms have "ordered (key t') n" by simp
    moreover have "i < i'"
      using sift_down_loop_frame [OF _ rest] assms True j(4) by auto
    ultimately show ?thesis unfolding eq by simp
  next
    case False
    then have same: "t' = t" "i' = i"
      using r by (subst (asm) sift_down_loop_unfold, auto split: if_splits)+
    have "key t i \<le> key t k" if "0 < k" "k < n" "(k - 1) div 2 = i" for k
    proof -
      have "i * 2 + 1 < n" using that by (auto simp: child_cases)
      with False least_child(5) [OF this that, where t = t] show ?thesis
        by (auto simp: node_less_key)
    qed
    with ord have "up_ordered (key t) n i" by (blast intro: around_ordered_done)
    with up same show ?thesis unfolding eq by simp
  qed
  with frame show ?thesis by blast
qed

lemma sift_up_ok:
  assumes "i < length (tm_heap t)"
  shows "rearranged {..i} t (sift_up t i)
    \<and> (up_ordered (key t) (length (tm_heap t)) i
       \<longrightarrow> ordered (key (sift_up t i)) (length (tm_heap t)))"
  using assms sift_up_loop_ok [OF assms, of "length (tm_heap t)"] by (simp add: sift_up_def)

section \<open>What the operations do\<close>

text \<open>The abstraction: which timer is due when, and with what callback.\<close>

definition alarms :: "('c, 'z) timer_scheme \<Rightarrow> int \<rightharpoonup> int \<times> 'c option" where
  "alarms t = map_of (map (\<lambda>n. (tn_id n, (tn_expires n, tn_callback n))) (tm_heap t))"

lemma alarms_iff:
  assumes "ref_ok t"
  shows "alarms t i = Some (e, c) \<longleftrightarrow> (\<exists>n \<in> set (tm_heap t). tn_id n = i \<and> tn_expires n = e \<and> tn_callback n = c)"
  using ref_ok_distinct [OF assms] unfolding alarms_def
  by (subst map_of_eq_Some_iff) (auto simp: o_def)

lemma alarms_rearranged:
  assumes "ref_ok t" "mset (tm_heap t') = mset (tm_heap t)" "ref_ok t'"
  shows "alarms t' = alarms t"
proof
  fix i
  have "alarms t' i = Some (e, c) \<longleftrightarrow> alarms t i = Some (e, c)" for e c
    using assms mset_eq_setD [OF assms(2)] by (simp add: alarms_iff)
  then show "alarms t' i = alarms t i"
    by (metis not_Some_eq surj_pair)
qed

lemma alarms_None: "ref_ok t \<Longrightarrow> alarms t i = None \<longleftrightarrow> tm_ref t i = None"
  by (simp add: ref_okD(3) alarms_def map_of_eq_None_iff image_image)

lemma alarms_set:
  assumes "ref_ok t" "ref_ok t'"
    and "\<And>n. n \<in> set (tm_heap t') \<longleftrightarrow> n = new \<or> n \<in> set (tm_heap t) \<and> tn_id n \<noteq> tn_id new"
  shows "alarms t' = (alarms t)(tn_id new \<mapsto> (tn_expires new, tn_callback new))"
proof
  fix i
  let ?m = "(alarms t)(tn_id new \<mapsto> (tn_expires new, tn_callback new))"
  have "alarms t' i = Some v \<longleftrightarrow> ?m i = Some v" for v
    using assms by (cases v) (auto simp: alarms_iff)
  then show "alarms t' i = ?m i"
    by (metis not_Some_eq)
qed

lemma alarms_remove:
  assumes "ref_ok t" "ref_ok t'"
    and "\<And>n. n \<in> set (tm_heap t') \<longleftrightarrow> n \<in> set (tm_heap t) \<and> tn_id n \<noteq> i"
  shows "alarms t' = (alarms t)(i := None)"
proof
  fix j
  have "alarms t' j = Some v \<longleftrightarrow> ((alarms t)(i := None)) j = Some v" for v
    using assms by (cases v) (auto simp: alarms_iff)
  then show "alarms t' j = ((alarms t)(i := None)) j"
    by (metis not_Some_eq)
qed

lemma rearranged_alarms:
  "rearranged S t t' \<Longrightarrow> ref_ok t \<Longrightarrow> ref_ok t' \<and> alarms t' = alarms t \<and> timer.more t' = timer.more t"
  by (auto simp: rearranged_def intro: alarms_rearranged)

lemma push_node_ok:
  fixes t :: "('c, 'z) timer_scheme" and now timeout ident :: int and cb :: "'c option"
  assumes "ref_ok t" "tm_ref t ident = None"
  defines "t1 \<equiv> push_node now ident timeout cb t"
  shows "ref_ok t1" "alarms t1 = (alarms t)(ident \<mapsto> (now + MS timeout, cb))"
    "timer.more t1 = timer.more t" "length (tm_heap t1) = Suc (length (tm_heap t))"
    "ordered (key t) (length (tm_heap t)) \<Longrightarrow> up_ordered (key t1) (Suc (length (tm_heap t))) (length (tm_heap t))"
proof -
  let ?new = "\<lparr>tn_id = ident, tn_expires = now + MS timeout, tn_callback = cb\<rparr>"
  have fresh: "ident \<notin> tn_id ` set (tm_heap t)"
    using assms by (simp add: ref_okD(3))
  have h: "tm_heap t1 = tm_heap t @ [?new]" "tm_ref t1 = (tm_ref t)(ident \<mapsto> length (tm_heap t))"
    by (simp_all add: t1_def push_node_def)
  show ref: "ref_ok t1"
  proof (rule ref_okI)
    show "distinct (map tn_id (tm_heap t1))"
      using fresh ref_ok_distinct [OF assms(1)] by (simp add: h)
  next
    fix k assume "k < length (tm_heap t1)"
    then show "tm_ref t1 (tn_id (tm_heap t1 ! k)) = Some k"
      using fresh ref_okD(1) [OF assms(1), of k] by (auto simp: h nth_append less_Suc_eq image_iff)
  next
    fix i k assume "tm_ref t1 i = Some k"
    then show "i \<in> tn_id ` set (tm_heap t1)"
      using ref_okD(3) [OF assms(1), of i] by (auto simp: h split: if_splits)
  qed
  have "n \<in> set (tm_heap t1) \<longleftrightarrow> n = ?new \<or> n \<in> set (tm_heap t) \<and> tn_id n \<noteq> tn_id ?new" for n
    using fresh by (auto simp: h image_iff)
  from alarms_set [OF assms(1) ref this]
  show "alarms t1 = (alarms t)(ident \<mapsto> (now + MS timeout, cb))" by simp
  show "timer.more t1 = timer.more t" "length (tm_heap t1) = Suc (length (tm_heap t))"
    by (simp_all add: t1_def push_node_def)
  show "up_ordered (key t1) (Suc (length (tm_heap t))) (length (tm_heap t))"
    if "ordered (key t) (length (tm_heap t))"
    unfolding up_ordered_def
  proof (intro conjI allI impI; elim conjE)
    fix k assume "0 < k" "k < Suc (length (tm_heap t))" "k \<noteq> length (tm_heap t)"
    then have "k < length (tm_heap t)" "(k - 1) div 2 < length (tm_heap t)" by auto
    then show "key t1 ((k - 1) div 2) \<le> key t1 k"
      using that \<open>0 < k\<close> by (simp add: ordered_def key_def h nth_append)
  next
    fix k assume "0 < length (tm_heap t)" "0 < k" "k < Suc (length (tm_heap t))"
      "(k - 1) div 2 = length (tm_heap t)"
    then show "key t1 ((length (tm_heap t) - 1) div 2) \<le> key t1 k" by auto
  qed
qed

lemma update_node_ok:
  fixes t :: "('c, 'z) timer_scheme"
  assumes "ref_ok t" "tm_ref t ident = Some i"
    and "tn_id new = ident"
  defines "t1 \<equiv> t\<lparr>tm_heap := (tm_heap t)[i := new]\<rparr>"
  shows "ref_ok t1" "alarms t1 = (alarms t)(ident \<mapsto> (tn_expires new, tn_callback new))"
    "timer.more t1 = timer.more t" "i < length (tm_heap t)" "length (tm_heap t1) = length (tm_heap t)"
    "ordered (key t) (length (tm_heap t)) \<Longrightarrow> around_ordered (key t1) (length (tm_heap t)) i"
proof -
  from assms have i: "i < length (tm_heap t)" "tn_id (tm_heap t ! i) = ident"
    by (auto dest: ref_okD(2))
  have ids: "map tn_id (tm_heap t1) = map tn_id (tm_heap t)"
    using i assms(3) by (simp add: t1_def map_update) (metis i(1) list_update_id map_update nth_map length_map)
  have id_at: "tn_id (tm_heap t1 ! k) = tn_id (tm_heap t ! k)" if "k < length (tm_heap t)" for k
    using i assms(3) that by (auto simp: t1_def nth_list_update)
  show ref: "ref_ok t1"
    using assms(1) id_at by (auto simp: ref_ok_def t1_def)
  have dist: "distinct (map tn_id (tm_heap t))"
    using ref_ok_distinct [OF assms(1)] .
  have "n \<in> set (tm_heap t1) \<longleftrightarrow> n = new \<or> n \<in> set (tm_heap t) \<and> tn_id n \<noteq> tn_id new" for n
  proof -
    have "n \<in> set (tm_heap t1) \<longleftrightarrow> (\<exists>k < length (tm_heap t). n = (if k = i then new else tm_heap t ! k))"
      using i by (auto simp: t1_def in_set_conv_nth nth_list_update)
    moreover have "tn_id (tm_heap t ! k) = tn_id new \<longleftrightarrow> k = i" if "k < length (tm_heap t)" for k
      using that i assms(3) dist by (metis distinct_conv_nth length_map nth_map)
    ultimately show ?thesis
      using i by (auto simp: in_set_conv_nth) metis+
  qed
  from alarms_set [OF assms(1) ref this] assms(3)
  show "alarms t1 = (alarms t)(ident \<mapsto> (tn_expires new, tn_callback new))" by simp
  show "timer.more t1 = timer.more t" "i < length (tm_heap t)" "length (tm_heap t1) = length (tm_heap t)"
    using i by (simp_all add: t1_def)
  show "around_ordered (key t1) (length (tm_heap t)) i" if ord: "ordered (key t) (length (tm_heap t))"
    unfolding around_ordered_def
  proof (intro conjI allI impI; elim conjE)
    fix k assume "0 < k" "k < length (tm_heap t)" "k \<noteq> i" "(k - 1) div 2 \<noteq> i"
    then show "key t1 ((k - 1) div 2) \<le> key t1 k"
      using ord by (simp add: ordered_def key_def t1_def)
  next
    fix k assume k: "0 < i" "0 < k" "k < length (tm_heap t)" "(k - 1) div 2 = i"
    have "key t ((i - 1) div 2) \<le> key t i" "key t i \<le> key t k"
      using ord k i by (auto simp: ordered_def)
    moreover have "(i - 1) div 2 \<noteq> i" "k \<noteq> i"
      using k parent_less [of i] parent_less [of k] by auto
    ultimately show "key t1 ((i - 1) div 2) \<le> key t1 k"
      by (simp add: key_def t1_def)
  qed
qed

text \<open>\<open>Add\<close> sets the alarm, new or not; the branch for a stale index is never taken.\<close>

lemma add_node_ok:
  assumes inv: "timer_inv t" and "0 \<le> ident"
  shows "\<exists>t'. add_node now ident timeout cb t = Inr t' \<and> timer_inv t'
           \<and> alarms t' = (alarms t)(ident \<mapsto> (now + MS timeout, cb)) \<and> timer.more t' = timer.more t"
proof (cases "tm_ref t ident")
  case None
  from inv have t: "ref_ok t" "ordered (key t) (length (tm_heap t))" by (auto simp: timer_inv_def)
  let ?t1 = "push_node now ident timeout cb t"
  note push = push_node_ok [OF t(1) None, of now timeout cb]
  have up: "rearranged {..length (tm_heap t)} ?t1 (sift_up ?t1 (length (tm_heap t)))"
      "ordered (key (sift_up ?t1 (length (tm_heap t)))) (Suc (length (tm_heap t)))"
    using sift_up_ok [of "length (tm_heap t)" ?t1] push t(2) by auto
  with rearranged_length [OF up(1)] rearranged_alarms [OF up(1) push(1)] push None assms(2)
  show ?thesis by (simp add: add_node_def timer_inv_def)
next
  case (Some i)
  from inv have t: "ref_ok t" "ordered (key t) (length (tm_heap t))" by (auto simp: timer_inv_def)
  let ?new = "(tm_heap t ! i)\<lparr>tn_expires := now + MS timeout, tn_callback := cb\<rparr>"
  let ?t1 = "t\<lparr>tm_heap := (tm_heap t)[i := ?new]\<rparr>"
  have "tn_id ?new = ident"
    using ref_okD(2) [OF t(1) Some] by simp
  note upd = update_node_ok [OF t(1) Some this]
  have s: "rearranged {..<length (tm_heap t)} ?t1 (sift ?t1 i (length (tm_heap t)))"
      "ordered (key (sift ?t1 i (length (tm_heap t)))) (length (tm_heap t))"
    using sift_ok [of i "length (tm_heap t)" ?t1] upd t(2) by auto
  with rearranged_length [OF s(1)] rearranged_alarms [OF s(1) upd(1)] upd Some assms(2)
  show ?thesis by (simp add: add_node_def timer_inv_def Let_def)
qed

lemma drop_last_ref:
  fixes t :: "('c, 'z) timer_scheme"
  assumes "ref_ok t" "tm_heap t \<noteq> []" "tn_id (last (tm_heap t)) = x"
  defines "t1 \<equiv> t\<lparr>tm_ref := (tm_ref t)(x := None), tm_heap := butlast (tm_heap t)\<rparr>"
  shows "ref_ok t1" "alarms t1 = (alarms t)(x := None)"
proof -
  obtain ns n where ns: "tm_heap t = ns @ [n]"
    using assms(2) by (metis rev_exhaust)
  have x: "tn_id n = x" "x \<notin> tn_id ` set ns" "distinct (map tn_id ns)"
    using assms(3) ref_ok_distinct [OF assms(1)] by (auto simp: ns)
  have h: "tm_heap t1 = ns" "tm_ref t1 = (tm_ref t)(x := None)"
    by (simp_all add: t1_def ns)
  show ref: "ref_ok t1"
  proof (rule ref_okI)
    show "distinct (map tn_id (tm_heap t1))" using x by (simp add: h)
  next
    fix k assume k: "k < length (tm_heap t1)"
    then have "tm_ref t (tn_id (ns ! k)) = Some k"
      using ref_okD(1) [OF assms(1), of k] by (simp add: ns nth_append h)
    with k x(2) show "tm_ref t1 (tn_id (tm_heap t1 ! k)) = Some k"
      by (auto simp: h)
  next
    fix i k assume "tm_ref t1 i = Some k"
    then show "i \<in> tn_id ` set (tm_heap t1)"
      using ref_okD(3) [OF assms(1), of i] x(1) by (auto simp: h ns split: if_splits)
  qed
  have "m \<in> set (tm_heap t1) \<longleftrightarrow> m \<in> set (tm_heap t) \<and> tn_id m \<noteq> x" for m
    using x by (auto simp: h ns image_iff)
  from alarms_remove [OF assms(1) ref this] show "alarms t1 = (alarms t)(x := None)" .
qed

lemma drop_last_ok:
  fixes t :: "('c, 'z) timer_scheme"
  assumes "ref_ok t" "tm_heap t \<noteq> []" "tn_id (last (tm_heap t)) = x"
    and "ordered (key t) (length (tm_heap t) - 1)"
  defines "t1 \<equiv> t\<lparr>tm_ref := (tm_ref t)(x := None), tm_heap := butlast (tm_heap t)\<rparr>"
  shows "timer_inv t1 \<and> alarms t1 = (alarms t)(x := None)"
proof -
  have "key t1 k = key t k" if "k < length (tm_heap t) - 1" for k
    using that by (simp add: key_def t1_def nth_butlast)
  then have "ordered (key t1) (length (tm_heap t1))"
    using assms(4) by (auto simp: ordered_def t1_def)
  with drop_last_ref [OF assms(1-3)] show ?thesis
    by (simp add: timer_inv_def t1_def)
qed

lemma ordered_mono: "ordered e n \<Longrightarrow> m \<le> n \<Longrightarrow> ordered e m"
  by (auto simp: ordered_def)

text \<open>The node to be deleted is at the end after the swap, and the others are in order again if they were.\<close>

lemma del_at_sifted:
  assumes i: "i < length (tm_heap t)"
  defines "t1 \<equiv> (if i < length (tm_heap t) - 1
      then sift (swap_node t i (length (tm_heap t) - 1)) i (length (tm_heap t) - 1) else t)"
  shows "rearranged UNIV t t1 \<and> (ordered (key t) (length (tm_heap t)) \<longrightarrow> ordered (key t1) (length (tm_heap t) - 1))
     \<and> tn_id (last (tm_heap t1)) = tn_id (tm_heap t ! i)"
proof -
  let ?n = "length (tm_heap t) - 1" and ?x = "tn_id (tm_heap t ! i)"
  have ne: "tm_heap t \<noteq> []" using i by auto
  show ?thesis
  proof (cases "i < ?n")
    case True
    let ?s = "swap_node t i ?n"
    have sw: "rearranged UNIV t ?s" using i by (intro rearranged_swap) auto
    have ks: "key ?s k = (if k = i then key t ?n else key t k)" if "k < ?n" for k
      using key_swap [of i t ?n k] i that by auto
    have around: "around_ordered (key ?s) ?n i" if t: "ordered (key t) (length (tm_heap t))"
      unfolding around_ordered_def
    proof (intro conjI allI impI; elim conjE)
      fix k assume k: "0 < k" "k < ?n" "k \<noteq> i" "(k - 1) div 2 \<noteq> i"
      then have "key t ((k - 1) div 2) \<le> key t k"
        using t unfolding ordered_def by simp
      then show "key ?s ((k - 1) div 2) \<le> key ?s k"
        using k ks [of k] ks [of "(k - 1) div 2"] parent_less [of k] by simp
    next
      fix k assume k: "0 < i" "0 < k" "k < ?n" "(k - 1) div 2 = i"
      have "key t ((i - 1) div 2) \<le> key t i" "key t i \<le> key t k"
        using t k i by (auto simp: ordered_def)
      then show "key ?s ((i - 1) div 2) \<le> key ?s k"
        using ks [of k] ks [of "(i - 1) div 2"] parent_less [of i] parent_less [of k] k by simp
    qed
    have s: "rearranged {..<?n} ?s t1" "ordered (key t) (length (tm_heap t)) \<longrightarrow> ordered (key t1) ?n"
      using sift_ok [OF True, of ?s] True around by (auto simp: t1_def)
    have len: "length (tm_heap t1) = length (tm_heap t)"
      using rearranged_length [OF s(1)] by simp
    then have "tm_heap t1 \<noteq> []" using ne by auto
    then have "last (tm_heap t1) = tm_heap t1 ! ?n"
      using len by (simp add: last_conv_nth)
    also have "\<dots> = tm_heap ?s ! ?n"
      using s(1) i by (simp add: rearranged_def)
    also have "\<dots> = tm_heap t ! i"
      using i by (simp add: swap_node_nth)
    finally show ?thesis
      using s sw by (auto intro: rearranged_trans rearranged_mono)
  next
    case False
    with i have "i = ?n" by simp
    then show ?thesis
      using ne False by (auto simp: t1_def last_conv_nth intro: ordered_mono)
  qed
qed

lemma del_at_ref:
  assumes ref: "ref_ok t" and i: "i < length (tm_heap t)"
  shows "ref_ok (del_at i t) \<and> alarms (del_at i t) = (alarms t)(tn_id (tm_heap t ! i) := None)
     \<and> timer.more (del_at i t) = timer.more t
     \<and> length (tm_heap (del_at i t)) = length (tm_heap t) - 1
     \<and> (ordered (key t) (length (tm_heap t)) \<longrightarrow> timer_inv (del_at i t))"
proof -
  let ?n = "length (tm_heap t) - 1" and ?x = "tn_id (tm_heap t ! i)"
  define t1 where "t1 = (if i < ?n then sift (swap_node t i ?n) i ?n else t)"
  have ne: "tm_heap t \<noteq> []" using i by auto
  have del: "del_at i t = t1\<lparr>tm_ref := (tm_ref t1)(?x := None), tm_heap := butlast (tm_heap t1)\<rparr>"
    using i ne by (simp add: del_at_def t1_def Let_def)
  note parts = del_at_sifted [OF i, folded t1_def]
  then have r: "rearranged UNIV t t1" and o: "ordered (key t) (length (tm_heap t)) \<longrightarrow> ordered (key t1) ?n"
    and l: "tn_id (last (tm_heap t1)) = ?x" by auto
  note len = rearranged_length [OF r]
  have "tm_heap t1 \<noteq> []" using ne len by auto
  with rearranged_alarms [OF r ref] drop_last_ref [of t1 ?x] drop_last_ok [of t1 ?x] l o len show ?thesis
    unfolding del by simp
qed

lemma del_at_ok:
  assumes "timer_inv t" "i < length (tm_heap t)"
  shows "timer_inv (del_at i t) \<and> alarms (del_at i t) = (alarms t)(tn_id (tm_heap t ! i) := None)
     \<and> timer.more (del_at i t) = timer.more t
     \<and> length (tm_heap (del_at i t)) = length (tm_heap t) - 1"
  using del_at_ref [of t i] assms by (auto simp: timer_inv_def)

lemma pop_timer_ok:
  assumes "timer_inv t" "tm_heap t = node # ns"
  shows "timer_inv (pop_timer t) \<and> alarms (pop_timer t) = (alarms t)(tn_id node := None)
     \<and> timer.more (pop_timer t) = timer.more t"
  using del_at_ok [OF assms(1), of 0] assms(2) by (simp add: pop_timer_def)

lemma empty_timer_ok [simp]: "timer_inv empty_timer" "alarms empty_timer = Map.empty"
  by (simp_all add: timer_inv_def ref_ok_def ordered_def empty_timer_def alarms_def)

lemma clear_timer_ok: "timer_inv (clear_timer t) \<and> alarms (clear_timer t) = Map.empty"
  by (simp add: timer_inv_def ref_ok_def ordered_def clear_timer_def alarms_def)

text \<open>The front of the vector is the earliest alarm.\<close>

lemma front_least_key:
  assumes "ordered e n" "k < n"
  shows "e 0 \<le> e k"
  using assms(2)
proof (induction k rule: less_induct)
  case (less k)
  show ?case
  proof (cases "k = 0")
    case False
    then have "e ((k - 1) div 2) \<le> e k" "e 0 \<le> e ((k - 1) div 2)"
      using assms(1) less by (auto simp: ordered_def)
    then show ?thesis by simp
  qed simp
qed

lemma front_least:
  assumes "timer_inv t" "tm_heap t = node # ns"
  shows "alarms t (tn_id node) = Some (tn_expires node, tn_callback node)"
    and "alarms t i = Some (e, c) \<Longrightarrow> tn_expires node \<le> e"
proof -
  from assms have t: "ref_ok t" "ordered (key t) (length (tm_heap t))" by (auto simp: timer_inv_def)
  show "alarms t (tn_id node) = Some (tn_expires node, tn_callback node)"
    using t(1) assms(2) by (auto simp: alarms_iff)
  show "tn_expires node \<le> e" if "alarms t i = Some (e, c)"
  proof -
    from that t(1) obtain k where "k < length (tm_heap t)" "key t k = e"
      by (auto simp: alarms_iff in_set_conv_nth key_def)
    with front_least_key [OF t(2)] assms(2) show ?thesis
      by (auto simp: key_def)
  qed
qed

lemma alarms_empty_iff: "alarms t = Map.empty \<longleftrightarrow> tm_heap t = []"
  by (auto simp: alarms_def)

text \<open>\<open>Adjust\<close> is right when the alarm moves to a later time.\<close>

lemma adjust_ok:
  assumes inv: "timer_inv t" and old: "alarms t ident = Some (e, c)" and later: "e \<le> now + MS timeout"
  shows "\<exists>t'. adjust now ident timeout t = Inr t' \<and> timer_inv t'
           \<and> alarms t' = (alarms t)(ident \<mapsto> (now + MS timeout, c)) \<and> timer.more t' = timer.more t"
proof -
  from inv have t: "ref_ok t" "ordered (key t) (length (tm_heap t))" by (auto simp: timer_inv_def)
  from old t(1) obtain i where i: "tm_ref t ident = Some i"
    by (metis alarms_None not_None_eq)
  note at = ref_okD(2) [OF t(1) i]
  let ?new = "(tm_heap t ! i)\<lparr>tn_expires := now + MS timeout\<rparr>"
  let ?t1 = "t\<lparr>tm_heap := (tm_heap t)[i := ?new]\<rparr>"
  let ?n = "length (tm_heap t)"
  have old_at: "tn_expires (tm_heap t ! i) = e" "tn_callback (tm_heap t ! i) = c"
  proof -
    have "alarms t ident = Some (tn_expires (tm_heap t ! i), tn_callback (tm_heap t ! i))"
      using at t(1) by (auto simp: alarms_iff)
    with old show "tn_expires (tm_heap t ! i) = e" "tn_callback (tm_heap t ! i) = c" by simp_all
  qed
  have "tn_id ?new = ident" using at by simp
  note upd = update_node_ok [OF t(1) i this]
  obtain t' i' where r: "sift_down_loop ?t1 i ?n = (t', i')" by fastforce
  have down: "down_ordered (key ?t1) ?n i"
    unfolding down_ordered_def
  proof (intro conjI allI impI; elim conjE)
    fix k assume k: "0 < k" "k < ?n" "(k - 1) div 2 \<noteq> i"
    then have "key t ((k - 1) div 2) \<le> key t k" using t(2) by (simp add: ordered_def)
    then show "key ?t1 ((k - 1) div 2) \<le> key ?t1 k"
      using k later old_at at by (auto simp: key_def nth_list_update)
  next
    fix k assume "0 < i" "0 < k" "k < ?n" "(k - 1) div 2 = i"
    then show "key ?t1 ((i - 1) div 2) \<le> key ?t1 k"
      using upd(6) [OF t(2)] by (simp add: around_ordered_def)
  qed
  have s: "rearranged {i..<?n} ?t1 t'" "ordered (key t') ?n"
    using sift_down_loop_frame [OF _ r] sift_down_loop_ordered [OF _ r down] by auto
  have "adjust now ident timeout t = Inr t'"
    using i at r by (auto simp: adjust_def Let_def sift_down_def)
  with rearranged_length [OF s(1)] rearranged_alarms [OF s(1) upd(1)] s upd old_at(2) show ?thesis
    by (simp add: timer_inv_def)
qed

text \<open>The index map is kept whatever the order of the vector.\<close>

lemma add_node_ref:
  assumes "ref_ok t" "add_node now ident timeout cb t = Inr t'"
  shows "ref_ok t'"
proof (cases "tm_ref t ident")
  case None
  let ?t1 = "push_node now ident timeout cb t"
  note push = push_node_ok [OF assms(1) None, of now timeout cb]
  have "rearranged {..length (tm_heap t)} ?t1 (sift_up ?t1 (length (tm_heap t)))"
    using sift_up_ok [of "length (tm_heap t)" ?t1] push by auto
  from rearranged_alarms [OF this push(1)] None assms(2) show ?thesis by (auto simp: add_node_def)
next
  case (Some i)
  let ?new = "(tm_heap t ! i)\<lparr>tn_expires := now + MS timeout, tn_callback := cb\<rparr>"
  let ?t1 = "t\<lparr>tm_heap := (tm_heap t)[i := ?new]\<rparr>"
  have "tn_id ?new = ident" using ref_okD(2) [OF assms(1) Some] by simp
  note upd = update_node_ok [OF assms(1) Some this]
  have "rearranged {..<length (tm_heap t)} ?t1 (sift ?t1 i (length (tm_heap t)))"
    using sift_ok [of i "length (tm_heap t)" ?t1] upd by auto
  from rearranged_alarms [OF this upd(1)] upd(4) Some assms(2) show ?thesis by (auto simp: add_node_def Let_def)
qed

lemma adjust_ref:
  assumes "ref_ok t" "adjust now ident timeout t = Inr t'"
  shows "ref_ok t'"
proof -
  obtain i where i: "tm_ref t ident = Some i" using assms(2) by (auto simp: adjust_def split: option.splits)
  let ?new = "(tm_heap t ! i)\<lparr>tn_expires := now + MS timeout\<rparr>"
  let ?t1 = "t\<lparr>tm_heap := (tm_heap t)[i := ?new]\<rparr>"
  have "tn_id ?new = ident" using ref_okD(2) [OF assms(1) i] by simp
  note upd = update_node_ok [OF assms(1) i this]
  obtain t2 i2 where r: "sift_down_loop ?t1 i (length (tm_heap t)) = (t2, i2)" by fastforce
  from r i upd(4) assms(2) have "t' = t2" by (auto simp: adjust_def Let_def sift_down_def split: if_splits)
  with sift_down_loop_frame [OF _ r] rearranged_alarms [of _ ?t1 t2] upd(1) show ?thesis by auto
qed

section \<open>The contract of a timer queue\<close>

text \<open>
  A round of the loop takes the front when it is due, removes it and runs its callback; \<open>p\<close>
  counts the rounds from the start and \<open>b\<close> the rounds left. The fired timers are collected in order.
\<close>

definition exec_callback :: "('c \<Rightarrow> 't \<Rightarrow> 't) \<Rightarrow> 'c option \<Rightarrow> 't \<Rightarrow> 't" where
  "exec_callback run cb t = (case cb of None \<Rightarrow> t | Some c \<Rightarrow> run c t)"

fun fire_loop ::
  "('t \<Rightarrow> (int \<times> int \<times> 'c option) option) \<Rightarrow> ('t \<Rightarrow> 't) \<Rightarrow> (nat \<Rightarrow> int \<Rightarrow> bool) \<Rightarrow>
   (nat \<Rightarrow> 'c \<Rightarrow> 't \<Rightarrow> 't) \<Rightarrow> nat \<Rightarrow> nat \<Rightarrow> 't \<Rightarrow> (int \<times> int \<times> 'c option) list \<times> 't" where
  "fire_loop front drop_front due run p 0 t = ([], t)"
| "fire_loop front drop_front due run p (Suc b) t =
     (case front t of
        None \<Rightarrow> ([], t)
      | Some (i, e, c) \<Rightarrow>
          if due p e then
            let (fs, t') = fire_loop front drop_front due run (p + 1) b
                             (exec_callback (run p) c (drop_front t))
            in ((i, e, c) # fs, t')
          else ([], t))"

locale alarm_clock =
  fixes invar :: "'t \<Rightarrow> bool"
    and alarms_of :: "'t \<Rightarrow> int \<rightharpoonup> int \<times> 'c option"
    and front :: "'t \<Rightarrow> (int \<times> int \<times> 'c option) option"
    and drop_front :: "'t \<Rightarrow> 't"
  assumes front_None: "invar t \<Longrightarrow> front t = None \<longleftrightarrow> alarms_of t = Map.empty"
    and front_Some: "invar t \<Longrightarrow> front t = Some (i, e, c) \<Longrightarrow> alarms_of t i = Some (e, c)"
    and front_least: "invar t \<Longrightarrow> front t = Some (i, e, c) \<Longrightarrow> alarms_of t i' = Some (e', c') \<Longrightarrow> e \<le> e'"
    and drop_ok: "invar t \<Longrightarrow> front t = Some (i, e, c) \<Longrightarrow>
        invar (drop_front t) \<and> alarms_of (drop_front t) = (alarms_of t)(i := None)"
begin

lemma fire_loop_invar:
  assumes "\<forall>p t i e c. invar t \<and> front t = Some (i, e, Some c) \<longrightarrow> invar (run p c (drop_front t))" "invar t"
  shows "invar (snd (fire_loop front drop_front due run p b t))
    \<and> length (fst (fire_loop front drop_front due run p b t)) \<le> b"
  using assms(2)
proof (induction b arbitrary: p t)
  case (Suc b)
  show ?case
  proof (cases "front t")
    case (Some r)
    obtain i e c where r: "r = (i, e, c)" by (metis surj_pair)
    have "invar (exec_callback (run p) c (drop_front t))"
      using assms(1) [rule_format, of t i e _ p] Suc.prems drop_ok [OF Suc.prems, of i e c] Some r by (auto simp: exec_callback_def split: option.split)
    from Suc.IH [OF this, of "p + 1"] Some r Suc.prems show ?thesis
      by (auto simp: Let_def split: prod.split)
  qed (use Suc.prems in simp)
qed simp

lemma fire_loop_once:
  assumes "front t = Some (i, e, c)" "due p e"
    and "\<forall>i' e' c'. front (exec_callback (run p) c (drop_front t)) = Some (i', e', c') \<longrightarrow> \<not> due (p + 1) e'"
  shows "fire_loop front drop_front due run p (Suc b) t = ([(i, e, c)], exec_callback (run p) c (drop_front t))"
proof -
  let ?t1 = "exec_callback (run p) c (drop_front t)"
  have "fire_loop front drop_front due run (p + 1) b ?t1 = ([], ?t1)"
    using assms(3) by (cases b) (auto split: option.split)
  with assms(1,2) show ?thesis by simp
qed

lemma fire_loop_quiet:
  assumes quiet: "\<forall>p c t. invar t \<longrightarrow> invar (run p c t) \<and> alarms_of (run p c t) = alarms_of t"
    and "invar t" "fire_loop front drop_front due run p b t = (fs, t')"
  shows "invar t' \<and> length fs \<le> b \<and> sorted (map (\<lambda>f. fst (snd f)) fs) \<and> distinct (map fst fs)
    \<and> alarms_of t' = alarms_of t |` (- fst ` set fs)
    \<and> (\<forall>(i, e, c) \<in> set fs. alarms_of t i = Some (e, c))
    \<and> (\<forall>k < length fs. due (p + k) (fst (snd (fs ! k))))
    \<and> (length fs < b \<longrightarrow> (\<forall>i e c. front t' = Some (i, e, c) \<longrightarrow> \<not> due (p + length fs) e))"
  using assms(2,3)
proof (induction b arbitrary: p t fs)
  case 0
  then show ?case by simp
next
  case (Suc b)
  show ?case
  proof (cases "front t")
    case None
    with Suc.prems show ?thesis by simp
  next
    case (Some r)
    obtain i e c where r: "r = (i, e, c)" by (metis surj_pair)
    show ?thesis
    proof (cases "due p e")
      case False
      with Suc.prems Some r show ?thesis by auto
    next
      case True
      let ?t1 = "exec_callback (run p) c (drop_front t)"
      have t1: "invar ?t1" "alarms_of ?t1 = (alarms_of t)(i := None)"
        using quiet drop_ok [OF Suc.prems(1), of i e c] Some r
        by (auto simp: exec_callback_def split: option.split)
      obtain fs' where fs': "fire_loop front drop_front due run (p + 1) b ?t1 = (fs', t')"
          "fs = (i, e, c) # fs'"
        using Suc.prems(2) Some r True by (auto simp: Let_def split: prod.splits)
      note IH = Suc.IH [OF t1(1) fs'(1)]
      have i_t: "alarms_of t i = Some (e, c)"
        using front_Some [OF Suc.prems(1)] Some r by simp
      have old: "alarms_of t j = Some (e', c')" if "(j, e', c') \<in> set fs'" for j e' c'
      proof -
        have "((alarms_of t)(i := None)) j = Some (e', c')"
          using IH t1(2) that by auto
        then show ?thesis by (auto split: if_splits)
      qed
      have "e \<le> e'" if "(j, e', c') \<in> set fs'" for j e' c'
        using front_least [OF Suc.prems(1), of i e c] Some r old [OF that] by simp
      then have "sorted (map (\<lambda>f. fst (snd f)) fs)"
        using IH fs'(2) by auto
      moreover have "i \<notin> fst ` set fs'"
        using IH t1(2) by fastforce
      then have "distinct (map fst fs)"
        using IH fs'(2) by auto
      moreover have "alarms_of t' = alarms_of t |` (- fst ` set fs)"
        using IH t1(2) fs'(2) by (auto simp: restrict_map_def fun_eq_iff)
      moreover have "\<forall>k < length fs. due (p + k) (fst (snd (fs ! k)))"
        using IH True fs'(2) by (auto simp: nth_Cons split: nat.split)
      ultimately show ?thesis
        using IH fs'(2) i_t old by auto
    qed
  qed
qed

end

text \<open>A timer queue whose alarms can be set, and a series of settings.\<close>

fun set_all ::
  "(int \<Rightarrow> int \<Rightarrow> int \<Rightarrow> 'c option \<Rightarrow> 't \<Rightarrow> 't outcome) \<Rightarrow>
   (int \<times> int \<times> int \<times> 'c option) list \<Rightarrow> 't \<Rightarrow> 't outcome" where
  "set_all set_alarm [] t = Inr t"
| "set_all set_alarm ((now, i, ms, cb) # reqs) t =
     and_then (set_alarm now i ms cb t) (set_all set_alarm reqs)"

definition requested :: "(int \<times> int \<times> int \<times> 'c option) list \<Rightarrow> int \<rightharpoonup> int \<times> 'c option" where
  "requested reqs = map_of (map (\<lambda>(now, i, ms, cb). (i, (now + MS ms, cb))) (rev reqs))"

locale settable_alarm_clock = alarm_clock invar alarms_of front drop_front
  for invar :: "'t \<Rightarrow> bool" and alarms_of :: "'t \<Rightarrow> int \<rightharpoonup> int \<times> 'c option"
    and front :: "'t \<Rightarrow> (int \<times> int \<times> 'c option) option" and drop_front :: "'t \<Rightarrow> 't" +
  fixes set_alarm :: "int \<Rightarrow> int \<Rightarrow> int \<Rightarrow> 'c option \<Rightarrow> 't \<Rightarrow> 't outcome"
  assumes set_ok: "invar t \<Longrightarrow> 0 \<le> i \<Longrightarrow>
        \<exists>t'. set_alarm now i ms cb t = Inr t' \<and> invar t' \<and> alarms_of t' = (alarms_of t)(i \<mapsto> (now + MS ms, cb))"
begin

lemma set_all_ok:
  assumes "invar t" "\<forall>(now, i, ms, cb) \<in> set reqs. 0 \<le> i"
  shows "\<exists>t'. set_all set_alarm reqs t = Inr t' \<and> invar t' \<and> alarms_of t' = alarms_of t ++ requested reqs"
  using assms
proof (induction reqs arbitrary: t)
  case Nil
  then show ?case by (simp add: requested_def)
next
  case (Cons r reqs)
  obtain now i ms cb where r: "r = (now, i, ms, cb)" by (metis surj_pair)
  with Cons.prems set_ok [of t i now ms cb] obtain t1 where
    t1: "set_alarm now i ms cb t = Inr t1" "invar t1" "alarms_of t1 = (alarms_of t)(i \<mapsto> (now + MS ms, cb))"
    by auto
  from Cons.IH [OF t1(2)] Cons.prems obtain t' where
    "set_all set_alarm reqs t1 = Inr t'" "invar t'" "alarms_of t' = alarms_of t1 ++ requested reqs"
    by auto
  moreover have "(alarms_of t)(i \<mapsto> (now + MS ms, cb)) ++ requested reqs = alarms_of t ++ requested (r # reqs)"
    by (auto simp: r requested_def map_add_def fun_eq_iff split: option.split)
  ultimately show ?case
    using t1(1,3) r by simp
qed

text \<open>With enough rounds, everything that was set is fired, once and in the order of expiry.\<close>

lemma set_all_then_fire:
  assumes quiet: "\<forall>p c t. invar t \<longrightarrow> invar (run p c t) \<and> alarms_of (run p c t) = alarms_of t"
    and "invar t0" "alarms_of t0 = Map.empty" "\<forall>(now, i, ms, cb) \<in> set reqs. 0 \<le> i"
    and "set_all set_alarm reqs t0 = Inr t" "card (dom (requested reqs)) < b"
    and due: "\<forall>p i e c. requested reqs i = Some (e, c) \<longrightarrow> due p e"
    and "fire_loop front drop_front due run p b t = (fs, t')"
  shows "alarms_of t' = Map.empty \<and> sorted (map (\<lambda>f. fst (snd f)) fs)
     \<and> map_of (map (\<lambda>(i, e, c). (i, (e, c))) fs) = requested reqs"
proof -
  have t: "invar t" "alarms_of t = requested reqs"
    using set_all_ok [OF assms(2,4)] assms(3,5) by auto
  note q = fire_loop_quiet [OF quiet t(1) assms(8)]
  have sub: "fst ` set fs \<subseteq> dom (requested reqs)"
    using q t(2) by fastforce
  have "length fs = card (fst ` set fs)"
    using q by (metis distinct_card length_map set_map)
  also have "\<dots> \<le> card (dom (requested reqs))"
    by (rule card_mono [OF _ sub]) (simp add: requested_def finite_dom_map_of)
  finally have few: "length fs < b" using assms(6) by simp
  have "front t' = None"
  proof (rule ccontr)
    assume "front t' \<noteq> None"
    then obtain i e c where f: "front t' = Some (i, e, c)" by (metis not_Some_eq surj_pair)
    then have "alarms_of t' i = Some (e, c)"
      using front_Some q by blast
    then have "requested reqs i = Some (e, c)"
      using q t(2) by (auto simp: restrict_map_def split: if_splits)
    with due q few f show False by blast
  qed
  then have empty: "alarms_of t' = Map.empty"
    using front_None q by blast
  have "map_of (map (\<lambda>(i, e, c). (i, (e, c))) fs) i = Some v \<longleftrightarrow> requested reqs i = Some v" for i v
  proof -
    have "map_of (map (\<lambda>(i, e, c). (i, (e, c))) fs) i = Some v \<longleftrightarrow> (i, v) \<in> set fs"
      using q by (subst map_of_eq_Some_iff) (auto simp: o_def case_prod_beta)
    moreover have "i \<in> fst ` set fs" if "requested reqs i = Some v"
    proof (rule ccontr)
      assume "i \<notin> fst ` set fs"
      with q t(2) that have "alarms_of t' i = Some v" by simp
      with empty show False by simp
    qed
    ultimately show ?thesis
      using q t(2) by fastforce
  qed
  then have "map_of (map (\<lambda>(i, e, c). (i, (e, c))) fs) = requested reqs"
    by (metis (no_types, lifting) ext not_Some_eq)
  with empty q show ?thesis by blast
qed

end

definition timer_front :: "('c, 'z) timer_scheme \<Rightarrow> (int \<times> int \<times> 'c option) option" where
  "timer_front t = (case tm_heap t of [] \<Rightarrow> None
     | node # _ \<Rightarrow> Some (tn_id node, tn_expires node, tn_callback node))"

interpretation heap_clock: settable_alarm_clock timer_inv alarms timer_front pop_timer add_node
proof (unfold_locales, goal_cases)
  case (1 t)
  then show ?case by (auto simp: timer_front_def alarms_empty_iff split: list.split)
next
  case (2 t i e c)
  then show ?case using front_least(1) by (fastforce simp: timer_front_def split: list.splits)
next
  case (3 t i e c i' e' c')
  then show ?case using front_least(2) by (fastforce simp: timer_front_def split: list.splits)
next
  case (4 t i e c)
  then show ?case using pop_timer_ok by (fastforce simp: timer_front_def split: list.splits)
next
  case (5 t i now ms cb)
  then show ?case using add_node_ok by blast
qed

lemma ms_count_pos: "0 < ms_count d \<longleftrightarrow> 1000000 \<le> d"
  by (auto simp: ms_count_def pos_imp_zdiv_pos_iff)

lemma tick_loop_fires:
  assumes "p < 100"
  shows "tick_loop now run p t
    = snd (fire_loop timer_front pop_timer (\<lambda>p e. e - now p < 1000000) run p (100 - p) t)"
  using assms
proof (induction now run p t rule: tick_loop.induct)
  case (1 now run p t)
  obtain b where b: "100 - p = Suc b" "100 - Suc p = b"
    using 1(2) by (metis Suc_diff_Suc diff_Suc_Suc)
  show ?case
  proof (cases "tm_heap t")
    case Nil
    then have "timer_front t = None" by (simp add: timer_front_def)
    with Nil b show ?thesis
      by (subst tick_loop.simps) simp
  next
    case (Cons node ns)
    then have front: "timer_front t = Some (tn_id node, tn_expires node, tn_callback node)"
      by (simp add: timer_front_def)
    consider "0 < ms_count (tn_expires node - now p)"
      | "\<not> 0 < ms_count (tn_expires node - now p)" "100 \<le> p + 1"
      | "\<not> 0 < ms_count (tn_expires node - now p)" "\<not> 100 \<le> p + 1" by blast
    then show ?thesis
    proof cases
      case 1
      with Cons b front show ?thesis
        by (subst tick_loop.simps) (simp add: ms_count_pos)
    next
      case 2
      with Cons b front show ?thesis
        by (subst tick_loop.simps)
           (simp add: ms_count_pos Let_def exec_callback_def split: prod.split)
    next
      case 3
      from 1(1) [OF Cons 3(1) refl refl 3(2)] 3 Cons b front show ?thesis
        by (subst tick_loop.simps)
           (simp add: ms_count_pos Let_def exec_callback_def case_prod_beta)
    qed
  qed
qed

section \<open>Histories of a timer\<close>

text \<open>
  The public operations as steps. The callbacks that \<open>doWork\<close>, \<open>Tick\<close> and \<open>GetNextTick\<close> run may use the timer themselves:
  each is a history of its own. With \<open>later\<close> set, \<open>Adjust\<close> moves alarms to a later time only.
\<close>

inductive timer_step :: "bool \<Rightarrow> 'c timer \<Rightarrow> 'c timer \<Rightarrow> bool" for later where
  step_add: "add_node now ident timeout cb t = Inr t' \<Longrightarrow> timer_step later t t'"
| step_adjust: "adjust now ident timeout t = Inr t' \<Longrightarrow>
      later \<longrightarrow> (\<exists>e c. alarms t ident = Some (e, c) \<and> e \<le> now + MS timeout) \<Longrightarrow> timer_step later t t'"
| step_work: "\<forall>c u. (timer_step later)\<^sup>*\<^sup>* u (snd (run c u)) \<Longrightarrow> timer_step later t (snd (do_work run ident t))"
| step_pop: "timer_step later t (pop_timer t)"
| step_tick: "\<forall>p c u. (timer_step later)\<^sup>*\<^sup>* u (run p c u) \<Longrightarrow> timer_step later t (tick now run t)"
| step_next: "\<forall>p c u. (timer_step later)\<^sup>*\<^sup>* u (run p c u) \<Longrightarrow> timer_step later t (snd (get_next_tick now now' run t))"
| step_clear: "timer_step later t (clear_timer t)"

inductive_cases timer_stepE: "timer_step later t t'"

lemma add_node_Inr: "add_node now ident timeout cb t = Inr t' \<Longrightarrow> 0 \<le> ident"
  by (simp add: add_node_def)

lemma do_work_keeps:
  assumes "ref_ok t" "I t" "\<And>t i. I t \<Longrightarrow> ref_ok t \<Longrightarrow> i < length (tm_heap t) \<Longrightarrow> I (del_at i t)"
    and "\<And>c u. I u \<Longrightarrow> I (snd (run c u))"
  shows "I (snd (do_work run ident t))"
proof (cases "tm_ref t ident")
  case (Some i)
  then have "i < length (tm_heap t)" using ref_okD(2) [OF assms(1)] by blast
  with assms Some show ?thesis
    by (auto simp: do_work_def Let_def split: option.split prod.split) (metis snd_conv)+
qed (simp add: do_work_def assms(2))

lemma tick_eq:
  "tick now run t = snd (fire_loop timer_front pop_timer (\<lambda>p e. e - now p < 1000000) run 0 100 t)"
  using tick_loop_fires [of 0 now run t] by (simp add: tick_def)

lemma pop_timer_inv: "timer_inv t \<Longrightarrow> timer_inv (pop_timer t)"
  using pop_timer_ok [of t] by (cases "tm_heap t") (auto simp: pop_timer_def)

lemma tick_inv:
  assumes "timer_inv t" "\<forall>p c t. timer_inv t \<longrightarrow> timer_inv (run p c t)"
  shows "timer_inv (tick now run t)"
  unfolding tick_eq
  using heap_clock.fire_loop_invar [OF _ assms(1), of run] assms(2) pop_timer_inv by blast

lemma fire_loop_keeps:
  assumes "\<And>t. I t \<Longrightarrow> I (drop_front t)" "\<And>p c t. I t \<Longrightarrow> I (run p c t)" "I t"
  shows "I (snd (fire_loop front drop_front due run p b t))"
  using assms(3)
proof (induction b arbitrary: p t)
  case (Suc b)
  have "I (exec_callback (run p) c (drop_front t))" for c
    using Suc.prems assms(1,2) by (simp add: exec_callback_def split: option.split)
  with Suc show ?case by (simp add: Let_def case_prod_beta split: option.split)
qed simp

lemma tick_keeps:
  assumes "\<And>t. I t \<Longrightarrow> I (pop_timer t)" "\<And>p c t. I t \<Longrightarrow> I (run p c t)" "I t"
  shows "I (tick now run t)" "I (snd (get_next_tick now now' run t))"
proof -
  show "I (tick now run t)" unfolding tick_eq by (rule fire_loop_keeps) (use assms in auto)
  then show "I (snd (get_next_tick now now' run t))" by (simp add: get_next_tick_def Let_def split: list.split)
qed

text \<open>What every operation keeps: the index map, and the order of the vector unless an alarm is moved to an earlier time.\<close>

definition history_inv :: "bool \<Rightarrow> 'c timer \<Rightarrow> bool" where
  "history_inv later t \<longleftrightarrow> ref_ok t \<and> (later \<longrightarrow> timer_inv t)"

lemma del_at_history: "history_inv later t \<Longrightarrow> i < length (tm_heap t) \<Longrightarrow> history_inv later (del_at i t)"
  using del_at_ref [of t i] by (auto simp: history_inv_def timer_inv_def)

lemma pop_history: "history_inv later t \<Longrightarrow> history_inv later (pop_timer t)"
  using del_at_history [of later t 0] by (simp add: pop_timer_def)

lemma timer_step_inv:
  assumes "timer_step later t t'" "history_inv later t"
  shows "history_inv later t'"
  using assms
proof (induction rule: timer_step.induct)
  case (step_add now ident timeout cb t t')
  with add_node_ref [OF _ step_add(1)] add_node_ok [OF _ add_node_Inr [OF step_add(1)], of t now timeout cb] show ?case
    by (auto simp: history_inv_def)
next
  case (step_adjust now ident timeout t t')
  with adjust_ref [OF _ step_adjust(1)] adjust_ok [of t ident _ _ now timeout] show ?case
    by (fastforce simp: history_inv_def)
next
  case (step_work run t ident)
  have "history_inv later (snd (run c u))" if "history_inv later u" for c u
    using step_work.IH [rule_format, of u c] that by (induction rule: rtranclp_induct) auto
  moreover have "ref_ok t" using step_work.prems by (simp add: history_inv_def)
  ultimately show ?case
    using do_work_keeps [where I = "history_inv later" and run = run and ident = ident, OF _ step_work.prems] del_at_history by blast
next
  case (step_tick run t now)
  have "history_inv later (run p c u)" if "history_inv later u" for p c u
    using step_tick.IH [rule_format, of u p c] that by (induction rule: rtranclp_induct) auto
  with tick_keeps(1) [where I = "history_inv later" and run = run, OF pop_history _ step_tick.prems] show ?case by blast
next
  case (step_next run t now now')
  have "history_inv later (run p c u)" if "history_inv later u" for p c u
    using step_next.IH [rule_format, of u p c] that by (induction rule: rtranclp_induct) auto
  with tick_keeps(2) [where I = "history_inv later" and run = run, OF pop_history _ step_next.prems] show ?case by blast
next
  case (step_clear t)
  then show ?case using clear_timer_ok [of t] by (simp add: history_inv_def timer_inv_def)
qed (auto intro: pop_history)

text \<open>A timer with a log of the callbacks that ran.\<close>

record 'c recorded_timer = "'c timer" +
  fired :: "'c list"

definition record_call :: "'c \<Rightarrow> ('c, 'z) recorded_timer_scheme \<Rightarrow> ('c, 'z) recorded_timer_scheme" where
  "record_call c t = t\<lparr>fired := fired t @ [c]\<rparr>"

lemma record_call_quiet [simp]:
  "timer_inv (record_call c t) = timer_inv t" "fired (record_call c t) = fired t @ [c]" "alarms (record_call c t) = alarms t"
  "tm_heap (record_call c t) = tm_heap t" "tm_ref (record_call c t) = tm_ref t"
  by (simp_all add: record_call_def timer_inv_def ref_ok_def ordered_def key_def alarms_def)

lemma pop_timer_fired:
  fixes t :: "('c, 'z) recorded_timer_scheme"
  assumes "timer_inv t"
  shows "fired (pop_timer t) = fired t"
proof -
  have "timer.more (pop_timer t) = timer.more t"
    using pop_timer_ok [OF assms] by (cases "tm_heap t") (simp_all add: pop_timer_def)
  then show ?thesis
    by (cases t; cases "pop_timer t") simp
qed

lemma fire_loop_log:
  fixes t :: "('c, 'z) recorded_timer_scheme"
  assumes run: "\<forall>p c t. timer_inv t \<longrightarrow> timer_inv (run p c t) \<and> fired (run p c t) = fired t @ [c]"
    and "timer_inv t" "fire_loop timer_front pop_timer due run p b t = (fs, t')"
  shows "fired t' = fired t @ List.map_filter (\<lambda>(i, e, c). c) fs"
  using assms(2,3)
proof (induction b arbitrary: p t fs)
  case 0
  then show ?case by (simp add: map_filter_simps)
next
  case (Suc b)
  show ?case
  proof (cases "timer_front t")
    case None
    with Suc.prems show ?thesis by (simp add: map_filter_simps)
  next
    case (Some r)
    obtain i e c where r: "r = (i, e, c)" by (metis surj_pair)
    show ?thesis
    proof (cases "due p e")
      case False
      with Suc.prems Some r show ?thesis by (simp add: map_filter_simps)
    next
      case True
      let ?t1 = "exec_callback (run p) c (pop_timer t)"
      obtain fs' where fs': "fire_loop timer_front pop_timer due run (p + 1) b ?t1 = (fs', t')"
          "fs = (i, e, c) # fs'"
        using Suc.prems(2) Some r True by (auto simp: Let_def split: prod.splits)
      have "timer_inv ?t1" "fired ?t1 = fired t @ (case c of None \<Rightarrow> [] | Some x \<Rightarrow> [x])"
        using pop_timer_inv [OF Suc.prems(1)] pop_timer_fired [OF Suc.prems(1)] run
        by (auto simp: exec_callback_def split: option.split)
      with Suc.IH [OF _ fs'(1)] fs'(2) show ?thesis
        by (simp add: map_filter_simps split: option.split)
    qed
  qed
qed

lemma ms_count_lower: "- (1000000 * 2 ^ 31) < d \<Longrightarrow> - (2 ^ 31) \<le> ms_count d"
  using zdiv_mono1 [of "- d" "1000000 * 2 ^ 31" 1000000]
  by (auto simp: ms_count_def intro: order_trans [OF _ pos_imp_zdiv_nonneg_iff [THEN iffD2]])

lemma ms_count_max: "m \<le> ms_count d \<Longrightarrow> 1000000 * max 0 m \<le> max 0 d"
  by (auto simp: ms_count_def max_def split: if_splits)

lemma to_int32_le: "- (2 ^ 31) \<le> x \<Longrightarrow> to_int32 x \<le> x"
  using zmod_le_nonneg_dividend [of "x + 2 ^ 31" "2 ^ 32"] by (simp add: to_int32_def)

section \<open>Properties of the timer\<close>

text \<open>
  C11: every history of the public operations, in which callbacks may use the timer themselves, keeps the map \<open>_ref\<close> exact: it
  holds an index for precisely the ids in the vector, and the index is right. If \<open>Adjust\<close> never moves an alarm to an
  earlier time in the history, the vector is also a binary heap by expiry (otherwise it need not be, see
  \<open>adjust_earlier_is_missed\<close>).
\<close>

theorem timer_history_inv:
  assumes "(timer_step later)\<^sup>*\<^sup>* empty_timer t"
  shows "(\<forall>i k. tm_ref t i = Some k \<longleftrightarrow> k < length (tm_heap t) \<and> tn_id (tm_heap t ! k) = i)
    \<and> (later \<longrightarrow> (\<forall>k. 0 < k \<and> k < length (tm_heap t) \<longrightarrow>
            tn_expires (tm_heap t ! ((k - 1) div 2)) \<le> tn_expires (tm_heap t ! k)))"
proof -
  from assms have "history_inv later t"
  proof (induction rule: rtranclp_induct)
    case base
    have "timer_inv (empty_timer :: 'a timer)" by simp
    then show ?case by (simp add: history_inv_def timer_inv_def)
  qed (blast intro: timer_step_inv)
  then show ?thesis
    by (simp add: history_inv_def timer_inv_def ref_ok_def ordered_def key_def)
qed

theorem timer_history_inv_witness:
  "\<exists>t. (timer_step True)\<^sup>*\<^sup>* (empty_timer :: nat timer) t \<and> length (tm_heap t) = 2 \<and> tm_ref t 7 = Some 0
     \<and> tn_expires (tm_heap t ! 0) \<le> tn_expires (tm_heap t ! 1)"
proof -
  let ?t1 = "push_node 0 5 9 (Some 0) (empty_timer :: nat timer)"
  obtain t where t: "add_node 0 7 3 (Some 1) ?t1 = Inr t" "length (tm_heap t) = 2" "tm_ref t 7 = Some 0"
    by (simp add: add_node_def push_node_def empty_timer_def sift_up_def sift_up_loop.simps
        node_less_def MS_def swap_node_def Let_def)
  have "add_node 0 5 9 (Some 0) (empty_timer :: nat timer) = Inr ?t1"
    by (simp add: add_node_def push_node_def empty_timer_def sift_up_def sift_up_loop.simps)
  with t have run: "(timer_step True)\<^sup>*\<^sup>* (empty_timer :: nat timer) t"
    by (meson r_into_rtranclp rtranclp_trans step_add)
  have "0 < (1::nat) \<and> 1 < length (tm_heap t)" using t(2) by simp
  with timer_history_inv [OF run] have "tn_expires (tm_heap t ! ((1 - 1) div 2)) \<le> tn_expires (tm_heap t ! 1)"
    by blast
  with t run show ?thesis by auto
qed


text \<open>
  \<open>Add\<close> sets exactly one alarm, whether the id is new or known: every other alarm stays as it
  was, and the id is due the given number of milliseconds from now with the new callback.
\<close>

theorem add_sets_alarm:
  assumes "timer_inv t" "0 \<le> ident"
  shows "\<exists>t'. add_node now ident timeout cb t = Inr t' \<and> timer_inv t'
     \<and> alarms t' = (alarms t)(ident \<mapsto> (now + 1000000 * timeout, cb))"
  using add_node_ok [OF assms, of now timeout cb] by (auto simp: MS_def mult.commute)

theorem add_sets_alarm_witness:
  "\<exists>t'. add_node 100 3 2 (Some ''cb'') (empty_timer :: string timer) = Inr t' \<and> timer_inv t'
     \<and> alarms t' = [3 \<mapsto> (2000100, Some ''cb'')]"
  using add_sets_alarm [of "empty_timer :: string timer" 3 100 2 "Some ''cb''"] by simp

text \<open>
  C16: \<open>Tick\<close> with callbacks that leave the timer alone and are recorded when they run. It fires at most 100 alarms, in
  order of expiry, each less than a millisecond before it expires at the earliest; it removes exactly these from the
  timer and runs the callback of each, once and in this order; and if it stopped before the limit then no alarm that is
  left expires within the next millisecond.
\<close>

theorem tick_fires_due:
  fixes t :: "('c, 'z) recorded_timer_scheme"
  assumes "timer_inv t"
    and "\<forall>p c t. timer_inv t \<longrightarrow> timer_inv (run p c t) \<and> alarms (run p c t) = alarms t \<and> fired (run p c t) = fired t @ [c]"
  shows "\<exists>fs. length fs \<le> 100 \<and> sorted (map (\<lambda>f. fst (snd f)) fs) \<and> distinct (map fst fs)
     \<and> alarms (tick now run t) = alarms t |` (- fst ` set fs) \<and> timer_inv (tick now run t)
     \<and> fired (tick now run t) = fired t @ List.map_filter (\<lambda>(i, e, c). c) fs
     \<and> (\<forall>k < length fs. alarms t (fst (fs ! k)) = Some (snd (fs ! k))
            \<and> fst (snd (fs ! k)) - now k < 1000000)
     \<and> (length fs < 100 \<longrightarrow> (\<forall>i e c. alarms (tick now run t) i = Some (e, c) \<longrightarrow> now (length fs) + 1000000 \<le> e))"
proof -
  have quiet: "\<forall>p c t. timer_inv t \<longrightarrow> timer_inv (run p c t) \<and> alarms (run p c t) = alarms t" using assms(2) by blast
  obtain fs t' where fs: "fire_loop timer_front pop_timer (\<lambda>p e. e - now p < 1000000) run 0 100 t = (fs, t')"
    by fastforce
  have t': "tick now run t = t'"
    using tick_loop_fires [of 0 now run t] fs by (simp add: tick_def)
  have ran: "fired t' = fired t @ List.map_filter (\<lambda>(i, e, c). c) fs"
    by (rule fire_loop_log [OF _ assms(1) fs]) (use assms(2) in blast)
  note q = heap_clock.fire_loop_quiet [OF quiet assms(1) fs]
  note q1 = q [THEN conjunct1] and q2 = q [THEN conjunct2, THEN conjunct1]
    and q3 = q [THEN conjunct2, THEN conjunct2, THEN conjunct1]
    and q4 = q [THEN conjunct2, THEN conjunct2, THEN conjunct2, THEN conjunct1]
    and q5 = q [THEN conjunct2, THEN conjunct2, THEN conjunct2, THEN conjunct2, THEN conjunct1]
    and q6 = q [THEN conjunct2, THEN conjunct2, THEN conjunct2, THEN conjunct2, THEN conjunct2, THEN conjunct1]
    and q7 = q [THEN conjunct2, THEN conjunct2, THEN conjunct2, THEN conjunct2, THEN conjunct2,
                THEN conjunct2, THEN conjunct1]
  have late: "now (length fs) + 1000000 \<le> e" if "length fs < 100" "alarms t' i = Some (e, c)" for i e c
  proof -
    have "timer_front t' \<noteq> None"
      using heap_clock.front_None [of t'] q that(2) by auto
    then obtain i' e' c' where f: "timer_front t' = Some (i', e', c')" by (metis not_Some_eq surj_pair)
    with q that(1) have "\<not> e' - now (length fs) < 1000000" by auto
    moreover have "e' \<le> e"
      using heap_clock.front_least [OF _ f that(2)] q by blast
    ultimately show ?thesis by simp
  qed
  have "alarms t (fst (fs ! k)) = Some (snd (fs ! k))" if "k < length fs" for k
    using q6 nth_mem [OF that] by (auto simp: case_prod_beta)
  moreover have "fst (snd (fs ! k)) - now k < 1000000" if "k < length fs" for k
    using q7 that by simp
  ultimately have at: "\<forall>k < length fs. alarms t (fst (fs ! k)) = Some (snd (fs ! k))
            \<and> fst (snd (fs ! k)) - now k < 1000000"
    by blast
  show ?thesis
    unfolding t'
  proof (intro exI conjI)
    show "length fs < 100 \<longrightarrow> (\<forall>i e c. alarms t' i = Some (e, c) \<longrightarrow> now (length fs) + 1000000 \<le> e)"
      using late by blast
  qed (fact q1 q2 q3 q4 q5 ran at)+
qed

theorem tick_fires_due_witness:
  "\<exists>t :: string recorded_timer. alarms t = [3 \<mapsto> (2000000, Some ''cb'')] \<and> fired t = []
     \<and> fired (tick (\<lambda>p. 5000000) (\<lambda>p. record_call) t) = [''cb''] \<and> alarms (tick (\<lambda>p. 5000000) (\<lambda>p. record_call) t) = Map.empty"
proof -
  let ?t = "\<lparr>tm_heap = [\<lparr>tn_id = 3, tn_expires = 2000000, tn_callback = Some ''cb''\<rparr>], tm_ref = [3 \<mapsto> 0], fired = []\<rparr>
      :: string recorded_timer"
  let ?run = "\<lambda>p :: nat. record_call :: string \<Rightarrow> string recorded_timer \<Rightarrow> string recorded_timer"
  have t: "timer_inv ?t" "alarms ?t = [3 \<mapsto> (2000000, Some ''cb'')]"
    by (auto simp: timer_inv_def ref_ok_def ordered_def alarms_def)
  have "\<forall>p c t. timer_inv t \<longrightarrow> timer_inv (?run p c t) \<and> alarms (?run p c t) = alarms t \<and> fired (?run p c t) = fired t @ [c]"
    by simp
  from tick_fires_due [OF t(1) this, of "\<lambda>p. 5000000"] obtain fs where
    fs: "distinct (map fst fs)" "alarms (tick (\<lambda>p. 5000000) ?run ?t) = alarms ?t |` (- fst ` set fs)"
    "fired (tick (\<lambda>p. 5000000) ?run ?t) = List.map_filter (\<lambda>(i, e, c). c) fs"
    "\<forall>k < length fs. alarms ?t (fst (fs ! k)) = Some (snd (fs ! k))" "length fs \<le> 100"
    "length fs < 100 \<longrightarrow> (\<forall>i e c. alarms (tick (\<lambda>p. 5000000) ?run ?t) i = Some (e, c) \<longrightarrow> 5000000 + 1000000 \<le> e)"
    by auto
  have all: "f = (3, 2000000, Some ''cb'')" if mem: "f \<in> set fs" for f
  proof -
    from mem have "\<exists>k. k < length fs \<and> fs ! k = f" by (simp add: in_set_conv_nth)
    then obtain k where "k < length fs" "fs ! k = f" by blast
    with fs(4) have "alarms ?t (fst f) = Some (snd f)" by blast
    then show ?thesis unfolding t(2) by (cases f) (auto split: if_splits)
  qed
  then have "fs = [] \<or> fs = [(3, 2000000, Some ''cb'')]"
  proof (cases fs)
    case (Cons f gs)
    have "gs = []"
    proof (rule ccontr)
      assume "gs \<noteq> []"
      then obtain g hs where "gs = g # hs" by (cases gs) auto
      with Cons all [of f] all [of g] fs(1) show False by simp
    qed
    with Cons all [of f] show ?thesis by simp
  qed simp
  moreover have "fs \<noteq> []"
  proof
    assume "fs = []"
    with fs(6) have "\<forall>i e c. alarms ?t i = Some (e, c) \<longrightarrow> 5000000 + 1000000 \<le> e" unfolding fs(2) by simp
    then show False unfolding t(2) by (auto dest: spec [of _ 3])
  qed
  ultimately have "fs = [(3, 2000000, Some ''cb'')]" by blast
  with fs(2,3) have "fired (tick (\<lambda>p. 5000000) ?run ?t) = [''cb'']" "alarms (tick (\<lambda>p. 5000000) ?run ?t) = Map.empty"
    unfolding t(2) by (simp_all add: map_filter_simps restrict_map_def fun_eq_iff)
  with t(2) show ?thesis by (intro exI [of _ ?t]) simp
qed

text \<open>
  Adding timers and ticking once they are due runs the callbacks of all of them, each once and
  sorted by expiry, provided there are fewer than 100 of them; nothing is left.
\<close>

theorem add_then_tick_sorts:
  fixes t0 :: "'c recorded_timer"
  assumes "timer_inv t0" "alarms t0 = Map.empty" "fired t0 = []"
    and "set_all add_node reqs t0 = Inr t" "\<forall>(now, i, ms, cb) \<in> set reqs. 0 \<le> i"
    and "card (dom (requested reqs)) < 100"
    and "\<forall>p i e c. requested reqs i = Some (e, c) \<longrightarrow> e \<le> clock p"
  shows "\<exists>fs. map_of (map (\<lambda>(i, e, c). (i, (e, c))) fs) = requested reqs
     \<and> sorted (map (\<lambda>f. fst (snd f)) fs)
     \<and> fired (tick clock (\<lambda>p. record_call) t) = List.map_filter (\<lambda>(i, e, c). c) fs
     \<and> alarms (tick clock (\<lambda>p. record_call) t) = Map.empty"
proof -
  obtain fs t' where fs: "fire_loop timer_front pop_timer (\<lambda>p e. e - clock p < 1000000) (\<lambda>p. record_call) 0 100 t = (fs, t')"
    by fastforce
  have t': "tick clock (\<lambda>p. record_call) t = t'"
    using tick_loop_fires [of 0 clock "\<lambda>p. record_call" t] fs by (simp add: tick_def)
  have due: "\<forall>p i e c. requested reqs i = Some (e, c) \<longrightarrow> e - clock p < 1000000"
    using assms(7) by (smt (verit))
  have "\<forall>(p :: nat) c (t :: 'c recorded_timer). timer_inv t \<longrightarrow> timer_inv (record_call c t) \<and> alarms (record_call c t) = alarms t"
    by simp
  note all = heap_clock.set_all_then_fire [OF this assms(1,2,5,4,6) due fs]
  have t: "timer_inv t \<and> fired t = []"
    using assms(1,3,4)
  proof (induction reqs arbitrary: t0)
    case (Cons r reqs)
    obtain now i ms cb where r: "r = (now, i, ms, cb)" by (metis surj_pair)
    with Cons.prems(3) obtain t1 where t1: "add_node now i ms cb t0 = Inr t1" "set_all add_node reqs t1 = Inr t"
      by auto
    have "timer_inv t1 \<and> timer.more t1 = timer.more t0"
      using add_node_ok [OF Cons.prems(1) add_node_Inr [OF t1(1)], of now ms cb] t1(1) by auto
    then have "timer_inv t1" "fired t1 = fired t0" by (cases t0; cases t1; simp)+
    with Cons.IH [OF _ _ t1(2)] Cons.prems(2) show ?case by simp
  qed simp
  with fire_loop_log [OF _ _ fs] have "fired t' = List.map_filter (\<lambda>(i, e, c). c) fs" by simp
  with all t' show ?thesis by blast
qed

theorem add_then_tick_sorts_witness:
  "\<exists>t fs. set_all add_node [(0, 7, 5, Some ''b''), (0, 2, 3, Some ''a'')]
        \<lparr>tm_heap = [], tm_ref = Map.empty, fired = []\<rparr> = Inr t
     \<and> fired (tick (\<lambda>p. 9000000) (\<lambda>p. record_call) t) = List.map_filter (\<lambda>(i, e, c). c) fs
     \<and> sorted (map (\<lambda>f. fst (snd f)) fs)
     \<and> map_of (map (\<lambda>(i, e, c). (i, (e, c))) fs) = requested [(0, 7, 5, Some ''b''), (0, 2, 3, Some ''a'')]"
proof -
  let ?t0 = "\<lparr>tm_heap = [], tm_ref = Map.empty, fired = []\<rparr> :: string recorded_timer"
  let ?reqs = "[(0, 7, 5, Some ''b''), (0, 2, 3, Some ''a'')] :: (int \<times> int \<times> int \<times> string option) list"
  have t0: "timer_inv ?t0" "alarms ?t0 = Map.empty"
    by (simp_all add: timer_inv_def ref_ok_def ordered_def alarms_def)
  have ids: "\<forall>(now, i, ms, cb) \<in> set ?reqs. 0 \<le> i" by simp
  have "card (dom (requested ?reqs)) \<le> card {2, 7 :: int}"
    by (intro card_mono) (auto simp: requested_def split: if_splits)
  then have few: "card (dom (requested ?reqs)) < 100" by simp
  have due: "\<forall>p i e c. requested ?reqs i = Some (e, c) \<longrightarrow> e \<le> (\<lambda>p::nat. 9000000) p"
    by (auto simp: requested_def MS_def split: if_splits)
  obtain t where t: "set_all add_node ?reqs ?t0 = Inr t"
    using heap_clock.set_all_ok [OF t0(1) ids] by blast
  from add_then_tick_sorts [OF t0 _ t ids few due] t show ?thesis by auto
qed

text \<open>
  C28: the timeout that the event loop gets. \<open>GetNextTick\<close> answers -1 exactly when no alarm is left;
  otherwise the answer is not negative, and sleeping that many milliseconds never oversleeps the
  first alarm. (The truncation of the count to \<open>int\<close> is harmless unless an alarm is overdue
  by more than \<open>2\<^sup>31\<close> milliseconds.)
\<close>

theorem next_tick_bound:
  assumes "timer_inv t" "\<forall>p c t. timer_inv t \<longrightarrow> timer_inv (run p c t)"
    and "get_next_tick now now' run t = (ms, t')"
    and "\<forall>i e c. alarms t' i = Some (e, c) \<longrightarrow> now' - 1000000 * 2 ^ 31 < e"
  shows "timer_inv t' \<and> (ms = -1 \<longleftrightarrow> alarms t' = Map.empty) \<and> -1 \<le> ms
     \<and> (\<forall>i e c. alarms t' i = Some (e, c) \<longrightarrow> now' + 1000000 * ms \<le> max now' e)"
proof -
  have inv: "timer_inv (tick now run t)" using tick_inv assms(1,2) by blast
  show ?thesis
  proof (cases "tm_heap (tick now run t)")
    case Nil
    then have "ms = -1" "t' = tick now run t" "alarms t' = Map.empty"
      using assms(3) by (auto simp: get_next_tick_def Let_def alarms_empty_iff)
    then show ?thesis using inv by simp
  next
    case (Cons node ns)
    let ?d = "tn_expires node - now'"
    have t': "t' = tick now run t" "ms = max 0 (to_int32 (ms_count ?d))"
      using assms(3) Cons by (auto simp: get_next_tick_def Let_def)
    note front = front_least [OF inv Cons]
    have "- (1000000 * 2 ^ 31) < ?d"
      using assms(4) front(1) t'(1) by fastforce
    then have "- (2 ^ 31) \<le> ms_count ?d"
      by (rule ms_count_lower)
    then have "to_int32 (ms_count ?d) \<le> ms_count ?d"
      by (rule to_int32_le)
    then have "1000000 * ms \<le> max 0 ?d"
      unfolding t'(2) by (rule ms_count_max)
    then have least: "now' + 1000000 * ms \<le> max now' (tn_expires node)"
      by (auto simp: max_def split: if_splits)
    have "now' + 1000000 * ms \<le> max now' e" if "alarms t' i = Some (e, c)" for i e c
      using least front(2) [of i e c] that t'(1) by auto
    moreover have "alarms t' \<noteq> Map.empty"
      using Cons t'(1) by (simp add: alarms_empty_iff)
    moreover have "0 \<le> ms" using t'(2) by simp
    ultimately show ?thesis
      using inv t'(1) by auto
  qed
qed

theorem next_tick_bound_witness:
  "\<exists>t ms t'. get_next_tick (\<lambda>p. 0) 0 (\<lambda>p c t. t) (t :: string timer) = (ms, t')
     \<and> alarms t = [3 \<mapsto> (7000000, Some ''cb'')] \<and> -1 \<le> ms
     \<and> (ms = -1 \<longleftrightarrow> alarms t' = Map.empty)"
proof -
  let ?t = "\<lparr>tm_heap = [\<lparr>tn_id = 3, tn_expires = 7000000, tn_callback = Some ''cb''\<rparr>], tm_ref = [3 \<mapsto> 0]\<rparr> :: string timer"
  have inv: "timer_inv ?t"
    by (auto simp: timer_inv_def ref_ok_def ordered_def)
  have al: "alarms ?t = [3 \<mapsto> (7000000, Some ''cb'')]" by (simp add: alarms_def)
  have g: "get_next_tick (\<lambda>p. 0) 0 (\<lambda>p c t. t) ?t = (7, ?t)"
    by (simp add: get_next_tick_def tick_def tick_loop.simps ms_count_def to_int32_def)
  have "\<forall>i e c. alarms ?t i = Some (e, c) \<longrightarrow> 0 - 1000000 * 2 ^ 31 < e"
    unfolding al by simp
  from next_tick_bound [OF inv _ g this]
  have "-1 \<le> (7::int)" "((7::int) = -1 \<longleftrightarrow> alarms ?t = Map.empty)" by blast+
  with al g show ?thesis by blast
qed

text \<open>
  \<open>Adjust\<close> is right for the use it is made for, moving an alarm to a later time: it changes the
  expiry of this alarm, keeps its callback and every other alarm, and keeps the heap order.
\<close>

theorem adjust_later:
  assumes "timer_inv t" "alarms t ident = Some (e, c)" "e \<le> now + MS timeout"
  shows "\<exists>t'. adjust now ident timeout t = Inr t' \<and> timer_inv t'
     \<and> alarms t' = (alarms t)(ident \<mapsto> (now + MS timeout, c))"
  using adjust_ok [OF assms] by blast

theorem adjust_later_witness:
  "\<exists>t t'. alarms t = [3 \<mapsto> (2000000, Some ''cb'')] \<and> adjust 0 3 5 (t :: string timer) = Inr t'
     \<and> alarms t' = [3 \<mapsto> (5000000, Some ''cb'')]"
proof -
  obtain t :: "string timer" where t: "timer_inv t" "alarms t = [3 \<mapsto> (2000000, Some ''cb'')]"
    using add_node_ok [of "empty_timer :: string timer" 3 0 2 "Some ''cb''"] by (auto simp: MS_def)
  from adjust_later [OF t(1), of 3 2000000 "Some ''cb''" 0 5] t(2) show ?thesis
    by (auto simp: MS_def)
qed

text \<open>
  Moving an alarm to an earlier time with \<open>Adjust\<close> breaks the heap, because it only sifts down:
  here an alarm due at 1 ms stays behind one due at 10 ms, and a \<open>Tick\<close> at 5 ms fires nothing.
\<close>

theorem adjust_earlier_is_missed:
  "\<exists>t t'. (timer_step True)\<^sup>*\<^sup>* (empty_timer :: nat timer) t \<and> adjust 0 2 1 t = Inr t'
     \<and> alarms t' 2 = Some (1000000, Some 9) \<and> \<not> timer_inv t'
     \<and> tick (\<lambda>p. 5000000) (\<lambda>p c t. t) t' = t'"
proof -
  let ?n1 = "\<lparr>tn_id = 1, tn_expires = 10000000, tn_callback = Some 8\<rparr> :: nat timer_node"
  let ?n2 = "\<lparr>tn_id = 2, tn_expires = 20000000, tn_callback = Some 9\<rparr> :: nat timer_node"
  let ?t1 = "\<lparr>tm_heap = [?n1], tm_ref = [1 \<mapsto> 0]\<rparr> :: nat timer"
  let ?t2 = "\<lparr>tm_heap = [?n1, ?n2], tm_ref = [1 \<mapsto> 0, 2 \<mapsto> 1]\<rparr> :: nat timer"
  let ?t3 = "\<lparr>tm_heap = [?n1, ?n2\<lparr>tn_expires := 1000000\<rparr>], tm_ref = [1 \<mapsto> 0, 2 \<mapsto> 1]\<rparr> :: nat timer"
  have "add_node 0 1 10 (Some 8) empty_timer = Inr ?t1" "add_node 0 2 20 (Some 9) ?t1 = Inr ?t2"
    by (simp_all add: add_node_def push_node_def empty_timer_def sift_up_def sift_up_loop.simps
        node_less_def MS_def Let_def)
  then have "(timer_step True)\<^sup>*\<^sup>* empty_timer ?t2"
    by (meson r_into_rtranclp rtranclp_trans step_add)
  moreover have "adjust 0 2 1 ?t2 = Inr ?t3"
    by (simp add: adjust_def Let_def MS_def sift_down_def sift_down_loop.simps)
  moreover have "alarms ?t3 2 = Some (1000000, Some 9)"
    by (simp add: alarms_def)
  moreover have "\<not> timer_inv ?t3"
    by (auto simp: timer_inv_def ordered_def key_def intro!: exI [of _ "1::nat"])
  moreover have "tick (\<lambda>p. 5000000) (\<lambda>p c t. t) ?t3 = ?t3"
    by (simp add: tick_def tick_loop.simps ms_count_def)
  ultimately show ?thesis by blast
qed

end
