(* ===== verification/Timer_Manager.thy ===== *)
theory Timer_Manager
  imports Heap_Timer
begin

text \<open>
  The timer manager of \<open>include/task/timer/heaptimer.h\<close> and \<open>src/task/timer/heaptimer.cpp\<close>
  (class \<open>v0::TimerManager\<close>): timers with repetition, and timers under a business key (the server
  uses the client descriptor), of which a later one replaces the earlier one.
\<close>

section \<open>State\<close>

text \<open>
  The closures that the manager puts into the heap: \<open>Task\<close> is the lambda of \<open>DoSchedule\<close>,
  \<open>Keyed_task\<close> the lambda of \<open>DoScheduleWithKey\<close> around the one of \<open>ScheduleWithKey\<close>. Both hold the
  timer id; \<open>'u\<close> is what the user scheduled.
\<close>

datatype 'u task =
    Task int 'u
  | Keyed_task int int 'u

record 'u timer_manager = "'u task timer" +
  mg_closed :: bool
  mg_next_id :: int
  mg_repeats :: "int \<rightharpoonup> int \<times> int"
  mg_key_id :: "int \<rightharpoonup> int"

definition new_manager :: "'u timer_manager" where
  "new_manager = \<lparr>tm_heap = [], tm_ref = Map.empty, mg_closed = False, mg_next_id = 0,
     mg_repeats = Map.empty, mg_key_id = Map.empty\<rparr>"

section \<open>Operations\<close>

definition next_timer_id ::
  "('u, 'z) timer_manager_scheme \<Rightarrow> (int \<times> ('u, 'z) timer_manager_scheme) outcome" where
  "next_timer_id m =
     (if mg_next_id m = int int_max then Inl Undefined_Behaviour
      else Inr (mg_next_id m, m\<lparr>mg_next_id := mg_next_id m + 1\<rparr>))"

definition note_repeat ::
  "int \<Rightarrow> int \<Rightarrow> int \<Rightarrow> ('u, 'z) timer_manager_scheme \<Rightarrow> ('u, 'z) timer_manager_scheme" where
  "note_repeat i repeats ms m =
     (if repeats \<noteq> 0 then m\<lparr>mg_repeats := (mg_repeats m)(i \<mapsto> (repeats, ms))\<rparr> else m)"

text \<open>An empty \<open>std::function\<close> is \<open>None\<close>.\<close>

definition do_schedule ::
  "int \<Rightarrow> int \<Rightarrow> int \<Rightarrow> 'u option \<Rightarrow> ('u, 'z) timer_manager_scheme \<Rightarrow>
   ('u, 'z) timer_manager_scheme outcome" where
  "do_schedule now ms repeats cb m =
     (case cb of
        None \<Rightarrow> Inr m
      | Some u \<Rightarrow> and_then (next_timer_id m) (\<lambda>(i, m1).
          add_node now i ms (Some (Task i u)) (note_repeat i repeats ms m1)))"

definition do_schedule_with_key ::
  "int \<Rightarrow> int \<Rightarrow> int \<Rightarrow> int \<Rightarrow> 'u option \<Rightarrow> ('u, 'z) timer_manager_scheme \<Rightarrow>
   ('u, 'z) timer_manager_scheme outcome" where
  "do_schedule_with_key now k ms repeats cb m =
     (case cb of
        None \<Rightarrow> Inr m
      | Some u \<Rightarrow> and_then (next_timer_id m) (\<lambda>(i, m1).
          add_node now i ms (Some (Keyed_task i k u))
            (note_repeat i repeats ms (m1\<lparr>mg_key_id := (mg_key_id m1)(k \<mapsto> i)\<rparr>))))"

definition cancel_by_key ::
  "int \<Rightarrow> ('u, 'z) timer_manager_scheme \<Rightarrow> ('u, 'z) timer_manager_scheme" where
  "cancel_by_key k m =
     (case mg_key_id m k of
        None \<Rightarrow> m
      | Some i \<Rightarrow>
          let m1 = (case tm_ref m i of
                      None \<Rightarrow> m
                    | Some index \<Rightarrow> if index < length (tm_heap m) then del_at index m else m)
          in m1\<lparr>mg_repeats := (mg_repeats m1)(i := None), mg_key_id := (mg_key_id m1)(k := None)\<rparr>)"

definition schedule_with_key ::
  "int \<Rightarrow> int \<Rightarrow> int \<Rightarrow> int \<Rightarrow> 'u \<Rightarrow> ('u, 'z) timer_manager_scheme \<Rightarrow>
   ('u, 'z) timer_manager_scheme outcome" where
  "schedule_with_key now k ms repeats u m =
     do_schedule_with_key now k ms repeats (Some u) (cancel_by_key k m)"

text \<open>
  Putting a closure back into the heap from inside itself. The ids that the manager hands out are
  not negative, so the assertion in \<open>Add\<close> holds (\<open>add_again_ok\<close> below) and the first branch is never
  taken.
\<close>

definition add_again ::
  "int \<Rightarrow> int \<Rightarrow> int \<Rightarrow> 'u task \<Rightarrow> ('u, 'z) timer_manager_scheme \<Rightarrow> ('u, 'z) timer_manager_scheme" where
  "add_again now i period task m =
     (case add_node now i period (Some task) m of Inl _ \<Rightarrow> m | Inr m' \<Rightarrow> m')"

text \<open>
  The part of the closures that follows the user's callback: count the repetition down and
  register again, or clean up. The last argument is what the branch for a finished repetition and
  the one for a timer without repetition do besides.
\<close>

definition repeat_task ::
  "int \<Rightarrow> int \<Rightarrow> 'u task \<Rightarrow> ('u, 'z) timer_manager_scheme \<Rightarrow>
   (('u, 'z) timer_manager_scheme \<Rightarrow> ('u, 'z) timer_manager_scheme) \<Rightarrow> ('u, 'z) timer_manager_scheme" where
  "repeat_task now i task m finish =
     (case mg_repeats m i of
        None \<Rightarrow> finish m
      | Some (remaining, period) \<Rightarrow>
          if 0 < remaining then
            if remaining - 1 = 0 then
              finish (m\<lparr>mg_repeats := (mg_repeats m)(i := None)\<rparr>)
            else add_again now i period task
                   (m\<lparr>mg_repeats := (mg_repeats m)(i \<mapsto> (remaining - 1, period))\<rparr>)
          else if remaining = -1 then add_again now i period task m
          else m)"

text \<open>
  Running a closure: \<open>user\<close> is the user's code, which may call the manager; it returns
  (\<open>True\<close>) or throws (\<open>False\<close>). An exception skips the rest of the closure and is swallowed.
\<close>

fun run_task ::
  "int \<Rightarrow> ('u \<Rightarrow> ('u, 'z) timer_manager_scheme \<Rightarrow> bool \<times> ('u, 'z) timer_manager_scheme) \<Rightarrow>
   'u task \<Rightarrow> ('u, 'z) timer_manager_scheme \<Rightarrow> ('u, 'z) timer_manager_scheme" where
  "run_task now user (Task i u) m =
     (let (ok, m1) = user u m in
      if \<not> ok then m1 else repeat_task now i (Task i u) m1 (\<lambda>m. m))"
| "run_task now user (Keyed_task i k u) m =
     (let (ok, m1) = (if mg_key_id m k \<noteq> None then user u m else (True, m)) in
      if \<not> ok then m1
      else if mg_key_id m1 k \<noteq> Some i then m1
      else repeat_task now i (Keyed_task i k u) m1 (\<lambda>m. m\<lparr>mg_key_id := (mg_key_id m)(k := None)\<rparr>))"

text \<open>A round of \<open>Tick\<close> runs at most one closure, which adds its timer again at most once: \<open>now p\<close> is the reading in that \<open>Add\<close>.\<close>

definition manager_update ::
  "(nat \<Rightarrow> int) \<Rightarrow> (nat \<Rightarrow> int) \<Rightarrow>
   ('u \<Rightarrow> ('u, 'z) timer_manager_scheme \<Rightarrow> bool \<times> ('u, 'z) timer_manager_scheme) \<Rightarrow>
   ('u, 'z) timer_manager_scheme \<Rightarrow> ('u, 'z) timer_manager_scheme" where
  "manager_update clock now user m = tick clock (\<lambda>p. run_task (now p) user) m"

definition manager_stop :: "('u, 'z) timer_manager_scheme \<Rightarrow> ('u, 'z) timer_manager_scheme" where
  "manager_stop m = m\<lparr>mg_closed := True\<rparr>"

definition manager_next_tick ::
  "(nat \<Rightarrow> int) \<Rightarrow> int \<Rightarrow> (nat \<Rightarrow> int) \<Rightarrow>
   ('u \<Rightarrow> ('u, 'z) timer_manager_scheme \<Rightarrow> bool \<times> ('u, 'z) timer_manager_scheme) \<Rightarrow>
   ('u, 'z) timer_manager_scheme \<Rightarrow> int \<times> ('u, 'z) timer_manager_scheme" where
  "manager_next_tick clock now' now user m = get_next_tick clock now' (\<lambda>p. run_task (now p) user) m"

section \<open>Invariant\<close>

text \<open>
  Every alarm belongs to a closure with its own id, below the next id; the alarm of a keyed
  closure is the one the key is mapped to; two keys have different timers.
\<close>

fun own_task :: "(int \<rightharpoonup> int) \<Rightarrow> int \<Rightarrow> 'u task option \<Rightarrow> bool" where
  "own_task keys i None \<longleftrightarrow> False"
| "own_task keys i (Some (Task j u)) \<longleftrightarrow> j = i"
| "own_task keys i (Some (Keyed_task j k u)) \<longleftrightarrow> j = i \<and> keys k = Some i"

definition tables_ok ::
  "(int \<rightharpoonup> int \<times> 'u task option) \<Rightarrow> int \<Rightarrow> (int \<rightharpoonup> int \<times> int) \<Rightarrow> (int \<rightharpoonup> int) \<Rightarrow> bool" where
  "tables_ok al next_id reps keys \<longleftrightarrow> 0 \<le> next_id
     \<and> (\<forall>i e c. al i = Some (e, c) \<longrightarrow> 0 \<le> i \<and> i < next_id \<and> own_task keys i c)
     \<and> dom reps \<subseteq> {0..<next_id} \<and> ran keys \<subseteq> {0..<next_id}
     \<and> (\<forall>k k' i. keys k = Some i \<and> keys k' = Some i \<longrightarrow> k = k')"

definition manager_inv :: "('u, 'z) timer_manager_scheme \<Rightarrow> bool" where
  "manager_inv m \<longleftrightarrow> timer_inv m
     \<and> tables_ok (alarms m) (mg_next_id m) (mg_repeats m) (mg_key_id m)"

lemma own_task_drop_key:
  "own_task keys i c \<Longrightarrow> keys k \<noteq> Some i \<Longrightarrow> own_task (keys(k := None)) i c"
  by (induction keys i c rule: own_task.induct) auto

lemma tables_okI:
  assumes "0 \<le> n"
    and "\<And>i e c. al i = Some (e, c) \<Longrightarrow> 0 \<le> i \<and> i < n \<and> own_task keys i c"
    and "\<And>i r. reps i = Some r \<Longrightarrow> 0 \<le> i \<and> i < n"
    and "\<And>k i. keys k = Some i \<Longrightarrow> 0 \<le> i \<and> i < n"
    and "\<And>k k' i. keys k = Some i \<Longrightarrow> keys k' = Some i \<Longrightarrow> k = k'"
  shows "tables_ok al n reps keys"
  unfolding tables_ok_def
  using assms(1,2,5) by (auto simp: dom_def ran_def dest: assms(3,4))

lemma tables_okD:
  assumes "tables_ok al n reps keys"
  shows "0 \<le> n"
    and "al i = Some (e, c) \<Longrightarrow> 0 \<le> i \<and> i < n \<and> own_task keys i c"
    and "reps i = Some r \<Longrightarrow> 0 \<le> i \<and> i < n"
    and "keys k = Some i \<Longrightarrow> 0 \<le> i \<and> i < n"
    and "keys k = Some i \<Longrightarrow> keys k' = Some i \<Longrightarrow> k = k'"
proof -
  show "0 \<le> n" "al i = Some (e, c) \<Longrightarrow> 0 \<le> i \<and> i < n \<and> own_task keys i c"
    "keys k = Some i \<Longrightarrow> keys k' = Some i \<Longrightarrow> k = k'"
    using assms by (auto simp: tables_ok_def)
  show "0 \<le> i \<and> i < n" if "reps i = Some r"
    using assms domI [of reps i r, OF that] by (auto simp: tables_ok_def)
  show "0 \<le> i \<and> i < n" if "keys k = Some i"
    using assms ranI [of keys k i, OF that] by (auto simp: tables_ok_def)
qed

lemma tables_fewer:
  assumes "tables_ok al n reps keys" "al' \<subseteq>\<^sub>m al"
  shows "tables_ok al' n reps keys"
proof (rule tables_okI)
  fix i e c assume "al' i = Some (e, c)"
  with assms(2) have "al i = Some (e, c)" by (force simp: map_le_def)
  with tables_okD(2) [OF assms(1)] show "0 \<le> i \<and> i < n \<and> own_task keys i c" by blast
qed (use tables_okD [OF assms(1)] in blast)+

lemma tables_set:
  assumes "tables_ok al n reps keys" "0 \<le> i" "i < n" "own_task keys i c"
  shows "tables_ok (al(i \<mapsto> (e, c))) n reps keys"
proof (rule tables_okI)
  fix j e' c' assume "(al(i \<mapsto> (e, c))) j = Some (e', c')"
  with assms(2-4) tables_okD(2) [OF assms(1)] show "0 \<le> j \<and> j < n \<and> own_task keys j c'"
    by (auto split: if_splits)
qed (use tables_okD [OF assms(1)] in blast)+

lemma tables_next:
  assumes "tables_ok al n reps keys"
  shows "tables_ok al (n + 1) reps keys"
proof (rule tables_okI)
  have step: "0 \<le> i \<and> i < n \<Longrightarrow> 0 \<le> i \<and> i < n + 1" for i :: int by simp
  note D = tables_okD [OF assms]
  show "0 \<le> n + 1" using D(1) by simp
  show "0 \<le> i \<and> i < n + 1 \<and> own_task keys i c" if "al i = Some (e, c)" for i e c
    using D(2) [OF that] step by blast
  show "0 \<le> i \<and> i < n + 1" if "reps i = Some r" for i r
    using D(3) [OF that] step by blast
  show "0 \<le> i \<and> i < n + 1" if "keys k = Some i" for i k
    using D(4) [OF that] step by blast
  show "k = k'" if "keys k = Some i" "keys k' = Some i" for k k' i
    using D(5) [OF that] .
qed

lemma tables_repeats:
  assumes "tables_ok al n reps keys" "v = None \<or> (0 \<le> i \<and> i < n)"
  shows "tables_ok al n (reps(i := v)) keys"
proof (rule tables_okI)
  fix j r assume "(reps(i := v)) j = Some r"
  with assms(2) tables_okD(3) [OF assms(1)] show "0 \<le> j \<and> j < n"
    by (auto split: if_splits)
qed (use tables_okD [OF assms(1)] in blast)+

lemma own_task_new_key:
  "own_task keys i c \<Longrightarrow> keys k = None \<Longrightarrow> own_task (keys(k \<mapsto> j)) i c"
  by (induction keys i c rule: own_task.induct) auto

lemma tables_new_key:
  assumes t: "tables_ok al n reps keys" and k: "keys k = None" and i: "0 \<le> i" "i < n" "i \<notin> ran keys"
  shows "tables_ok al n reps (keys(k \<mapsto> i))"
proof (rule tables_okI)
  show "0 \<le> j \<and> j < n \<and> own_task (keys(k \<mapsto> i)) j c" if "al j = Some (e, c)" for j e c
    using tables_okD(2) [OF t that] own_task_new_key [where keys = keys, OF _ k] by blast
  show "0 \<le> j \<and> j < n" if "(keys(k \<mapsto> i)) k' = Some j" for k' j
    using that i tables_okD(4) [OF t, of k' j] by (auto split: if_splits)
  show "k1 = k2" if "(keys(k \<mapsto> i)) k1 = Some j" "(keys(k \<mapsto> i)) k2 = Some j" for k1 k2 j
    using that i(3) tables_okD(5) [OF t, of k1 j k2] by (auto simp: ran_def split: if_splits)
qed (use tables_okD [OF t] in blast)+

lemma tables_drop_key:
  assumes t: "tables_ok al n reps keys" and k: "keys k = Some i" "al i = None"
  shows "tables_ok al n reps (keys(k := None))"
proof (rule tables_okI)
  fix j e c assume a: "al j = Some (e, c)"
  with k(2) have "j \<noteq> i" by auto
  with tables_okD(2) [OF t a] k(1) show "0 \<le> j \<and> j < n \<and> own_task (keys(k := None)) j c"
    by (auto intro: own_task_drop_key)
next
  show "k1 = k2" if "(keys(k := None)) k1 = Some j" "(keys(k := None)) k2 = Some j" for k1 k2 j
    using that tables_okD(5) [OF t, of k1 j k2] by (auto split: if_splits)
next
  show "0 \<le> j \<and> j < n" if "(keys(k := None)) k' = Some j" for k' j
    using that tables_okD(4) [OF t, of k' j] by (auto split: if_splits)
qed (use tables_okD [OF t] in blast)+

lemma tables_fresh:
  assumes "tables_ok al n reps keys"
  shows "al n = None" "n \<notin> ran keys" "reps n = None"
proof -
  show "al n = None"
    using tables_okD(2) [OF assms, of n] by (cases "al n") force+
  show "n \<notin> ran keys"
    using tables_okD(4) [OF assms, of _ n] by (auto simp: ran_def)
  show "reps n = None"
    using tables_okD(3) [OF assms, of n] by (cases "reps n") force+
qed

lemma manager_fields [simp]:
  "alarms (mg_closed_update f m) = alarms m" "alarms (mg_next_id_update g m) = alarms m"
  "alarms (mg_repeats_update h m) = alarms m" "alarms (mg_key_id_update h' m) = alarms m"
  "timer_inv (mg_closed_update f m) = timer_inv m" "timer_inv (mg_next_id_update g m) = timer_inv m"
  "timer_inv (mg_repeats_update h m) = timer_inv m" "timer_inv (mg_key_id_update h' m) = timer_inv m"
  by (simp_all add: alarms_def timer_inv_def ref_ok_def ordered_def key_def)

lemma same_more:
  fixes m m' :: "('u, 'z) timer_manager_scheme"
  assumes "timer.more m' = timer.more m"
  shows "mg_closed m' = mg_closed m \<and> mg_next_id m' = mg_next_id m \<and> mg_repeats m' = mg_repeats m
     \<and> mg_key_id m' = mg_key_id m \<and> timer_manager.more m' = timer_manager.more m"
  using assms by (cases m; cases m') simp

text \<open>Setting an alarm of the manager, and removing one.\<close>

lemma manager_add_node:
  fixes m :: "('u, 'z) timer_manager_scheme"
  assumes "timer_inv m" "0 \<le> i"
  obtains m' where "add_node now i ms cb m = Inr m'" "timer_inv m'"
    "alarms m' = (alarms m)(i \<mapsto> (now + MS ms, cb))" "mg_next_id m' = mg_next_id m"
    "mg_repeats m' = mg_repeats m" "mg_key_id m' = mg_key_id m" "timer_manager.more m' = timer_manager.more m"
proof -
  obtain m' where m': "add_node now i ms cb m = Inr m'" "timer_inv m'"
    "alarms m' = (alarms m)(i \<mapsto> (now + MS ms, cb))" "timer.more m' = timer.more m"
    using add_node_ok [OF assms] by blast
  with same_more [OF m'(4)] that show thesis by blast
qed

lemma manager_pop_inv:
  fixes m :: "('u, 'z) timer_manager_scheme"
  assumes "manager_inv m"
  shows "manager_inv (pop_timer m)"
proof (cases "tm_heap m")
  case Nil
  with assms show ?thesis by (simp add: pop_timer_def)
next
  case (Cons node ns)
  from assms have "timer_inv m" by (simp add: manager_inv_def)
  note pop = pop_timer_ok [OF this Cons]
  then have "alarms (pop_timer m) \<subseteq>\<^sub>m alarms m" by (auto simp: map_le_def)
  with pop same_more [of "pop_timer m" m] assms show ?thesis
    by (auto simp: manager_inv_def intro: tables_fewer)
qed

lemma add_again_ok:
  fixes m :: "('u, 'z) timer_manager_scheme"
  assumes "manager_inv m" "0 \<le> i" "i < mg_next_id m" "own_task (mg_key_id m) i (Some c)"
  shows "add_node now i period (Some c) m = Inr (add_again now i period c m)
     \<and> manager_inv (add_again now i period c m)
     \<and> alarms (add_again now i period c m) = (alarms m)(i \<mapsto> (now + MS period, Some c))
     \<and> mg_next_id (add_again now i period c m) = mg_next_id m
     \<and> mg_repeats (add_again now i period c m) = mg_repeats m
     \<and> mg_key_id (add_again now i period c m) = mg_key_id m
     \<and> timer_manager.more (add_again now i period c m) = timer_manager.more m"
proof -
  have "timer_inv m" using assms(1) by (simp add: manager_inv_def)
  from manager_add_node [OF this assms(2), of now period "Some c"] obtain m' where
    m': "add_node now i period (Some c) m = Inr m'" "timer_inv m'"
    "alarms m' = (alarms m)(i \<mapsto> (now + MS period, Some c))" "mg_next_id m' = mg_next_id m"
    "mg_repeats m' = mg_repeats m" "mg_key_id m' = mg_key_id m" "timer_manager.more m' = timer_manager.more m"
    by blast
  have "manager_inv m'"
    using assms m'(2) unfolding manager_inv_def m'(3-6) by (blast intro: tables_set)
  with m' show ?thesis by (simp add: add_again_def)
qed

subsection \<open>Scheduling\<close>

lemma do_schedule_ok:
  fixes m :: "('u, 'z) timer_manager_scheme"
  assumes inv: "manager_inv m" and "mg_next_id m \<noteq> int int_max"
  obtains m' where "do_schedule now ms repeats (Some u) m = Inr m'" "manager_inv m'"
    "alarms m' = (alarms m)(mg_next_id m \<mapsto> (now + MS ms, Some (Task (mg_next_id m) u)))"
    "mg_next_id m' = mg_next_id m + 1" "mg_key_id m' = mg_key_id m"
    "mg_repeats m' = (if repeats = 0 then mg_repeats m else (mg_repeats m)(mg_next_id m \<mapsto> (repeats, ms)))"
    "timer_manager.more m' = timer_manager.more m"
proof -
  let ?i = "mg_next_id m"
  let ?m1 = "note_repeat ?i repeats ms (m\<lparr>mg_next_id := ?i + 1\<rparr>)"
  have t: "timer_inv m" "tables_ok (alarms m) ?i (mg_repeats m) (mg_key_id m)"
    using inv by (auto simp: manager_inv_def)
  then have i: "0 \<le> ?i" by (simp add: tables_ok_def)
  have m1: "timer_inv ?m1" "alarms ?m1 = alarms m" "mg_next_id ?m1 = ?i + 1" "mg_key_id ?m1 = mg_key_id m"
    "mg_repeats ?m1 = (if repeats = 0 then mg_repeats m else (mg_repeats m)(?i \<mapsto> (repeats, ms)))"
    "timer_manager.more ?m1 = timer_manager.more m"
    using t(1) by (simp_all add: note_repeat_def)
  from manager_add_node [OF m1(1) i, of now ms "Some (Task ?i u)"] obtain m' where
    m': "add_node now ?i ms (Some (Task ?i u)) ?m1 = Inr m'" "timer_inv m'"
    "alarms m' = (alarms ?m1)(?i \<mapsto> (now + MS ms, Some (Task ?i u)))" "mg_next_id m' = mg_next_id ?m1"
    "mg_repeats m' = mg_repeats ?m1" "mg_key_id m' = mg_key_id ?m1"
    "timer_manager.more m' = timer_manager.more ?m1" by blast
  have "tables_ok (alarms m') (?i + 1) (mg_repeats m') (mg_key_id m')"
    unfolding m'(3,5,6) m1
    using i tables_next [OF t(2)] by (intro tables_set) (auto intro!: tables_repeats)
  with m' m1 have "manager_inv m'" by (simp add: manager_inv_def)
  moreover have "do_schedule now ms repeats (Some u) m = Inr m'"
    using m'(1) assms(2) by (simp add: do_schedule_def next_timer_id_def)
  ultimately show thesis
    using m' m1 that by simp
qed

lemma cancel_by_key_ok:
  fixes m :: "('u, 'z) timer_manager_scheme"
  assumes inv: "manager_inv m"
  shows "manager_inv (cancel_by_key k m) \<and> mg_key_id (cancel_by_key k m) = (mg_key_id m)(k := None)
     \<and> alarms (cancel_by_key k m)
         = (case mg_key_id m k of None \<Rightarrow> alarms m | Some i \<Rightarrow> (alarms m)(i := None))
     \<and> mg_repeats (cancel_by_key k m)
         = (case mg_key_id m k of None \<Rightarrow> mg_repeats m | Some i \<Rightarrow> (mg_repeats m)(i := None))
     \<and> mg_next_id (cancel_by_key k m) = mg_next_id m
     \<and> timer_manager.more (cancel_by_key k m) = timer_manager.more m"
proof (cases "mg_key_id m k")
  case None
  then have "(mg_key_id m)(k := None) = mg_key_id m" by auto
  with None inv show ?thesis by (simp add: cancel_by_key_def)
next
  case (Some i)
  have t: "timer_inv m" "tables_ok (alarms m) (mg_next_id m) (mg_repeats m) (mg_key_id m)"
    using inv by (auto simp: manager_inv_def)
  then have ref: "ref_ok m" by (simp add: timer_inv_def)
  define m1 where "m1 = (case tm_ref m i of
                      None \<Rightarrow> m
                    | Some index \<Rightarrow> if index < length (tm_heap m) then del_at index m else m)"
  have m1: "timer_inv m1 \<and> alarms m1 = (alarms m)(i := None) \<and> timer.more m1 = timer.more m"
  proof (cases "tm_ref m i")
    case None
    then have "alarms m i = None" using ref by (simp add: alarms_None)
    with None t(1) show ?thesis by (simp add: m1_def fun_upd_idem)
  next
    case (Some idx)
    then have "idx < length (tm_heap m)" "tn_id (tm_heap m ! idx) = i"
      using ref_okD(2) [OF ref] by auto
    with del_at_ok [OF t(1), of idx] Some show ?thesis by (simp add: m1_def)
  qed
  note same = same_more [of m1 m]
  have eq: "cancel_by_key k m = m1\<lparr>mg_repeats := (mg_repeats m1)(i := None), mg_key_id := (mg_key_id m1)(k := None)\<rparr>"
    using Some by (simp add: cancel_by_key_def m1_def Let_def)
  have "tables_ok ((alarms m)(i := None)) (mg_next_id m) ((mg_repeats m)(i := None)) ((mg_key_id m)(k := None))"
    using Some by (intro tables_drop_key [where i = i] tables_repeats tables_fewer [OF t(2)]) (auto simp: map_le_def)
  then show ?thesis
    unfolding eq using m1 same Some by (simp add: manager_inv_def)
qed

lemma do_schedule_with_key_ok:
  fixes m :: "('u, 'z) timer_manager_scheme"
  assumes inv: "manager_inv m" and "mg_next_id m \<noteq> int int_max" and free: "mg_key_id m k = None"
  obtains m' where "do_schedule_with_key now k ms repeats (Some u) m = Inr m'" "manager_inv m'"
    "alarms m' = (alarms m)(mg_next_id m \<mapsto> (now + MS ms, Some (Keyed_task (mg_next_id m) k u)))"
    "mg_next_id m' = mg_next_id m + 1" "mg_key_id m' = (mg_key_id m)(k \<mapsto> mg_next_id m)"
    "mg_repeats m' = (if repeats = 0 then mg_repeats m else (mg_repeats m)(mg_next_id m \<mapsto> (repeats, ms)))"
    "timer_manager.more m' = timer_manager.more m"
proof -
  let ?i = "mg_next_id m"
  let ?m1 = "note_repeat ?i repeats ms (m\<lparr>mg_next_id := ?i + 1, mg_key_id := (mg_key_id m)(k \<mapsto> ?i)\<rparr>)"
  have t: "timer_inv m" "tables_ok (alarms m) ?i (mg_repeats m) (mg_key_id m)"
    using inv by (auto simp: manager_inv_def)
  then have i: "0 \<le> ?i" by (simp add: tables_ok_def)
  have m1: "timer_inv ?m1" "alarms ?m1 = alarms m" "mg_next_id ?m1 = ?i + 1"
    "mg_key_id ?m1 = (mg_key_id m)(k \<mapsto> ?i)"
    "mg_repeats ?m1 = (if repeats = 0 then mg_repeats m else (mg_repeats m)(?i \<mapsto> (repeats, ms)))"
    "timer_manager.more ?m1 = timer_manager.more m"
    using t(1) by (simp_all add: note_repeat_def)
  from manager_add_node [OF m1(1) i, of now ms "Some (Keyed_task ?i k u)"] obtain m' where
    m': "add_node now ?i ms (Some (Keyed_task ?i k u)) ?m1 = Inr m'" "timer_inv m'"
    "alarms m' = (alarms ?m1)(?i \<mapsto> (now + MS ms, Some (Keyed_task ?i k u)))" "mg_next_id m' = mg_next_id ?m1"
    "mg_repeats m' = mg_repeats ?m1" "mg_key_id m' = mg_key_id ?m1"
    "timer_manager.more m' = timer_manager.more ?m1" by blast
  have "tables_ok (alarms m) (?i + 1) (mg_repeats m) ((mg_key_id m)(k \<mapsto> ?i))"
    using i free tables_fresh [OF t(2)] by (intro tables_new_key tables_next t(2)) auto
  then have "tables_ok (alarms m') (?i + 1) (mg_repeats m') (mg_key_id m')"
    unfolding m'(3,5,6) m1 using i by (intro tables_set) (auto intro!: tables_repeats)
  with m' m1 have "manager_inv m'" by (simp add: manager_inv_def)
  moreover have "do_schedule_with_key now k ms repeats (Some u) m = Inr m'"
    using m'(1) assms(2) by (simp add: do_schedule_with_key_def next_timer_id_def)
  ultimately show thesis
    using m' m1 that by simp
qed


lemma schedule_with_key_ok:
  fixes m :: "('u, 'z) timer_manager_scheme"
  assumes inv: "manager_inv m" and "mg_next_id m \<noteq> int int_max"
  obtains m' where "schedule_with_key now k ms repeats u m = Inr m'" "manager_inv m'"
    "alarms m' = (case mg_key_id m k of None \<Rightarrow> alarms m | Some i \<Rightarrow> (alarms m)(i := None))
                   (mg_next_id m \<mapsto> (now + MS ms, Some (Keyed_task (mg_next_id m) k u)))"
    "mg_next_id m' = mg_next_id m + 1" "mg_key_id m' = (mg_key_id m)(k \<mapsto> mg_next_id m)"
    "timer_manager.more m' = timer_manager.more m"
proof -
  note c = cancel_by_key_ok [OF inv, of k]
  then have "mg_key_id (cancel_by_key k m) k = None" by simp
  with c assms(2) obtain m' where
    "do_schedule_with_key now k ms repeats (Some u) (cancel_by_key k m) = Inr m'" "manager_inv m'"
    "alarms m' = (alarms (cancel_by_key k m))(mg_next_id m \<mapsto> (now + MS ms, Some (Keyed_task (mg_next_id m) k u)))"
    "mg_next_id m' = mg_next_id m + 1" "mg_key_id m' = (mg_key_id (cancel_by_key k m))(k \<mapsto> mg_next_id m)"
    "timer_manager.more m' = timer_manager.more m"
    by (metis do_schedule_with_key_ok)
  with c that show thesis by (simp add: schedule_with_key_def)
qed

subsection \<open>Running a closure\<close>

text \<open>What the proofs need of the user's code: it keeps the invariant and never takes ids back.\<close>

definition user_ok :: "('u \<Rightarrow> ('u, 'z) timer_manager_scheme \<Rightarrow> bool \<times> ('u, 'z) timer_manager_scheme) \<Rightarrow> bool" where
  "user_ok user \<longleftrightarrow> (\<forall>u m. manager_inv m \<longrightarrow> manager_inv (snd (user u m)))"

lemma manager_inv_repeats:
  assumes "manager_inv m" "v = None \<or> (0 \<le> i \<and> i < mg_next_id m)"
  shows "manager_inv (m\<lparr>mg_repeats := (mg_repeats m)(i := v)\<rparr>)"
  using assms by (auto simp: manager_inv_def intro: tables_repeats)

lemma repeat_task_inv:
  assumes inv: "manager_inv m" and own: "own_task (mg_key_id m) i (Some task)"
    and finish: "\<And>m'. manager_inv m' \<Longrightarrow> mg_key_id m' = mg_key_id m \<Longrightarrow> alarms m' = alarms m \<Longrightarrow> manager_inv (finish m')"
  shows "manager_inv (repeat_task now i task m finish)"
proof (cases "mg_repeats m i")
  case None
  with inv finish show ?thesis by (simp add: repeat_task_def)
next
  case (Some r)
  obtain remaining period where r: "r = (remaining, period)" by fastforce
  have i: "0 \<le> i" "i < mg_next_id m"
    using Some inv tables_okD(3) by (fastforce simp: manager_inv_def)+
  have "manager_inv (finish (m\<lparr>mg_repeats := (mg_repeats m)(i := None)\<rparr>))"
    by (rule finish) (auto intro: manager_inv_repeats inv)
  moreover have "manager_inv (add_again now i period task (m\<lparr>mg_repeats := (mg_repeats m)(i \<mapsto> v)\<rparr>))" for v
    using add_again_ok [of "m\<lparr>mg_repeats := (mg_repeats m)(i \<mapsto> v)\<rparr>" i task now period] i own
      manager_inv_repeats [OF inv, of "Some v" i] by simp
  moreover have "manager_inv (add_again now i period task m)"
    using add_again_ok [OF inv i own] by blast
  ultimately show ?thesis
    using Some r inv by (simp add: repeat_task_def)
qed

text \<open>
  A closure that runs has been taken out of the heap, so no alarm has its id when its key is
  dropped; the condition on the user's code says that it cannot put that id back.
\<close>

definition no_revival ::
  "('u \<Rightarrow> ('u, 'z) timer_manager_scheme \<Rightarrow> bool \<times> ('u, 'z) timer_manager_scheme) \<Rightarrow> bool" where
  "no_revival user \<longleftrightarrow> (\<forall>u m i. manager_inv m \<longrightarrow> alarms m i = None \<longrightarrow> i < mg_next_id m \<longrightarrow>
      alarms (snd (user u m)) i = None)"

fun task_id :: "'u task \<Rightarrow> int" where
  "task_id (Task i u) = i"
| "task_id (Keyed_task i k u) = i"

lemma run_task_inv:
  assumes inv: "manager_inv m" and user: "user_ok user" "no_revival user"
    and gone: "alarms m (task_id c) = None" "task_id c < mg_next_id m"
  shows "manager_inv (run_task now user c m)"
proof (cases c)
  case (Task i u)
  obtain ok m1 where m1: "user u m = (ok, m1)" by fastforce
  then have "manager_inv m1" using user(1) inv by (metis snd_conv user_ok_def)
  then show ?thesis
    using m1 by (auto simp: Task intro: repeat_task_inv)
next
  case (Keyed_task i k u)
  obtain ok m1 where m1: "(if mg_key_id m k \<noteq> None then user u m else (True, m)) = (ok, m1)" by fastforce
  then have inv1: "manager_inv m1"
    using user(1) inv by (metis snd_conv user_ok_def)
  have "alarms m1 i = None"
    using m1 gone user(2) inv unfolding no_revival_def Keyed_task task_id.simps by (metis snd_conv)
  then have "manager_inv (repeat_task now i (Keyed_task i k u) m1
      (\<lambda>m. m\<lparr>mg_key_id := (mg_key_id m)(k := None)\<rparr>))" if "mg_key_id m1 k = Some i"
    using that inv1 by (intro repeat_task_inv) (auto simp: manager_inv_def intro!: tables_drop_key [where i = i])
  then show ?thesis
    using m1 inv1 by (auto simp: Keyed_task)
qed

section \<open>Histories of the manager\<close>

interpretation manager_clock: alarm_clock manager_inv alarms timer_front pop_timer
proof (unfold_locales, goal_cases)
  case (1 t)
  then show ?case using heap_clock.front_None by (auto simp: manager_inv_def)
next
  case (2 t i e c)
  then show ?case using heap_clock.front_Some by (auto simp: manager_inv_def)
next
  case (3 t i e c i' e' c')
  then have "timer_inv t" by (simp add: manager_inv_def)
  from heap_clock.front_least [OF this 3(2,3)] show ?case .
next
  case (4 t i e c)
  then have "timer_inv t" by (simp add: manager_inv_def)
  from heap_clock.drop_ok [OF this 4(2)] manager_pop_inv [OF 4(1)] show ?case by simp
qed

lemma pop_timer_tables:
  fixes m :: "('u, 'z) timer_manager_scheme"
  assumes "manager_inv m"
  shows "mg_next_id (pop_timer m) = mg_next_id m \<and> mg_repeats (pop_timer m) = mg_repeats m
     \<and> mg_key_id (pop_timer m) = mg_key_id m \<and> timer_manager.more (pop_timer m) = timer_manager.more m"
proof -
  have "timer.more (pop_timer m) = timer.more m"
    using pop_timer_ok [of m] assms by (cases "tm_heap m") (auto simp: pop_timer_def manager_inv_def)
  from same_more [OF this] show ?thesis by simp
qed

lemma own_task_id: "own_task keys i (Some c) \<Longrightarrow> task_id c = i"
  by (cases c) auto

lemma manager_update_inv:
  assumes inv: "manager_inv m" and user: "user_ok user" "no_revival user"
  shows "manager_inv (tick clock (\<lambda>p. run_task (now p) user) m)"
proof -
  have "manager_inv (run_task (now p) user c (pop_timer t))"
    if t: "manager_inv t" "timer_front t = Some (i, e, Some c)" for p t i e c
  proof -
    have "alarms t i = Some (e, Some c)" using manager_clock.front_Some t by blast
    then have i: "task_id c = i" "i < mg_next_id t"
      using t(1) tables_okD(2) own_task_id by (fastforce simp: manager_inv_def)+
    note pop = manager_clock.drop_ok [OF t] pop_timer_tables [OF t(1)]
    then show ?thesis
      using i by (intro run_task_inv user) auto
  qed
  then show ?thesis
    unfolding tick_eq
    using manager_clock.fire_loop_invar [where run = "\<lambda>p. run_task (now p) user", OF _ inv] by blast
qed

inductive manager_step ::
  "('u \<Rightarrow> 'u timer_manager \<Rightarrow> bool \<times> 'u timer_manager) \<Rightarrow> 'u timer_manager \<Rightarrow> 'u timer_manager \<Rightarrow> bool"
  for user where
  step_schedule: "do_schedule now ms repeats cb m = Inr m' \<Longrightarrow> manager_step user m m'"
| step_key: "schedule_with_key now k ms repeats u m = Inr m' \<Longrightarrow> manager_step user m m'"
| step_cancel: "manager_step user m (cancel_by_key k m)"
| step_update: "manager_step user m (manager_update clock now user m)"
| step_next_tick: "manager_next_tick clock now' now user m = (ms, m') \<Longrightarrow> manager_step user m m'"
| step_stop: "manager_step user m (manager_stop m)"

lemma next_timer_id_Inr: "next_timer_id m = Inr r \<Longrightarrow> mg_next_id m \<noteq> int int_max"
  by (auto simp: next_timer_id_def split: if_splits)

lemma cancel_by_key_inv: "manager_inv m \<Longrightarrow> manager_inv (cancel_by_key k m)"
  using cancel_by_key_ok [of m k] by blast

lemma manager_stop_inv: "manager_inv m \<Longrightarrow> manager_inv (manager_stop m)"
  by (simp add: manager_inv_def manager_stop_def)

lemma manager_step_inv:
  assumes "manager_step user m m'" "manager_inv m" "user_ok user" "no_revival user"
  shows "manager_inv m'"
  using assms(1)
proof (cases rule: manager_step.cases)
  case (step_schedule now ms repeats cb)
  show ?thesis
  proof (cases cb)
    case None
    with step_schedule assms(2) show ?thesis by (simp add: do_schedule_def)
  next
    case (Some u)
    with step_schedule have "mg_next_id m \<noteq> int int_max"
      by (auto simp: do_schedule_def dest: next_timer_id_Inr)
    with step_schedule Some assms(2) show ?thesis
      by (metis do_schedule_ok sum.inject(2))
  qed
next
  case (step_key now k ms repeats u)
  then have "mg_next_id (cancel_by_key k m) \<noteq> int int_max"
    by (auto simp: schedule_with_key_def do_schedule_with_key_def dest: next_timer_id_Inr)
  with cancel_by_key_ok [OF assms(2), of k] have "mg_next_id m \<noteq> int int_max" by simp
  with step_key assms(2) show ?thesis
    by (metis schedule_with_key_ok sum.inject(2))
next
  case (step_next_tick clock now' now ms)
  then have "m' = tick clock (\<lambda>p. run_task (now p) user) m"
    by (auto simp: manager_next_tick_def get_next_tick_def Let_def split: list.splits)
  with assms(2-4) manager_update_inv show ?thesis by blast
qed (use assms cancel_by_key_inv manager_update_inv manager_stop_inv in \<open>auto simp: manager_update_def\<close>)

lemma new_manager_inv: "manager_inv new_manager"
  by (simp add: manager_inv_def new_manager_def timer_inv_def ref_ok_def ordered_def tables_ok_def alarms_def)

lemma manager_reachable_inv:
  assumes "(manager_step user)\<^sup>*\<^sup>* new_manager m" "user_ok user" "no_revival user"
  shows "manager_inv m"
  using assms(1)
  by (induction rule: rtranclp_induct) (use assms(2,3) new_manager_inv manager_step_inv in blast)+

lemma cancelling_user_ok:
  "user_ok (\<lambda>k (m :: (int, 'b) timer_manager_scheme). (True, cancel_by_key k m))"
  "no_revival (\<lambda>k (m :: (int, 'b) timer_manager_scheme). (True, cancel_by_key k m))"
proof -
  show "user_ok (\<lambda>k (m :: (int, 'b) timer_manager_scheme). (True, cancel_by_key k m))"
    by (simp add: user_ok_def cancel_by_key_inv)
  have "alarms (cancel_by_key k m) i = None" if "manager_inv m" "alarms m i = None"
    for k i and m :: "(int, 'b) timer_manager_scheme"
    using cancel_by_key_ok [OF that(1), of k] that(2) by (simp split: option.split)
  then show "no_revival (\<lambda>k (m :: (int, 'b) timer_manager_scheme). (True, cancel_by_key k m))"
    by (simp add: no_revival_def)
qed

lemma new_manager_fields [simp]:
  "alarms new_manager = Map.empty" "mg_next_id new_manager = 0" "mg_repeats new_manager = Map.empty"
  "mg_key_id new_manager = Map.empty"
  by (simp_all add: new_manager_def alarms_def)

section \<open>Properties of the manager\<close>

text \<open>
  C26: whatever is scheduled, cancelled and fired in whatever order, with callbacks that themselves
  use the manager, there is at most one pending timer per business key, and it is the one the
  key map names: a superseded timer is never left behind in the heap.
\<close>

theorem one_timer_per_key:
  assumes "user_ok user" "no_revival user" "(manager_step user)\<^sup>*\<^sup>* new_manager m"
    and "alarms m i = Some (e, Some (Keyed_task a k u))"
  shows "a = i \<and> mg_key_id m k = Some i
     \<and> (\<forall>j e' b u'. alarms m j = Some (e', Some (Keyed_task b k u')) \<longrightarrow> j = i)"
proof -
  have t: "tables_ok (alarms m) (mg_next_id m) (mg_repeats m) (mg_key_id m)"
    using manager_reachable_inv [OF assms(3,1,2)] by (simp add: manager_inv_def)
  from tables_okD(2) [OF t assms(4)] have "a = i \<and> mg_key_id m k = Some i" by simp
  moreover have "j = i" if "alarms m j = Some (e', Some (Keyed_task b k u'))" for j e' b u'
    using tables_okD(2) [OF t that] calculation by simp
  ultimately show ?thesis by blast
qed

theorem one_timer_per_key_witness:
  "\<exists>m :: int timer_manager.
     (manager_step (\<lambda>k m. (True, cancel_by_key k m)))\<^sup>*\<^sup>* new_manager m
     \<and> alarms m 1 = Some (9000000, Some (Keyed_task 1 5 8)) \<and> mg_key_id m 5 = Some 1"
proof -
  let ?user = "\<lambda>k (m :: int timer_manager). (True, cancel_by_key k m)"
  have id0: "mg_next_id new_manager \<noteq> int int_max" by (simp add: new_manager_def int_max_def)
  obtain m1 :: "int timer_manager" where m1: "schedule_with_key 0 5 3 0 7 new_manager = Inr m1" "manager_inv m1"
    "mg_next_id m1 = mg_next_id (new_manager :: int timer_manager) + 1"
    by (rule schedule_with_key_ok [OF new_manager_inv id0, of 0 5 3 0 7])
  then have id1: "mg_next_id m1 = 1" by (simp add: new_manager_def)
  then have "mg_next_id m1 \<noteq> int int_max" by (simp add: int_max_def)
  then obtain m2 where m2: "schedule_with_key 0 5 9 0 8 m1 = Inr m2"
    "alarms m2 = (case mg_key_id m1 5 of None \<Rightarrow> alarms m1 | Some i \<Rightarrow> (alarms m1)(i := None))
                   (mg_next_id m1 \<mapsto> (0 + MS 9, Some (Keyed_task (mg_next_id m1) 5 8)))"
    by (rule schedule_with_key_ok [OF m1(2)])
  have al: "alarms m2 1 = Some (9000000, Some (Keyed_task 1 5 8))"
    by (simp add: m2(2) id1 MS_def)
  have "manager_step ?user new_manager m1" "manager_step ?user m1 m2"
    using m1(1) m2(1) by (auto intro: step_key)
  then have run: "(manager_step ?user)\<^sup>*\<^sup>* new_manager m2" by auto
  from one_timer_per_key [OF cancelling_user_ok run al] run al show ?thesis by blast
qed

text \<open>
  \<open>ScheduleWithKey\<close> replaces: the pending timer of the key, if any, is removed, one new timer with
  the next id is set, all other timers stay, and the key maps to the new one.
\<close>

theorem schedule_with_key_replaces:
  assumes "manager_inv m" "mg_next_id m < int int_max"
  shows "\<exists>m'. schedule_with_key now k ms repeats u m = Inr m' \<and> manager_inv m'
     \<and> mg_key_id m' = (mg_key_id m)(k \<mapsto> mg_next_id m)
     \<and> alarms m' = (case mg_key_id m k of None \<Rightarrow> alarms m | Some i \<Rightarrow> (alarms m)(i := None))
                   (mg_next_id m \<mapsto> (now + MS ms, Some (Keyed_task (mg_next_id m) k u)))"
proof -
  have "mg_next_id m \<noteq> int int_max" using assms(2) by simp
  from schedule_with_key_ok [OF assms(1) this, of now k ms repeats u] show ?thesis by blast
qed

theorem schedule_with_key_replaces_witness:
  "\<exists>m' :: string timer_manager. schedule_with_key 0 5 3 0 ''cb'' new_manager = Inr m'
     \<and> alarms m' = [0 \<mapsto> (3000000, Some (Keyed_task 0 5 ''cb''))] \<and> mg_key_id m' = [5 \<mapsto> 0]"
  using schedule_with_key_replaces [OF new_manager_inv, of 0 5 3 0 "''cb''"]
  by (simp add: int_max_def MS_def) blast

text \<open>
  \<open>CancelByKey\<close> removes the timer of the key from the heap together with its repetition and the
  mapping, and touches nothing else; afterwards no pending timer has this key.
\<close>

theorem cancel_removes_timer:
  assumes "manager_inv m"
  shows "manager_inv (cancel_by_key k m) \<and> mg_key_id (cancel_by_key k m) = (mg_key_id m)(k := None)
     \<and> alarms (cancel_by_key k m)
         = (case mg_key_id m k of None \<Rightarrow> alarms m | Some i \<Rightarrow> (alarms m)(i := None))
     \<and> (\<forall>i e j u. alarms (cancel_by_key k m) i \<noteq> Some (e, Some (Keyed_task j k u)))"
proof -
  note c = cancel_by_key_ok [OF assms, of k]
  then have "manager_inv (cancel_by_key k m)" by blast
  then have t: "tables_ok (alarms (cancel_by_key k m)) (mg_next_id (cancel_by_key k m))
      (mg_repeats (cancel_by_key k m)) (mg_key_id (cancel_by_key k m))"
    by (simp add: manager_inv_def)
  have "alarms (cancel_by_key k m) i \<noteq> Some (e, Some (Keyed_task j k u))" for i e j u
    using tables_okD(2) [OF t, of i e "Some (Keyed_task j k u)"] c by auto
  with c show ?thesis by blast
qed

theorem cancel_removes_timer_witness:
  "manager_inv (cancel_by_key 5 (new_manager :: nat timer_manager))
   \<and> mg_key_id (cancel_by_key 5 (new_manager :: nat timer_manager)) = Map.empty"
  using cancel_removes_timer [where m = "new_manager :: nat timer_manager" and k = 5, OF new_manager_inv]
  by simp


section \<open>Repetition\<close>

text \<open>A manager with a log of the user callbacks that ran.\<close>

record 'u logged_manager = "'u timer_manager" +
  ran :: "'u list"

definition log_user :: "'u \<Rightarrow> ('u, 'z) logged_manager_scheme \<Rightarrow> bool \<times> ('u, 'z) logged_manager_scheme" where
  "log_user u m = (True, m\<lparr>ran := ran m @ [u]\<rparr>)"

lemma ran_fields [simp]:
  "alarms (ran_update f m) = alarms m" "timer_inv (ran_update f m) = timer_inv m"
  "manager_inv (ran_update f m) = manager_inv m"
  by (simp_all add: alarms_def timer_inv_def ref_ok_def ordered_def key_def manager_inv_def)

lemma same_ran:
  fixes m m' :: "('u, 'z) logged_manager_scheme"
  assumes "timer_manager.more m' = timer_manager.more m"
  shows "ran m' = ran m"
  using assms by (cases m; cases m') simp

text \<open>The only timer is \<open>i\<close>, due at \<open>e\<close>, with repetition \<open>r\<close>; or there is none.\<close>

definition lone :: "int \<Rightarrow> int \<Rightarrow> int \<Rightarrow> int \<Rightarrow> 'u \<Rightarrow> ('u, 'z) logged_manager_scheme \<Rightarrow> bool" where
  "lone i e r ms u m \<longleftrightarrow> manager_inv m \<and> alarms m = [i \<mapsto> (e, Some (Task i u))] \<and> mg_repeats m = [i \<mapsto> (r, ms)]"

definition spent :: "('u, 'z) logged_manager_scheme \<Rightarrow> bool" where
  "spent m \<longleftrightarrow> manager_inv m \<and> alarms m = Map.empty \<and> mg_repeats m = Map.empty"

lemma spent_update: "spent m \<Longrightarrow> manager_update clock now user m = m"
proof -
  assume "spent m"
  then have "tm_heap m = []" by (simp add: spent_def alarms_empty_iff)
  then show ?thesis by (simp add: manager_update_def tick_def tick_loop.simps)
qed

lemma lone_update:
  fixes m :: "('u, 'z) logged_manager_scheme"
  assumes m: "lone i e r ms u m" and due: "e \<le> T" and r: "0 < r \<or> r = -1" and ms: "1 \<le> ms"
  defines "m' \<equiv> manager_update (\<lambda>p. T) (\<lambda>p. T) log_user m"
  shows "(if r = 1 then spent m' else lone i (T + MS ms) (if r = -1 then -1 else r - 1) ms u m')
    \<and> ran m' = ran m @ [u]"
proof -
  have inv: "manager_inv m" and al: "alarms m = [i \<mapsto> (e, Some (Task i u))]" and rep: "mg_repeats m = [i \<mapsto> (r, ms)]"
    using m by (auto simp: lone_def)
  obtain i' e' c' where f: "timer_front m = Some (i', e', c')"
    using manager_clock.front_None [OF inv] al by (metis fun_upd_same not_Some_eq option.distinct(1) surj_pair)
  then have front: "timer_front m = Some (i, e, Some (Task i u))"
    using manager_clock.front_Some [OF inv f] al by (auto split: if_splits)
  let ?m1 = "pop_timer m"
  note pop = manager_clock.drop_ok [OF inv front] pop_timer_tables [OF inv]
  define m2 where "m2 = ?m1\<lparr>ran := ran ?m1 @ [u]\<rparr>"
  have m2: "manager_inv m2" "alarms m2 = Map.empty" "mg_repeats m2 = [i \<mapsto> (r, ms)]"
    "ran m2 = ran m @ [u]" "mg_key_id m2 = mg_key_id m"
    using pop al rep same_ran [of ?m1 m] by (simp_all add: m2_def)
  have i: "0 \<le> i" "i < mg_next_id m2"
    using m2(1,3) tables_okD(3) by (fastforce simp: manager_inv_def)+
  let ?t = "exec_callback (run_task T log_user) (Some (Task i u)) ?m1"
  have t: "?t = repeat_task T i (Task i u) m2 (\<lambda>m. m)"
    by (simp add: exec_callback_def log_user_def m2_def)
  have outcome: "(if r = 1 then spent ?t else lone i (T + MS ms) (if r = -1 then -1 else r - 1) ms u ?t)
    \<and> ran ?t = ran m @ [u]"
  proof -
    let ?drop = "m2\<lparr>mg_repeats := (mg_repeats m2)(i := None)\<rparr>"
    have drop: "spent ?drop" "ran ?drop = ran m @ [u]"
      using m2 manager_inv_repeats [OF m2(1), of None i] by (auto simp: spent_def)
    have again: "lone i (T + MS ms) v ms u (add_again T i ms (Task i u) (m2\<lparr>mg_repeats := (mg_repeats m2)(i \<mapsto> (v, ms))\<rparr>))
       \<and> ran (add_again T i ms (Task i u) (m2\<lparr>mg_repeats := (mg_repeats m2)(i \<mapsto> (v, ms))\<rparr>)) = ran m @ [u]" for v
    proof -
      let ?m3 = "m2\<lparr>mg_repeats := (mg_repeats m2)(i \<mapsto> (v, ms))\<rparr>"
      have "manager_inv ?m3" using manager_inv_repeats [OF m2(1)] i by blast
      from add_again_ok [OF this, of i "Task i u" T ms] i m2 same_ran [of "add_again T i ms (Task i u) ?m3" ?m3]
      show ?thesis by (simp add: lone_def)
    qed
    have again_same: "lone i (T + MS ms) r ms u (add_again T i ms (Task i u) m2)
       \<and> ran (add_again T i ms (Task i u) m2) = ran m @ [u]"
      using add_again_ok [OF m2(1) i, of "Task i u" T ms] m2 same_ran [of "add_again T i ms (Task i u) m2" m2]
      by (simp add: lone_def)
    consider "r = 1" | "r = -1" | "1 < r" using r by linarith
    then show ?thesis
      unfolding t repeat_task_def m2(3) using drop again [of "r - 1"] again_same m2(3) by cases auto
  qed
  have "timer_front ?t = None \<or> (\<exists>c. timer_front ?t = Some (i, T + MS ms, c))"
  proof -
    have "manager_inv ?t" "alarms ?t = Map.empty \<or> alarms ?t = [i \<mapsto> (T + MS ms, Some (Task i u))]"
      using outcome by (auto simp: lone_def spent_def split: if_splits)
    with manager_clock.front_Some [of ?t] manager_clock.front_None [of ?t] show ?thesis
      by (cases "timer_front ?t") (auto split: if_splits)
  qed
  then have "\<forall>i' e' c'. timer_front ?t = Some (i', e', c') \<longrightarrow> \<not> e' - T < 1000000"
    using ms by (auto simp: MS_def)
  then have "m' = ?t"
    using manager_clock.fire_loop_once [where due = "\<lambda>p e. e - T < 1000000" and p = 0 and b = 99
        and run = "\<lambda>p. run_task T log_user", OF front] due
    by (simp add: m'_def manager_update_def tick_eq)
  with outcome show ?thesis by simp
qed

text \<open>Updates at the given times, each at least a period after the one before.\<close>

fun spaced :: "int \<Rightarrow> int \<Rightarrow> int list \<Rightarrow> bool" where
  "spaced e ms [] \<longleftrightarrow> True"
| "spaced e ms (T # Ts) \<longleftrightarrow> e \<le> T \<and> spaced (T + MS ms) ms Ts"

fun updates :: "int list \<Rightarrow> ('u, 'z) logged_manager_scheme \<Rightarrow> ('u, 'z) logged_manager_scheme" where
  "updates [] m = m"
| "updates (T # Ts) m = updates Ts (manager_update (\<lambda>p. T) (\<lambda>p. T) log_user m)"

lemma updates_spent: "spent m \<Longrightarrow> updates Ts m = m"
  by (induction Ts) (simp_all add: spent_update)

lemma updates_lone:
  "lone i e r ms u m \<Longrightarrow> spaced e ms Ts \<Longrightarrow> 0 < r \<Longrightarrow> 1 \<le> ms \<Longrightarrow>
     ran (updates Ts m) = ran m @ replicate (min (length Ts) (nat r)) u
     \<and> (r \<le> int (length Ts) \<longrightarrow> spent (updates Ts m))"
proof (induction Ts arbitrary: m e r)
  case (Cons T Ts)
  let ?m = "manager_update (\<lambda>p. T) (\<lambda>p. T) log_user m"
  have step: "(if r = 1 then spent ?m else lone i (T + MS ms) (r - 1) ms u ?m) \<and> ran ?m = ran m @ [u]"
    using lone_update [OF Cons.prems(1), of T] Cons.prems by auto
  show ?case
  proof (cases "r = 1")
    case True
    with step show ?thesis by (simp add: updates_spent)
  next
    case False
    have "min (Suc (length Ts)) (nat r) = Suc (min (length Ts) (nat (r - 1)))"
      using Cons.prems(3) by auto
    with Cons.IH [of "T + MS ms" "r - 1" ?m] Cons.prems False step show ?thesis
      by auto
  qed
qed simp

lemma updates_forever:
  "lone i e (-1) ms u m \<Longrightarrow> spaced e ms Ts \<Longrightarrow> 1 \<le> ms \<Longrightarrow>
     ran (updates Ts m) = ran m @ replicate (length Ts) u"
proof (induction Ts arbitrary: m e)
  case (Cons T Ts)
  let ?m = "manager_update (\<lambda>p. T) (\<lambda>p. T) log_user m"
  have "lone i (T + MS ms) (-1) ms u ?m \<and> ran ?m = ran m @ [u]"
    using lone_update [OF Cons.prems(1), of T] Cons.prems by auto
  with Cons.IH [of "T + MS ms" ?m] Cons.prems show ?case by simp
qed simp

definition new_logged_manager :: "'u logged_manager" where
  "new_logged_manager = \<lparr>tm_heap = [], tm_ref = Map.empty, mg_closed = False, mg_next_id = 0,
     mg_repeats = Map.empty, mg_key_id = Map.empty, ran = []\<rparr>"

lemma new_logged_manager_facts [simp]:
  "manager_inv new_logged_manager" "alarms new_logged_manager = Map.empty" "ran new_logged_manager = []"
  "mg_next_id new_logged_manager = 0" "mg_repeats new_logged_manager = Map.empty"
  by (simp_all add: manager_inv_def new_logged_manager_def timer_inv_def ref_ok_def ordered_def
      tables_ok_def alarms_def)

lemma schedule_lone:
  assumes "do_schedule t0 ms r (Some u) new_logged_manager = Inr m" "r \<noteq> 0"
  shows "lone 0 (t0 + MS ms) r ms u m \<and> ran m = []"
proof -
  have "mg_next_id new_logged_manager \<noteq> int int_max" by (simp add: int_max_def)
  from do_schedule_ok [OF new_logged_manager_facts(1) this, of t0 ms r u] assms same_ran [of m new_logged_manager]
  show ?thesis by (auto simp: lone_def)
qed



text \<open>
  A callback that throws ends its own repetition without a trace in the heap but leaves the
  tables behind: the keyed timer with an unlimited repetition below never fires again, yet
  its repetition entry and the mapping of its key stay.
\<close>

theorem throwing_callback_stops_repetition:
  fixes m :: "'u timer_manager"
  assumes "manager_inv m" "alarms m = [i \<mapsto> (e, Some (Keyed_task i k u))]" "mg_repeats m i = Some (-1, ms)"
    and "e \<le> T" "\<And>m'. user u m' = (False, m')"
  shows "alarms (manager_update (\<lambda>p. T) (\<lambda>p. T) user m) = Map.empty
     \<and> mg_repeats (manager_update (\<lambda>p. T) (\<lambda>p. T) user m) i = Some (-1, ms)
     \<and> mg_key_id (manager_update (\<lambda>p. T) (\<lambda>p. T) user m) k = Some i"
proof -
  obtain i' e' c' where f: "timer_front m = Some (i', e', c')"
    using manager_clock.front_None [OF assms(1)] assms(2)
    by (metis fun_upd_same not_Some_eq option.distinct(1) surj_pair)
  then have front: "timer_front m = Some (i, e, Some (Keyed_task i k u))"
    using manager_clock.front_Some [OF assms(1) f] assms(2) by (auto split: if_splits)
  note pop = manager_clock.drop_ok [OF assms(1) front] pop_timer_tables [OF assms(1)]
  have "mg_key_id m k = Some i"
    using assms(1,2) tables_okD(2) [of "alarms m" "mg_next_id m" "mg_repeats m" "mg_key_id m" i]
    by (simp add: manager_inv_def)
  then have t: "exec_callback (run_task T user) (Some (Keyed_task i k u)) (pop_timer m) = pop_timer m"
    using assms(5) pop by (simp add: exec_callback_def)
  have "timer_front (pop_timer m) = None"
    using manager_clock.front_None [of "pop_timer m"] pop assms(2) by simp
  then have "manager_update (\<lambda>p. T) (\<lambda>p. T) user m = pop_timer m"
    using manager_clock.fire_loop_once [where due = "\<lambda>p e. e - T < 1000000" and p = 0 and b = 99
        and run = "\<lambda>p. run_task T user", OF front] assms(4) t
    by (simp add: manager_update_def tick_eq)
  with pop assms(2,3) \<open>mg_key_id m k = Some i\<close> show ?thesis by simp
qed


theorem throwing_callback_stops_repetition_witness:
  "\<exists>m :: nat timer_manager. alarms m = [0 \<mapsto> (3000000, Some (Keyed_task 0 5 7))]
     \<and> alarms (manager_update (\<lambda>p. 4000000) (\<lambda>p. 4000000) (\<lambda>u m'. (False, m')) m) = Map.empty
     \<and> mg_key_id (manager_update (\<lambda>p. 4000000) (\<lambda>p. 4000000) (\<lambda>u m'. (False, m')) m) 5 = Some 0"
proof -
  let ?m0 = "new_manager :: nat timer_manager"
  have "mg_next_id ?m0 \<noteq> int int_max" "mg_key_id ?m0 5 = None" by (simp_all add: int_max_def)
  then obtain m :: "nat timer_manager" where m: "manager_inv m"
    "alarms m = (alarms ?m0)(mg_next_id ?m0 \<mapsto> (0 + MS 3, Some (Keyed_task (mg_next_id ?m0) 5 7)))"
    "mg_repeats m = (if (-1::int) = 0 then mg_repeats ?m0 else (mg_repeats ?m0)(mg_next_id ?m0 \<mapsto> (-1, 3)))"
    by (rule do_schedule_with_key_ok [OF new_manager_inv])
  then have al: "alarms m = [0 \<mapsto> (3000000, Some (Keyed_task 0 5 7))]" and rep: "mg_repeats m 0 = Some (-1, 3)"
    by (simp_all add: MS_def)
  from throwing_callback_stops_repetition [OF m(1) al rep, of 4000000 "\<lambda>u m'. (False, m')"] al
  show ?thesis by auto
qed

end
