(* ===== verification/Map_Timer.thy ===== *)
theory Map_Timer
  imports Timer_Manager
begin

text \<open>
  The other timer manager, \<open>src/task/timer/maptimer.cpp\<close> and \<open>include/task/timer/maptimer.h\<close> (namespace
  \<open>rbtimer\<close>), which the build option \<open>__USE_MAPTIMER\<close> puts in the place of the heap: a multimap from
  times in milliseconds to timers. Each call is atomic under \<open>_timerMutex\<close>.
\<close>

section \<open>State\<close>

text \<open>
  The closures: \<open>Plain\<close> is the one of \<open>Schedule\<close>; \<open>Keyed i k k64\<close> is the lambda of \<open>DoScheduleWithKey\<close> with its
  \<open>int\<close> key around the one of \<open>ScheduleWithKey\<close> with the \<open>uint64_t\<close> key; \<open>Wake\<close> is the dummy of \<open>Stop\<close>.
\<close>

datatype 'u map_task = Plain 'u | Keyed int int int 'u | Wake

record 'u map_node =
  mt_time :: int
  mt_func :: "'u map_task option"
  mt_period :: int
  mt_repeat :: int

text \<open>
  The multimap is the list of its entries in order. \<open>mm_cleaned\<close> is the static \<open>lastCleanupTime\<close>.
\<close>

record 'u map_manager =
  mm_timers :: "(int \<times> 'u map_node) list"
  mm_closed :: bool
  mm_next_id :: int
  mm_repeats :: "int \<rightharpoonup> int \<times> int"
  mm_key_id :: "int \<rightharpoonup> int"
  mm_cleaned :: int

definition new_map_manager :: "'u map_manager" where
  "new_map_manager = \<lparr>mm_timers = [], mm_closed = False, mm_next_id = 0, mm_repeats = Map.empty,
     mm_key_id = Map.empty, mm_cleaned = 0\<rparr>"

section \<open>Operations\<close>

text \<open>\<open>std::multimap::insert\<close> puts an entry behind those with an equal key.\<close>

definition mm_insert :: "int \<Rightarrow> 'n \<Rightarrow> (int \<times> 'n) list \<Rightarrow> (int \<times> 'n) list" where
  "mm_insert k n xs = takeWhile (\<lambda>x. fst x \<le> k) xs @ (k, n) # dropWhile (\<lambda>x. fst x \<le> k) xs"

definition put_timer :: "'u map_node \<Rightarrow> ('u, 'z) map_manager_scheme \<Rightarrow> ('u, 'z) map_manager_scheme" where
  "put_timer t m = m\<lparr>mm_timers := mm_insert (mt_time t) t (mm_timers m)\<rparr>"

definition new_map_node :: "int \<Rightarrow> int \<Rightarrow> int \<Rightarrow> 'u map_task \<Rightarrow> 'u map_node" where
  "new_map_node now ms repeats f =
     \<lparr>mt_time = now + ms, mt_func = Some f, mt_period = ms, mt_repeat = repeats\<rparr>"

text \<open>An \<open>int\<close> key is converted to the key type of the table.\<close>

definition as_uint64 :: "int \<Rightarrow> int" where
  "as_uint64 k = k mod 2 ^ 64"

definition map_cancel_by_key :: "int \<Rightarrow> ('u, 'z) map_manager_scheme \<Rightarrow> ('u, 'z) map_manager_scheme" where
  "map_cancel_by_key k m =
     (case mm_key_id m k of
        None \<Rightarrow> m
      | Some i \<Rightarrow> m\<lparr>mm_key_id := (mm_key_id m)(k := None), mm_repeats := (mm_repeats m)(i := None)\<rparr>)"

definition map_do_schedule ::
  "int \<Rightarrow> int \<Rightarrow> int \<Rightarrow> 'u option \<Rightarrow> ('u, 'z) map_manager_scheme \<Rightarrow> ('u, 'z) map_manager_scheme" where
  "map_do_schedule now ms repeats cb m =
     (case cb of
        None \<Rightarrow> m
      | Some u \<Rightarrow> put_timer (new_map_node now (if ms \<le> 0 then 1 else ms) repeats (Plain u)) m)"

definition map_do_schedule_with_key ::
  "int \<Rightarrow> int \<Rightarrow> int \<Rightarrow> int \<Rightarrow> int \<Rightarrow> 'u option \<Rightarrow> ('u, 'z) map_manager_scheme \<Rightarrow>
   ('u, 'z) map_manager_scheme outcome" where
  "map_do_schedule_with_key now k64 k ms repeats cb m =
     (case cb of
        None \<Rightarrow> Inr m
      | Some u \<Rightarrow>
          let period = (if ms \<le> 0 then 1 else ms);
              m1 = map_cancel_by_key (as_uint64 k) m;
              i = mm_next_id m1
          in if i = int int_max then Inl Undefined_Behaviour
             else
               let m2 = m1\<lparr>mm_next_id := i + 1, mm_key_id := (mm_key_id m1)(as_uint64 k \<mapsto> i)\<rparr>;
                   m3 = (if repeats \<noteq> 0 then m2\<lparr>mm_repeats := (mm_repeats m2)(i \<mapsto> (repeats, period))\<rparr> else m2)
               in Inr (put_timer (new_map_node now period repeats (Keyed i k k64 u)) m3))"

definition map_schedule_with_key ::
  "int \<Rightarrow> int \<Rightarrow> int \<Rightarrow> int \<Rightarrow> 'u \<Rightarrow> ('u, 'z) map_manager_scheme \<Rightarrow> ('u, 'z) map_manager_scheme outcome" where
  "map_schedule_with_key now k64 ms repeats u m =
     map_do_schedule_with_key now k64 (to_int32 k64) ms repeats (Some u) (map_cancel_by_key k64 m)"

text \<open>
  The closure of \<open>DoScheduleWithKey\<close>. \<open>user\<close> is the user's code, which may call the manager; it returns (\<open>True\<close>)
  or throws (\<open>False\<close>); \<open>now\<close> is the clock when it has returned.
\<close>

definition run_keyed ::
  "int \<Rightarrow> ('u \<Rightarrow> ('u, 'z) map_manager_scheme \<Rightarrow> bool \<times> ('u, 'z) map_manager_scheme) \<Rightarrow>
   int \<Rightarrow> int \<Rightarrow> int \<Rightarrow> 'u \<Rightarrow> ('u, 'z) map_manager_scheme \<Rightarrow> ('u, 'z) map_manager_scheme" where
  "run_keyed now user i k k64 u m =
     (if mm_key_id m (as_uint64 k) \<noteq> Some i then m
      else
        let (ok, m1) = (if mm_key_id m k64 \<noteq> None then user u m else (True, m)) in
        if \<not> ok then
          m1\<lparr>mm_key_id := (if mm_key_id m1 (as_uint64 k) = Some i then (mm_key_id m1)(as_uint64 k := None) else mm_key_id m1),
             mm_repeats := (mm_repeats m1)(i := None)\<rparr>
        else if mm_key_id m1 (as_uint64 k) \<noteq> Some i then m1
        else
          (case mm_repeats m1 i of
             None \<Rightarrow> m1\<lparr>mm_key_id := (mm_key_id m1)(as_uint64 k := None)\<rparr>
           | Some (remaining, period) \<Rightarrow>
               if 0 < remaining then
                 if remaining - 1 = 0 then
                   m1\<lparr>mm_repeats := (mm_repeats m1)(i := None), mm_key_id := (mm_key_id m1)(as_uint64 k := None)\<rparr>
                 else put_timer (new_map_node now period (remaining - 1) (Keyed i k k64 u))
                        (m1\<lparr>mm_repeats := (mm_repeats m1)(i \<mapsto> (remaining - 1, period))\<rparr>)
               else if remaining = -1 then put_timer (new_map_node now period (-1) (Keyed i k k64 u)) m1
               else m1))"

fun run_map_task ::
  "int \<Rightarrow> ('u \<Rightarrow> ('u, 'z) map_manager_scheme \<Rightarrow> bool \<times> ('u, 'z) map_manager_scheme) \<Rightarrow>
   'u map_task \<Rightarrow> ('u, 'z) map_manager_scheme \<Rightarrow> ('u, 'z) map_manager_scheme" where
  "run_map_task now user (Plain u) m = snd (user u m)"
| "run_map_task now user (Keyed i k k64 u) m = run_keyed now user i k k64 u m"
| "run_map_task now user Wake m = m"

definition on_timer ::
  "('u map_task \<Rightarrow> 'm \<Rightarrow> 'm) \<Rightarrow> 'u map_node \<Rightarrow> 'm \<Rightarrow> 'u map_node \<times> 'm" where
  "on_timer run t m =
     (case mt_func t of
        None \<Rightarrow> (t, m)
      | Some f \<Rightarrow>
          if mt_repeat t = 0 then (t, m)
          else (t\<lparr>mt_time := mt_time t + mt_period t,
                  mt_repeat := (if 0 < mt_repeat t then mt_repeat t - 1 else mt_repeat t)\<rparr>,
                run f m))"

text \<open>
  The loop over the triggered timers; \<open>clock p\<close> is read while the \<open>p\<close>-th of them runs.
\<close>

fun fire_all ::
  "(nat \<Rightarrow> int) \<Rightarrow> ('u \<Rightarrow> ('u, 'z) map_manager_scheme \<Rightarrow> bool \<times> ('u, 'z) map_manager_scheme) \<Rightarrow> nat \<Rightarrow>
   (int \<times> 'u map_node) list \<Rightarrow> ('u, 'z) map_manager_scheme \<Rightarrow> ('u, 'z) map_manager_scheme" where
  "fire_all clock user p [] m = m"
| "fire_all clock user p ((time, t) # ts) m =
     (let (t1, m1) = on_timer (run_map_task (clock p) user) t m;
          m2 = (if mt_repeat t1 \<noteq> 0 then put_timer t1 m1 else m1)
      in fire_all clock user (p + 1) ts m2)"

definition cleanup_cancelled :: "('u, 'z) map_manager_scheme \<Rightarrow> ('u, 'z) map_manager_scheme" where
  "cleanup_cancelled m =
     (let new_timers = foldl (\<lambda>xs (time, t). mm_insert time t xs) [] (mm_timers m) in
      if length new_timers < length (mm_timers m) then m\<lparr>mm_timers := new_timers\<rparr> else m)"

definition map_update ::
  "int \<Rightarrow> (nat \<Rightarrow> int) \<Rightarrow> ('u \<Rightarrow> ('u, 'z) map_manager_scheme \<Rightarrow> bool \<times> ('u, 'z) map_manager_scheme) \<Rightarrow>
   ('u, 'z) map_manager_scheme \<Rightarrow> ('u, 'z) map_manager_scheme" where
  "map_update now clock user m =
     (if mm_timers m = [] then m
      else
        let triggered = take 100 (takeWhile (\<lambda>x. fst x \<le> now) (mm_timers m));
            m1 = m\<lparr>mm_timers := drop (length triggered) (mm_timers m)\<rparr>;
            m2 = fire_all clock user 0 triggered m1
        in if 30000 < now - mm_cleaned m2 then cleanup_cancelled (m2\<lparr>mm_cleaned := now\<rparr>) else m2)"

definition map_stop :: "int \<Rightarrow> ('u, 'z) map_manager_scheme \<Rightarrow> ('u, 'z) map_manager_scheme" where
  "map_stop now m =
     put_timer \<lparr>mt_time = now, mt_func = Some Wake, mt_period = 0, mt_repeat = 0\<rparr> (m\<lparr>mm_closed := True\<rparr>)"

definition map_next_tick :: "int \<Rightarrow> ('u, 'z) map_manager_scheme \<Rightarrow> int" where
  "map_next_tick now m =
     (case mm_timers m of
        [] \<Rightarrow> -1
      | (next_time, _) # _ \<Rightarrow> (let diff = to_int32 (next_time - now) in if 0 < diff then diff else 0))"

section \<open>The multimap\<close>

lemma mm_insert_mset [simp]: "mset (mm_insert k n xs) = add_mset (k, n) (mset xs)"
proof -
  have "mset xs = mset (takeWhile (\<lambda>x. fst x \<le> k) xs) + mset (dropWhile (\<lambda>x. fst x \<le> k) xs)"
    by (metis mset_append takeWhile_dropWhile_id)
  then show ?thesis by (simp add: mm_insert_def)
qed

lemma mm_insert_length [simp]: "length (mm_insert k n xs) = Suc (length xs)"
  by (metis mm_insert_mset size_add_mset size_mset)

lemma mm_insert_set [simp]: "set (mm_insert k n xs) = insert (k, n) (set xs)"
  by (metis mm_insert_mset set_mset_add_mset_insert set_mset_mset)

lemma mm_insert_nonempty [simp]: "mm_insert k n xs \<noteq> []"
  by (simp add: mm_insert_def)

lemma mm_insert_sorted:
  assumes "sorted (map fst xs)"
  shows "sorted (map fst (mm_insert k n xs))"
  using assms
proof (induction xs)
  case (Cons x xs)
  have "mm_insert k n (x # xs) = (if fst x \<le> k then x # mm_insert k n xs else (k, n) # x # xs)"
    by (simp add: mm_insert_def)
  with Cons show ?case by auto
qed (simp add: mm_insert_def)

definition map_sorted :: "('u, 'z) map_manager_scheme \<Rightarrow> bool" where
  "map_sorted m \<longleftrightarrow> sorted (map fst (mm_timers m)) \<and> (\<forall>(time, t) \<in> set (mm_timers m). mt_time t = time)"

lemma put_timer_sorted: "map_sorted m \<Longrightarrow> map_sorted (put_timer t m)"
  by (auto simp: map_sorted_def put_timer_def mm_insert_sorted)

lemma put_timer_fields [simp]:
  "mm_timers (put_timer t m) = mm_insert (mt_time t) t (mm_timers m)" "mm_key_id (put_timer t m) = mm_key_id m"
  "mm_repeats (put_timer t m) = mm_repeats m" "mm_next_id (put_timer t m) = mm_next_id m"
  "mm_closed (put_timer t m) = mm_closed m" "mm_cleaned (put_timer t m) = mm_cleaned m"
  "map_manager.more (put_timer t m) = map_manager.more m"
  by (simp_all add: put_timer_def)

lemma cleanup_length:
  "length (foldl (\<lambda>xs (time, t). mm_insert time t xs) ys xs) = length ys + length xs"
  by (induction xs arbitrary: ys) (auto split: prod.split)

text \<open>The clean-up copies every timer and therefore never replaces the table.\<close>

lemma cleanup_noop: "cleanup_cancelled m = m"
  by (simp add: cleanup_cancelled_def cleanup_length)

lemma map_update_eq:
  "map_update now clock user m =
     (if mm_timers m = [] then m
      else
        let triggered = take 100 (takeWhile (\<lambda>x. fst x \<le> now) (mm_timers m));
            m2 = fire_all clock user 0 triggered (m\<lparr>mm_timers := drop (length triggered) (mm_timers m)\<rparr>)
        in if 30000 < now - mm_cleaned m2 then m2\<lparr>mm_cleaned := now\<rparr> else m2)"
  by (simp add: map_update_def cleanup_noop Let_def)


section \<open>Histories\<close>

definition map_user_ok :: "('u \<Rightarrow> ('u, 'z) map_manager_scheme \<Rightarrow> bool \<times> ('u, 'z) map_manager_scheme) \<Rightarrow> bool" where
  "map_user_ok user \<longleftrightarrow> (\<forall>u m. map_sorted m \<longrightarrow> map_sorted (snd (user u m)))"

lemma map_sorted_tables [simp]:
  "map_sorted (m\<lparr>mm_repeats := r\<rparr>) = map_sorted m" "map_sorted (m\<lparr>mm_key_id := q\<rparr>) = map_sorted m"
  "map_sorted (m\<lparr>mm_next_id := i\<rparr>) = map_sorted m" "map_sorted (m\<lparr>mm_cleaned := c\<rparr>) = map_sorted m"
  "map_sorted (m\<lparr>mm_closed := b\<rparr>) = map_sorted m" "map_sorted (m\<lparr>mm_key_id := q, mm_repeats := r\<rparr>) = map_sorted m"
  by (simp_all add: map_sorted_def)

lemma map_cancel_sorted [simp]: "map_sorted (map_cancel_by_key k m) = map_sorted m"
  by (simp add: map_cancel_by_key_def split: option.split)

lemma run_keyed_sorted:
  assumes "map_sorted m" "map_user_ok user"
  shows "map_sorted (run_keyed now user i k k64 u m)"
proof -
  obtain ok m1 where m1: "(if mm_key_id m k64 \<noteq> None then user u m else (True, m)) = (ok, m1)" by fastforce
  then have "map_sorted m1" using assms by (metis map_user_ok_def snd_conv)
  then show ?thesis
    unfolding run_keyed_def m1 by (auto simp: assms(1) intro: put_timer_sorted split: option.split)
qed

lemma run_map_task_sorted:
  "map_sorted m \<Longrightarrow> map_user_ok user \<Longrightarrow> map_sorted (run_map_task now user f m)"
  by (cases f) (auto simp: map_user_ok_def intro: run_keyed_sorted)

lemma fire_all_sorted:
  assumes "map_user_ok user"
  shows "map_sorted m \<Longrightarrow> map_sorted (fire_all clock user p ts m)"
proof (induction ts arbitrary: p m)
  case (Cons x ts)
  obtain time t where x: "x = (time, t)" by fastforce
  obtain t1 m1 where o: "on_timer (run_map_task (clock p) user) t m = (t1, m1)" by fastforce
  then have "map_sorted m1"
    using Cons.prems run_map_task_sorted [OF _ assms] by (auto simp: on_timer_def split: option.splits if_splits)
  then show ?case
    using Cons.IH put_timer_sorted by (auto simp: x o)
qed simp

lemma map_update_sorted: "map_sorted m \<Longrightarrow> map_user_ok user \<Longrightarrow> map_sorted (map_update now clock user m)"
proof -
  assume m: "map_sorted m" and u: "map_user_ok user"
  have "map_sorted (m\<lparr>mm_timers := drop n (mm_timers m)\<rparr>)" for n
    using m by (auto simp: map_sorted_def drop_map [symmetric] sorted_wrt_drop dest: in_set_dropD)
  from fire_all_sorted [OF u this] m show ?thesis by (auto simp: map_update_eq Let_def)
qed

inductive map_step ::
  "('u \<Rightarrow> 'u map_manager \<Rightarrow> bool \<times> 'u map_manager) \<Rightarrow> 'u map_manager \<Rightarrow> 'u map_manager \<Rightarrow> bool"
  for user where
  map_schedule: "map_step user m (map_do_schedule now ms repeats cb m)"
| map_key: "map_schedule_with_key now k ms repeats u m = Inr m' \<Longrightarrow> map_step user m m'"
| map_cancel: "map_step user m (map_cancel_by_key k m)"
| map_tick: "map_step user m (map_update now clock user m)"
| map_stopped: "map_step user m (map_stop now m)"

lemma map_step_sorted:
  assumes "map_step user m m'" "map_sorted m" "map_user_ok user"
  shows "map_sorted m'"
  using assms(1)
proof cases
  case map_schedule
  with assms(2) show ?thesis by (auto simp: map_do_schedule_def intro: put_timer_sorted split: option.split)
next
  case map_key
  with assms(2) show ?thesis
    by (auto simp: map_schedule_with_key_def map_do_schedule_with_key_def Let_def intro!: put_timer_sorted split: if_splits)
next
  case map_stopped
  with assms(2) show ?thesis by (simp add: map_stop_def put_timer_sorted)
qed (use assms(2,3) map_update_sorted in auto)

text \<open>
  The multimap timer knows what is next. After any history of scheduling, cancelling, updates and stopping,
  its entries are sorted by the time they carry, and \<open>GetNextTick\<close> is -1 exactly if there are none, 0 if one is due,
  and otherwise the time to the earliest (for distances that fit into \<open>int\<close>).
\<close>

theorem map_next_tick_earliest:
  assumes "(map_step user)\<^sup>*\<^sup>* new_map_manager m" "map_user_ok user"
    and "\<forall>(time, t) \<in> set (mm_timers m). \<bar>time - now\<bar> < 2 ^ 31"
  shows "sorted (map fst (mm_timers m))
     \<and> (map_next_tick now m = -1 \<longleftrightarrow> mm_timers m = [])
     \<and> (mm_timers m \<noteq> [] \<longrightarrow> map_next_tick now m = max 0 (Min (fst ` set (mm_timers m)) - now))"
proof -
  have "map_sorted (new_map_manager :: 'a map_manager)" by (simp add: map_sorted_def new_map_manager_def)
  with assms(1) have s: "map_sorted m"
    by (induction rule: rtranclp_induct) (auto intro: map_step_sorted assms(2))
  show ?thesis
  proof (cases "mm_timers m")
    case Nil
    then show ?thesis by (simp add: map_next_tick_def)
  next
    case (Cons x xs)
    obtain time t where x: "x = (time, t)" by fastforce
    have "Min (fst ` set (mm_timers m)) = time"
      using s Cons x by (intro Min_eqI) (auto simp: map_sorted_def)
    moreover have "to_int32 (time - now) = time - now"
      using assms(3) Cons x by (auto simp: to_int32_def)
    ultimately show ?thesis
      using s Cons x by (auto simp: map_sorted_def map_next_tick_def Let_def)
  qed
qed

section \<open>Repetition\<close>

text \<open>A manager with a log of the user callbacks that ran, and a series of updates.\<close>

record 'u logged_map = "'u map_manager" +
  mm_ran :: "'u list"

definition log_map :: "'u \<Rightarrow> 'u logged_map \<Rightarrow> bool \<times> 'u logged_map" where
  "log_map u m = (True, m\<lparr>mm_ran := mm_ran m @ [u]\<rparr>)"

definition new_logged_map :: "'u logged_map" where
  "new_logged_map = \<lparr>mm_timers = [], mm_closed = False, mm_next_id = 0, mm_repeats = Map.empty,
     mm_key_id = Map.empty, mm_cleaned = 0, mm_ran = []\<rparr>"

fun map_updates :: "int list \<Rightarrow> 'u logged_map \<Rightarrow> 'u logged_map" where
  "map_updates [] m = m"
| "map_updates (T # Ts) m = map_updates Ts (map_update T (\<lambda>p. T) log_map m)"

lemma put_timer_ran [simp]: "mm_ran (put_timer t m) = mm_ran m"
  by (simp add: put_timer_def)

lemma fire_all_zero:
  "\<forall>(time, t) \<in> set ts. mt_repeat t = 0 \<Longrightarrow> fire_all clock user p ts m = m"
proof (induction ts arbitrary: p)
  case (Cons x ts)
  then show ?case by (cases x) (auto simp: on_timer_def split: option.split)
qed simp

lemma update_zero:
  assumes "\<forall>(time, t) \<in> set (mm_timers m). mt_repeat t = 0"
  shows "mm_timers (map_update now clock user m)
           = drop (length (take 100 (takeWhile (\<lambda>x. fst x \<le> now) (mm_timers m)))) (mm_timers m)"
    and "map_manager.more (map_update now clock user m) = map_manager.more m"
    and "mm_key_id (map_update now clock user m) = mm_key_id m"
proof -
  let ?ts = "take 100 (takeWhile (\<lambda>x. fst x \<le> now) (mm_timers m))"
  have "\<forall>(time, t) \<in> set ?ts. mt_repeat t = 0"
    using assms by (auto dest!: in_set_takeD set_takeWhileD)
  from fire_all_zero [OF this, of clock user 0 "m\<lparr>mm_timers := drop (length ?ts) (mm_timers m)\<rparr>"]
  show "mm_timers (map_update now clock user m)
           = drop (length (take 100 (takeWhile (\<lambda>x. fst x \<le> now) (mm_timers m)))) (mm_timers m)"
    and "map_manager.more (map_update now clock user m) = map_manager.more m"
    and "mm_key_id (map_update now clock user m) = mm_key_id m"
    by (simp_all add: map_update_eq Let_def)
qed

lemma logged_ran_more: "mm_ran m = mm_ran m'" if "map_manager.more m = map_manager.more m'"
  using that by (cases m; cases m') simp

lemma updates_zero:
  assumes "\<forall>(time, t) \<in> set (mm_timers m). mt_repeat t = 0"
  shows "mm_ran (map_updates Ts m) = mm_ran m \<and> mm_key_id (map_updates Ts m) = mm_key_id m"
  using assms
proof (induction Ts arbitrary: m)
  case (Cons T Ts)
  note u = update_zero [OF Cons.prems, of T "\<lambda>p. T" log_map]
  have "\<forall>(time, t) \<in> set (mm_timers (map_update T (\<lambda>p. T) log_map m)). mt_repeat t = 0"
    using Cons.prems unfolding u(1) by (auto dest: in_set_dropD)
  from Cons.IH [OF this] u(3) logged_ran_more [OF u(2)] show ?case by simp
qed simp

text \<open>
  A keyed timer without repetition never runs. The server schedules the idle time-out of a connection with
  repetition 0; \<open>OnTimer\<close> returns at once for it. Whatever updates follow, the user's callback does not
  run and the key stays in the table.
\<close>

theorem keyed_timeout_never_runs:
  assumes "map_schedule_with_key now k ms 0 u new_logged_map = Inr m"
  shows "mm_ran (map_updates Ts m) = [] \<and> mm_key_id (map_updates Ts m) (as_uint64 (to_int32 k)) = Some 0"
proof -
  have m: "\<forall>(time, t) \<in> set (mm_timers m). mt_repeat t = 0" "mm_ran m = []"
    "mm_key_id m (as_uint64 (to_int32 k)) = Some 0"
    using assms by (auto simp: map_schedule_with_key_def map_do_schedule_with_key_def map_cancel_by_key_def
        new_logged_map_def Let_def new_map_node_def mm_insert_def put_timer_def split: if_splits)
  from updates_zero [OF m(1), of Ts] m(2,3) show ?thesis by simp
qed

theorem keyed_timeout_never_runs_witness:
  "\<exists>m. map_schedule_with_key 0 9 60000 0 ''close'' new_logged_map = Inr m \<and> mm_timers m \<noteq> []
     \<and> mm_ran (map_updates [60000, 120000] m) = [] \<and> mm_key_id (map_updates [60000, 120000] m) 9 = Some 0"
proof -
  obtain m where m: "map_schedule_with_key 0 9 60000 0 ''close'' new_logged_map = Inr m" "mm_timers m \<noteq> []"
    by (simp add: map_schedule_with_key_def map_do_schedule_with_key_def map_cancel_by_key_def
        new_logged_map_def Let_def int_max_def)
  have "as_uint64 (to_int32 9) = 9" by (simp add: as_uint64_def to_int32_def)
  with keyed_timeout_never_runs [OF m(1), of "[60000, 120000]"] m show ?thesis by auto
qed


theorem map_next_tick_earliest_witness:
  "\<exists>m :: nat map_manager. mm_timers m \<noteq> [] \<and> map_next_tick 10 m = 20"
proof -
  let ?user = "\<lambda>(u :: nat) (m :: nat map_manager). (True, m)"
  let ?m = "map_do_schedule 0 30 1 (Some 7) (new_map_manager :: nat map_manager)"
  have "map_step ?user new_map_manager ?m" by (rule map_schedule)
  then have "(map_step ?user)\<^sup>*\<^sup>* new_map_manager ?m" by (rule r_into_rtranclp)
  moreover have "mm_timers ?m = [(30, new_map_node 0 30 1 (Plain 7))]"
    by (simp add: map_do_schedule_def put_timer_def new_map_node_def new_map_manager_def mm_insert_def)
  ultimately show ?thesis
    using map_next_tick_earliest [of ?user ?m 10] by (intro exI [of _ ?m]) (simp add: map_user_ok_def)
qed

text \<open>Copies of one keyed timer with unlimited repetition, all due by \<open>T\<close>.\<close>

definition copies :: "int \<Rightarrow> int \<Rightarrow> int \<Rightarrow> int \<Rightarrow> int \<Rightarrow> 'u \<Rightarrow> 'u logged_map \<Rightarrow> bool" where
  "copies T i k k64 ms u m \<longleftrightarrow>
     (\<forall>(time, t) \<in> set (mm_timers m). time \<le> T \<and> mt_time t \<le> T \<and> mt_func t = Some (Keyed i k k64 u)
        \<and> mt_repeat t = -1 \<and> mt_period t = ms)
     \<and> mm_key_id m (as_uint64 k) = Some i \<and> mm_key_id m k64 \<noteq> None \<and> mm_repeats m i = Some (-1, ms)"

definition copy_node :: "int \<Rightarrow> int \<Rightarrow> int \<Rightarrow> int \<Rightarrow> int \<Rightarrow> 'u \<Rightarrow> 'u map_node \<Rightarrow> bool" where
  "copy_node T i k k64 ms u t \<longleftrightarrow> mt_time t \<le> T \<and> mt_func t = Some (Keyed i k k64 u)
     \<and> mt_repeat t = -1 \<and> mt_period t = ms"

lemma fire_copies:
  assumes "copies (T + ms) i k k64 ms u m" "\<forall>x \<in> set ts. copy_node T i k k64 ms u (snd x)"
  shows "copies (T + ms) i k k64 ms u (fire_all (\<lambda>p. T) log_map p ts m)
     \<and> length (mm_timers (fire_all (\<lambda>p. T) log_map p ts m)) = length (mm_timers m) + 2 * length ts
     \<and> mm_ran (fire_all (\<lambda>p. T) log_map p ts m) = mm_ran m @ replicate (length ts) u"
  using assms
proof (induction ts arbitrary: p m)
  case (Cons x ts)
  obtain time t where x: "x = (time, t)" by fastforce
  have t: "mt_func t = Some (Keyed i k k64 u)" "mt_repeat t = -1" "mt_period t = ms" "mt_time t \<le> T"
    using Cons.prems(2) by (simp_all add: x copy_node_def)
  let ?m1 = "put_timer (new_map_node T ms (-1) (Keyed i k k64 u)) (m\<lparr>mm_ran := mm_ran m @ [u]\<rparr>)"
  let ?m2 = "put_timer (t\<lparr>mt_time := mt_time t + ms, mt_repeat := -1\<rparr>) ?m1"
  have step: "fire_all (\<lambda>p. T) log_map p (x # ts) m = fire_all (\<lambda>p. T) log_map (p + 1) ts ?m2"
    using t Cons.prems(1) by (auto simp: x on_timer_def run_keyed_def log_map_def copies_def Let_def)
  have "copies (T + ms) i k k64 ms u ?m2"
    using Cons.prems(1) t by (auto simp: copies_def new_map_node_def)
  from Cons.IH [OF this, of "p + 1"] Cons.prems(2) show ?case
    unfolding step by simp
qed simp

lemma update_copies:
  assumes m: "copies T i k k64 ms u m" and le: "length (mm_timers m) \<le> 100" "0 \<le> ms"
  shows "copies (T + ms) i k k64 ms u (map_update T (\<lambda>p. T) log_map m)
     \<and> length (mm_timers (map_update T (\<lambda>p. T) log_map m)) = 2 * length (mm_timers m)
     \<and> mm_ran (map_update T (\<lambda>p. T) log_map m) = mm_ran m @ replicate (length (mm_timers m)) u"
proof -
  have "takeWhile (\<lambda>x. fst x \<le> T) (mm_timers m) = mm_timers m"
    using m by (auto simp: takeWhile_eq_all_conv copies_def)
  with le have trig: "take 100 (takeWhile (\<lambda>x. fst x \<le> T) (mm_timers m)) = mm_timers m"
    by (simp only: take_all)
  have "copies (T + ms) i k k64 ms u (m\<lparr>mm_timers := []\<rparr>)" using m by (simp add: copies_def)
  moreover have "\<forall>x \<in> set (mm_timers m). copy_node T i k k64 ms u (snd x)"
    using m by (auto simp: copies_def copy_node_def)
  ultimately have f: "copies (T + ms) i k k64 ms u (fire_all (\<lambda>p. T) log_map 0 (mm_timers m) (m\<lparr>mm_timers := []\<rparr>))"
     "length (mm_timers (fire_all (\<lambda>p. T) log_map 0 (mm_timers m) (m\<lparr>mm_timers := []\<rparr>))) = 2 * length (mm_timers m)"
     "mm_ran (fire_all (\<lambda>p. T) log_map 0 (mm_timers m) (m\<lparr>mm_timers := []\<rparr>)) = mm_ran m @ replicate (length (mm_timers m)) u"
    using fire_copies [of T ms i k k64 u "m\<lparr>mm_timers := []\<rparr>" "mm_timers m" 0] by simp_all
  show ?thesis
  proof (cases "mm_timers m = []")
    case True
    then show ?thesis using m le by (auto simp: map_update_eq copies_def)
  next
    case False
    with f show ?thesis by (simp add: map_update_eq trig Let_def copies_def)
  qed
qed

text \<open>Update times that leave a period between them, in milliseconds.\<close>

fun spaced_ms :: "int \<Rightarrow> int \<Rightarrow> int list \<Rightarrow> bool" where
  "spaced_ms e ms [] \<longleftrightarrow> True"
| "spaced_ms e ms (T # Ts) \<longleftrightarrow> e \<le> T \<and> spaced_ms (T + ms) ms Ts"

lemma copies_mono: "copies T i k k64 ms u m \<Longrightarrow> T \<le> T' \<Longrightarrow> copies T' i k k64 ms u m"
  by (fastforce simp: copies_def)

lemma updates_copies:
  assumes "copies e i k k64 ms u m" "length (mm_timers m) * 2 ^ length Ts \<le> 128" "0 \<le> ms" "spaced_ms e ms Ts"
  shows "length (mm_timers (map_updates Ts m)) = length (mm_timers m) * 2 ^ length Ts
     \<and> length (mm_ran (map_updates Ts m)) + length (mm_timers m)
         = length (mm_ran m) + length (mm_timers m) * 2 ^ length Ts"
  using assms
proof (induction Ts arbitrary: e m)
  case (Cons T Ts)
  have "copies T i k k64 ms u m" using Cons.prems by (auto intro: copies_mono)
  moreover have "length (mm_timers m) \<le> 100"
  proof -
    have "length (mm_timers m) * 2 \<le> length (mm_timers m) * 2 ^ length (T # Ts)" by simp
    with Cons.prems(2) show ?thesis by linarith
  qed
  ultimately have u: "copies (T + ms) i k k64 ms u (map_update T (\<lambda>p. T) log_map m)"
     "length (mm_timers (map_update T (\<lambda>p. T) log_map m)) = 2 * length (mm_timers m)"
     "mm_ran (map_update T (\<lambda>p. T) log_map m) = mm_ran m @ replicate (length (mm_timers m)) u"
    using update_copies [of T i k k64 ms u m] Cons.prems(3) by simp_all
  from Cons.IH [OF u(1)] u(2,3) Cons.prems show ?case by simp
qed simp

text \<open>
  Repeated keyed timers multiply. The closure of a keyed timer inserts a new timer for the next run, and \<open>Update\<close>
  inserts the one that just ran again: after \<open>n\<close> updates a keyed timer with unlimited repetition is there \<open>2 ^ n\<close>
  times, and its callback has run \<open>2 ^ n - 1\<close> times instead of \<open>n\<close> times (until the limit of 100 per update).
\<close>

theorem keyed_timers_double:
  assumes "map_schedule_with_key now k ms (-1) u new_logged_map = Inr m" "0 \<le> k" "k < 2 ^ 31" "0 < ms"
    and "spaced_ms (now + ms) ms Ts" "length Ts \<le> 7"
  shows "length (mm_timers (map_updates Ts m)) = 2 ^ length Ts
     \<and> length (mm_ran (map_updates Ts m)) = 2 ^ length Ts - 1"
proof -
  have k: "to_int32 k = k" "as_uint64 k = k" using assms(2,3) by (simp_all add: to_int32_def as_uint64_def)
  have m: "copies (now + ms) 0 k k ms u m" "length (mm_timers m) = 1" "mm_ran m = []"
    using assms(1,4) k by (auto simp: map_schedule_with_key_def map_do_schedule_with_key_def map_cancel_by_key_def
        new_logged_map_def Let_def new_map_node_def copies_def put_timer_def mm_insert_def split: if_splits)
  have "length (mm_timers m) * 2 ^ length Ts \<le> 128"
    using m(2) assms(6) power_increasing [of "length Ts" 7 "2::nat"] by simp
  with updates_copies [OF m(1) _ _ assms(5)] assms(4)
  have "length (mm_timers (map_updates Ts m)) = length (mm_timers m) * 2 ^ length Ts"
    "length (mm_ran (map_updates Ts m)) + length (mm_timers m)
         = length (mm_ran m) + length (mm_timers m) * 2 ^ length Ts" by auto
  with m(2,3) show ?thesis by simp
qed

theorem keyed_timers_double_witness:
  "\<exists>m. map_schedule_with_key 0 9 10 (-1) ''beat'' new_logged_map = Inr m
     \<and> length (mm_timers (map_updates [10, 20, 30] m)) = 8 \<and> length (mm_ran (map_updates [10, 20, 30] m)) = 7"
proof -
  obtain m where m: "map_schedule_with_key 0 9 10 (-1) ''beat'' new_logged_map = Inr m"
    by (simp add: map_schedule_with_key_def map_do_schedule_with_key_def map_cancel_by_key_def
        new_logged_map_def Let_def int_max_def)
  from keyed_timers_double [OF m, of "[10, 20, 30]"] m show ?thesis by auto
qed

section \<open>Agreement with the heap\<close>

text \<open>The only timer is a plain one, due at \<open>e\<close>, with repetition \<open>r\<close>.\<close>

definition lone_map :: "int \<Rightarrow> int \<Rightarrow> int \<Rightarrow> 'u \<Rightarrow> 'u logged_map \<Rightarrow> bool" where
  "lone_map e r ms u m \<longleftrightarrow>
     mm_timers m = [(e, \<lparr>mt_time = e, mt_func = Some (Plain u), mt_period = ms, mt_repeat = r\<rparr>)]"

lemma lone_map_update:
  assumes "lone_map e r ms u m" "e \<le> T" "0 < r \<or> r = -1"
  shows "(if r = 1 then mm_timers (map_update T clock log_map m) = []
          else lone_map (e + ms) (if r = -1 then -1 else r - 1) ms u (map_update T clock log_map m))
     \<and> mm_ran (map_update T clock log_map m) = mm_ran m @ [u]"
  using assms by (auto simp: lone_map_def map_update_eq Let_def on_timer_def log_map_def mm_insert_def)

lemma map_updates_nil: "mm_timers m = [] \<Longrightarrow> map_updates Ts m = m"
  by (induction Ts) (simp_all add: map_update_eq)

lemma map_updates_lone:
  assumes "lone_map e r ms u m" "spaced_ms e ms Ts" "0 < r \<or> r = -1" "0 \<le> ms"
  shows "mm_ran (map_updates Ts m)
     = mm_ran m @ replicate (if r = -1 then length Ts else min (length Ts) (nat r)) u"
  using assms
proof (induction Ts arbitrary: e r m)
  case (Cons T Ts)
  let ?m = "map_update T (\<lambda>p. T) log_map m"
  from Cons.prems(2) have T: "e \<le> T" "spaced_ms (T + ms) ms Ts" by simp_all
  note u = lone_map_update [OF Cons.prems(1) T(1) Cons.prems(3), of "\<lambda>p. T"]
  show ?case
  proof (cases "r = 1")
    case True
    with u show ?thesis by (simp add: map_updates_nil)
  next
    case False
    have "spaced_ms (e + ms) ms Ts"
      using T Cons.prems(4) by (cases Ts) auto
    moreover have "0 < (if r = -1 then -1 else r - 1) \<or> (if r = -1 then -1 else r - 1) = -1"
      using False Cons.prems(3) by auto
    moreover have "min (Suc (length Ts)) (nat r) = Suc (min (length Ts) (nat (r - 1)))" if "0 < r"
      using that by auto
    ultimately show ?thesis
      using Cons.IH [of "e + ms" "if r = -1 then -1 else r - 1" ?m] u False Cons.prems(3,4) by (auto split: if_splits)
  qed
qed simp

lemma spaced_ms_ns: "spaced_ms e ms Ts \<Longrightarrow> spaced (e * 1000000) ms (map (\<lambda>T. T * 1000000) Ts)"
  by (induction e ms Ts rule: spaced_ms.induct) (auto simp: MS_def algebra_simps)



end
