(* ===== verification/Sync_Queues.thy ===== *)
theory Sync_Queues
  imports Heap_Timer "HOL-Library.Multiset"
begin

text \<open>
  The two queues that threads share: \<open>include/utils/safequeue.hpp\<close>, which the first thread pool uses, and the
  bounded \<open>include/utils/blockdeque.h\<close>, whose callers sleep on two condition variables.
\<close>

section \<open>First in, first out\<close>

text \<open>
  What a user of a queue relies on. \<open>put\<close> is \<open>None\<close> if the queue does not take the item, \<open>get\<close> if it
  has none.
\<close>

datatype 'a queue_op = Put 'a | Get

fun queue_ops ::
  "('a \<Rightarrow> 'q \<Rightarrow> 'q option) \<Rightarrow> ('q \<Rightarrow> ('a \<times> 'q) option) \<Rightarrow> 'a queue_op list \<Rightarrow> 'q \<Rightarrow> 'a list \<times> 'a list \<times> 'q" where
  "queue_ops put get [] q = ([], [], q)"
| "queue_ops put get (Put x # ops) q =
     (case put x q of
        None \<Rightarrow> queue_ops put get ops q
      | Some q1 \<Rightarrow> (case queue_ops put get ops q1 of (i, out, q2) \<Rightarrow> (x # i, out, q2)))"
| "queue_ops put get (Get # ops) q =
     (case get q of
        None \<Rightarrow> queue_ops put get ops q
      | Some (x, q1) \<Rightarrow> (case queue_ops put get ops q1 of (i, out, q2) \<Rightarrow> (i, x # out, q2)))"

locale fifo_queue =
  fixes queued :: "'q \<Rightarrow> 'a list"
    and put :: "'a \<Rightarrow> 'q \<Rightarrow> 'q option"
    and get :: "'q \<Rightarrow> ('a \<times> 'q) option"
  assumes put_queued: "put x q = Some q' \<Longrightarrow> queued q' = queued q @ [x]"
    and get_queued: "get q = Some (x, q') \<Longrightarrow> queued q = x # queued q'"
    and get_none: "get q = None \<Longrightarrow> queued q = []"
begin

lemma ops_in_order: "queue_ops put get ops q = (i, out, q') \<Longrightarrow> queued q @ i = out @ queued q'"
proof (induction ops arbitrary: q i out)
  case (Cons oper ops)
  show ?case
  proof (cases oper)
    case (Put x)
    show ?thesis
    proof (cases "put x q")
      case (Some q1)
      with Cons.prems Put obtain i1 where "queue_ops put get ops q1 = (i1, out, q')" "i = x # i1"
        by (auto split: prod.splits)
      with Cons.IH put_queued [OF Some] show ?thesis by fastforce
    qed (use Cons Put in simp)
  next
    case Get
    show ?thesis
    proof (cases "get q")
      case (Some r)
      then obtain x q1 where r: "get q = Some (x, q1)" by (cases r) auto
      with Cons.prems Get obtain out1 where "queue_ops put get ops q1 = (i, out1, q')" "out = x # out1"
        by (auto split: prod.splits)
      with Cons.IH get_queued [OF r] show ?thesis by fastforce
    qed (use Cons Get in simp)
  qed
qed simp

lemma from_empty: "queued q = [] \<Longrightarrow> queue_ops put get ops q = (i, out, q') \<Longrightarrow> i = out @ queued q'"
  using ops_in_order by fastforce

end

section \<open>\<open>SafeQueue\<close>\<close>

record 'a safe_queue =
  sq_items :: "'a list"

definition new_safe_queue :: "'a safe_queue" where
  "new_safe_queue = \<lparr>sq_items = []\<rparr>"

text \<open>The move constructor takes the items; \<open>std::queue\<close> over \<open>std::deque\<close> leaves none behind.\<close>

definition sq_move :: "'a safe_queue \<Rightarrow> 'a safe_queue \<times> 'a safe_queue" where
  "sq_move other = (\<lparr>sq_items = sq_items other\<rparr>, other\<lparr>sq_items := []\<rparr>)"

definition sq_empty :: "'a safe_queue \<Rightarrow> bool" where
  "sq_empty q \<longleftrightarrow> sq_items q = []"

definition sq_size :: "'a safe_queue \<Rightarrow> int" where
  "sq_size q = to_int32 (int (length (sq_items q)))"

definition enqueue :: "'a \<Rightarrow> 'a safe_queue \<Rightarrow> 'a safe_queue" where
  "enqueue t q = q\<lparr>sq_items := sq_items q @ [t]\<rparr>"

text \<open>\<open>t\<close> is the variable that the caller passes by reference.\<close>

definition dequeue :: "'a \<Rightarrow> 'a safe_queue \<Rightarrow> bool \<times> 'a \<times> 'a safe_queue" where
  "dequeue t q =
     (case sq_items q of
        [] \<Rightarrow> (False, t, q)
      | x # xs \<Rightarrow> (True, x, q\<lparr>sq_items := xs\<rparr>))"

definition sq_get :: "'a safe_queue \<Rightarrow> ('a \<times> 'a safe_queue) option" where
  "sq_get q = (case dequeue undefined q of (ok, x, q') \<Rightarrow> if ok then Some (x, q') else None)"

interpretation safe_fifo: fifo_queue sq_items "\<lambda>x q. Some (enqueue x q)" sq_get
  by unfold_locales (auto simp: enqueue_def sq_get_def dequeue_def split: list.splits if_splits)

section \<open>\<open>BlockDeque\<close>\<close>

record 'a block_deque =
  bd_items :: "'a list"
  bd_capacity :: nat
  bd_closed :: bool

definition new_block_deque :: "nat \<Rightarrow> 'a block_deque outcome" where
  "new_block_deque max_capacity =
     cpp_assert (0 < max_capacity) (Inr \<lparr>bd_items = [], bd_capacity = max_capacity, bd_closed = False\<rparr>)"

text \<open>
  The mutex is not recursive: a call that locks it while its own thread holds it (\<open>held\<close>) never returns.
\<close>

definition locking :: "bool \<Rightarrow> 'a outcome \<Rightarrow> 'a outcome" where
  "locking held m = (if held then Inl Deadlock else m)"

definition bd_front :: "bool \<Rightarrow> ('a, 'z) block_deque_scheme \<Rightarrow> 'a outcome" where
  "bd_front held d = locking held (case bd_items d of [] \<Rightarrow> Inl Undefined_Behaviour | x # _ \<Rightarrow> Inr x)"

definition bd_back :: "bool \<Rightarrow> ('a, 'z) block_deque_scheme \<Rightarrow> 'a outcome" where
  "bd_back held d =
     locking held (if bd_items d = [] then Inl Undefined_Behaviour else Inr (last (bd_items d)))"

definition bd_size :: "bool \<Rightarrow> ('a, 'z) block_deque_scheme \<Rightarrow> nat outcome" where
  "bd_size held d = locking held (Inr (length (bd_items d)))"

definition capacity_of :: "bool \<Rightarrow> ('a, 'z) block_deque_scheme \<Rightarrow> nat outcome" where
  "capacity_of held d = locking held (Inr (bd_capacity d))"

definition bd_empty :: "bool \<Rightarrow> ('a, 'z) block_deque_scheme \<Rightarrow> bool outcome" where
  "bd_empty held d = locking held (Inr (bd_items d = []))"

definition bd_full :: "bool \<Rightarrow> ('a, 'z) block_deque_scheme \<Rightarrow> bool outcome" where
  "bd_full held d =
     locking held (and_then (capacity_of True d) (\<lambda>cap. Inr (cap \<le> length (bd_items d))))"

definition bd_clear :: "('a, 'z) block_deque_scheme \<Rightarrow> ('a, 'z) block_deque_scheme" where
  "bd_clear d = d\<lparr>bd_items := []\<rparr>"

definition bd_close :: "('a, 'z) block_deque_scheme \<Rightarrow> ('a, 'z) block_deque_scheme" where
  "bd_close d = d\<lparr>bd_items := [], bd_closed := True\<rparr>"

text \<open>
  The calls that may sleep. \<open>dq_body\<close> tests the loop condition and does the work if the call need not
  wait; \<open>dq_woken\<close> is the same after a wake-up, where \<open>pop\<close> first looks at \<open>_isClose\<close>.
\<close>

datatype 'a dq_call = Push_back 'a | Push_front 'a | Pop | Pop_for
datatype 'a dq_result = Pushed | Popped 'a | Refused | Blocked

fun is_push :: "'a dq_call \<Rightarrow> bool" where
  "is_push (Push_back x) \<longleftrightarrow> True"
| "is_push (Push_front x) \<longleftrightarrow> True"
| "is_push Pop \<longleftrightarrow> False"
| "is_push Pop_for \<longleftrightarrow> False"

definition take_front ::
  "('a, 'z) block_deque_scheme \<Rightarrow> 'a dq_result \<times> ('a, 'z) block_deque_scheme" where
  "take_front d = (case bd_items d of [] \<Rightarrow> (Blocked, d) | x # xs \<Rightarrow> (Popped x, d\<lparr>bd_items := xs\<rparr>))"

fun dq_body ::
  "'a dq_call \<Rightarrow> ('a, 'z) block_deque_scheme \<Rightarrow> 'a dq_result \<times> ('a, 'z) block_deque_scheme" where
  "dq_body (Push_back x) d =
     (if bd_capacity d \<le> length (bd_items d) then (Blocked, d)
      else (Pushed, d\<lparr>bd_items := bd_items d @ [x]\<rparr>))"
| "dq_body (Push_front x) d =
     (if bd_capacity d \<le> length (bd_items d) then (Blocked, d)
      else (Pushed, d\<lparr>bd_items := x # bd_items d\<rparr>))"
| "dq_body Pop d = take_front d"
| "dq_body Pop_for d = take_front d"

definition dq_woken ::
  "'a dq_call \<Rightarrow> ('a, 'z) block_deque_scheme \<Rightarrow> 'a dq_result \<times> ('a, 'z) block_deque_scheme" where
  "dq_woken c d = (if \<not> is_push c \<and> bd_closed d then (Refused, d) else dq_body c d)"

definition bd_put :: "'a \<Rightarrow> 'a block_deque \<Rightarrow> 'a block_deque option" where
  "bd_put x d = (case dq_body (Push_back x) d of (r, d') \<Rightarrow> if r = Pushed then Some d' else None)"

definition bd_get :: "'a block_deque \<Rightarrow> ('a \<times> 'a block_deque) option" where
  "bd_get d = (case dq_body Pop d of (Popped x, d') \<Rightarrow> Some (x, d') | _ \<Rightarrow> None)"

interpretation deque_fifo: fifo_queue bd_items bd_put bd_get
  by unfold_locales (auto simp: bd_put_def bd_get_def take_front_def split: list.splits if_splits)

section \<open>Threads on the deque\<close>

text \<open>
  A run: the calls that sleep on the two conditions (pushes on \<open>_condProducer\<close>, pops on \<open>_condConsumer\<close>) and
  those that have been woken but do not hold the mutex yet.
\<close>

record 'a deque_run = "'a block_deque" +
  dr_asleep :: "'a dq_call list"
  dr_woken :: "'a dq_call list"

text \<open>\<open>notify_one\<close>: some sleeping call of the condition is woken, if there is one.\<close>

inductive notified :: "('a dq_call \<Rightarrow> bool) \<Rightarrow> 'a deque_run \<Rightarrow> 'a deque_run \<Rightarrow> bool" where
  nobody: "filter P (dr_asleep s) = [] \<Longrightarrow> notified P s s"
| somebody: "dr_asleep s = xs @ c # ys \<Longrightarrow> P c \<Longrightarrow>
    notified P s (s\<lparr>dr_asleep := xs @ ys, dr_woken := c # dr_woken s\<rparr>)"

text \<open>How a call ends after it has had the mutex.\<close>

inductive settled :: "'a dq_result \<Rightarrow> 'a dq_call \<Rightarrow> 'a deque_run \<Rightarrow> 'a deque_run \<Rightarrow> bool" where
  sleeps: "settled Blocked c s (s\<lparr>dr_asleep := c # dr_asleep s\<rparr>)"
| pushes: "notified (\<lambda>c. \<not> is_push c) s s' \<Longrightarrow> settled Pushed c s s'"
| pops: "notified is_push s s' \<Longrightarrow> settled (Popped x) c s s'"
| refused: "settled Refused c s s"

inductive deque_step :: "'a deque_run \<Rightarrow> 'a deque_run \<Rightarrow> bool" where
  calls: "dq_body c s = (r, s1) \<Longrightarrow> settled r c s1 s2 \<Longrightarrow> deque_step s s2"
| resumes: "dr_woken s = xs @ c # ys \<Longrightarrow> dq_woken c (s\<lparr>dr_woken := xs @ ys\<rparr>) = (r, s1) \<Longrightarrow> settled r c s1 s2 \<Longrightarrow>
    deque_step s s2"
| spurious: "dr_asleep s = xs @ c # ys \<Longrightarrow>
    deque_step s (s\<lparr>dr_asleep := xs @ ys, dr_woken := c # dr_woken s\<rparr>)"
| times_out: "dr_asleep s = xs @ Pop_for # ys \<Longrightarrow> deque_step s (s\<lparr>dr_asleep := xs @ ys\<rparr>)"
| flushes: "notified (\<lambda>c. \<not> is_push c) s s' \<Longrightarrow> deque_step s s'"

text \<open>\<open>Close\<close> and \<open>clear\<close>, which remove items.\<close>

inductive removal_step :: "'a deque_run \<Rightarrow> 'a deque_run \<Rightarrow> bool" where
  closes: "removal_step s ((bd_close s)\<lparr>dr_asleep := [], dr_woken := dr_woken s @ dr_asleep s\<rparr>)"
| clears: "removal_step s (bd_clear s)"

definition any_deque_step :: "'a deque_run \<Rightarrow> 'a deque_run \<Rightarrow> bool" where
  "any_deque_step s s' \<longleftrightarrow> deque_step s s' \<or> removal_step s s'"

definition new_run :: "nat \<Rightarrow> 'a deque_run" where
  "new_run cap = \<lparr>bd_items = [], bd_capacity = cap, bd_closed = False, dr_asleep = [], dr_woken = []\<rparr>"

lemma new_run_simps [simp]:
  "bd_items (new_run cap) = []" "bd_capacity (new_run cap) = cap" "\<not> bd_closed (new_run cap)"
  "dr_asleep (new_run cap) = []" "dr_woken (new_run cap) = []"
  by (simp_all add: new_run_def)

inductive_cases notifiedE: "notified P s s'"
inductive_cases settledE: "settled r c s s'"

lemma notified_fields:
  assumes "notified P s s'"
  shows "bd_items s' = bd_items s" "bd_capacity s' = bd_capacity s" "bd_closed s' = bd_closed s"
    "mset (dr_asleep s) + mset (dr_woken s) = mset (dr_asleep s') + mset (dr_woken s')"
  using assms by (auto elim!: notifiedE)

lemma settled_fields:
  assumes "settled r c s s'"
  shows "bd_items s' = bd_items s" "bd_capacity s' = bd_capacity s" "bd_closed s' = bd_closed s"
  using assms by (auto elim!: settledE dest: notified_fields)

lemma dq_body_fields:
  assumes "dq_body c d = (r, d')"
  shows "bd_capacity d' = bd_capacity d" "bd_closed d' = bd_closed d"
  using assms by (cases c; auto simp: take_front_def split: list.splits if_splits)+

lemma dq_body_bound:
  "dq_body c d = (r, d') \<Longrightarrow> length (bd_items d) \<le> bd_capacity d \<Longrightarrow> length (bd_items d') \<le> bd_capacity d'"
  by (cases c) (auto simp: take_front_def split: list.splits if_splits)

lemma dq_woken_bound:
  "dq_woken c d = (r, d') \<Longrightarrow> length (bd_items d) \<le> bd_capacity d
     \<Longrightarrow> length (bd_items d') \<le> bd_capacity d' \<and> bd_capacity d' = bd_capacity d"
  unfolding dq_woken_def by (auto dest: dq_body_bound dq_body_fields split: if_splits)

lemma deque_step_bound:
  assumes "deque_step s s'" "length (bd_items s) \<le> bd_capacity s"
  shows "length (bd_items s') \<le> bd_capacity s' \<and> bd_capacity s' = bd_capacity s"
  using assms(1)
proof cases
  case (calls c r s1)
  with dq_body_bound [OF calls(1) assms(2)] dq_body_fields [OF calls(1)] settled_fields [OF calls(2)]
  show ?thesis by simp
next
  case (resumes xs c ys r s1)
  with dq_woken_bound [OF resumes(2)] settled_fields [OF resumes(3)] assms(2) show ?thesis by simp
next
  case flushes
  with notified_fields [OF flushes] assms(2) show ?thesis by simp
qed (use assms(2) in simp_all)

text \<open>
  The deque never holds more than its capacity, whatever threads call and in whatever order they are
  woken, including \<open>clear\<close>, \<open>Close\<close>, time-outs and spurious wake-ups.
\<close>

theorem deque_never_overfull:
  assumes "any_deque_step\<^sup>*\<^sup>* (new_run cap) s"
  shows "length (bd_items s) \<le> cap \<and> bd_capacity s = cap"
  using assms
proof (induction rule: rtranclp_induct)
  case (step s s')
  then show ?case
    by (auto dest: deque_step_bound simp: any_deque_step_def removal_step.simps bd_close_def bd_clear_def)
qed simp


text \<open>
  No wake-up is lost: if a push sleeps, the free places are at most as many as the woken pushes; if a pop sleeps,
  the items are at most as many as the woken pops.
\<close>

abbreviation pushes_in :: "'a dq_call list \<Rightarrow> nat" where
  "pushes_in cs \<equiv> length (filter is_push cs)"

abbreviation pops_in :: "'a dq_call list \<Rightarrow> nat" where
  "pops_in cs \<equiv> length (filter (\<lambda>c. \<not> is_push c) cs)"

definition awake_inv :: "'a deque_run \<Rightarrow> bool" where
  "awake_inv s \<longleftrightarrow> \<not> bd_closed s
     \<and> (pushes_in (dr_asleep s) = 0 \<or> bd_capacity s \<le> length (bd_items s) + pushes_in (dr_woken s))
     \<and> (pops_in (dr_asleep s) = 0 \<or> length (bd_items s) \<le> pops_in (dr_woken s))"

lemma notified_push_counts:
  assumes "notified is_push s s'"
  shows "pops_in (dr_asleep s') = pops_in (dr_asleep s) \<and> pops_in (dr_woken s') = pops_in (dr_woken s)
     \<and> (pushes_in (dr_asleep s) = 0 \<and> pushes_in (dr_asleep s') = 0
        \<or> Suc (pushes_in (dr_asleep s')) = pushes_in (dr_asleep s)
          \<and> pushes_in (dr_woken s') = Suc (pushes_in (dr_woken s)))"
  using assms by (rule notifiedE) auto

lemma notified_pop_counts:
  assumes "notified (\<lambda>c. \<not> is_push c) s s'"
  shows "pushes_in (dr_asleep s') = pushes_in (dr_asleep s) \<and> pushes_in (dr_woken s') = pushes_in (dr_woken s)
     \<and> (pops_in (dr_asleep s) = 0 \<and> pops_in (dr_asleep s') = 0
        \<or> Suc (pops_in (dr_asleep s')) = pops_in (dr_asleep s)
          \<and> pops_in (dr_woken s') = Suc (pops_in (dr_woken s)))"
  using assms by (rule notifiedE) auto

text \<open>What a call does, by the number of items.\<close>

definition call_effect :: "'a dq_call \<Rightarrow> 'a dq_result \<Rightarrow> nat \<Rightarrow> nat \<Rightarrow> nat \<Rightarrow> bool" where
  "call_effect c r cap n n' \<longleftrightarrow>
     (case r of
        Pushed \<Rightarrow> is_push c \<and> n < cap \<and> n' = Suc n
      | Popped x \<Rightarrow> \<not> is_push c \<and> n = Suc n'
      | Refused \<Rightarrow> False
      | Blocked \<Rightarrow> n' = n \<and> (if is_push c then cap \<le> n else n = 0))"

lemma dq_body_effect:
  fixes d :: "('a, 'z) block_deque_scheme"
  assumes "dq_body c d = (r, d')"
  shows "call_effect c r (bd_capacity d) (length (bd_items d)) (length (bd_items d'))"
    and "block_deque.more d' = block_deque.more d"
  using assms by (cases c; auto simp: take_front_def call_effect_def split: list.splits if_splits)+

lemma same_calls:
  fixes s s' :: "'a deque_run"
  assumes "block_deque.more s' = block_deque.more s"
  shows "dr_asleep s' = dr_asleep s" "dr_woken s' = dr_woken s"
  using assms by (cases s; cases s'; simp)+

lemma settled_awake:
  assumes "settled r c s1 s2" "\<not> bd_closed s1"
    and "call_effect c r (bd_capacity s1) n (length (bd_items s1))"
    and "pushes_in (dr_asleep s1) = 0 \<or> bd_capacity s1 \<le> n + pushes_in (dr_woken s1) + (if is_push c then 1 else 0)"
    and "pops_in (dr_asleep s1) = 0 \<or> n \<le> pops_in (dr_woken s1) + (if is_push c then 0 else 1)"
  shows "awake_inv s2"
  using assms(1)
proof cases
  case sleeps
  with assms show ?thesis by (auto simp: awake_inv_def call_effect_def split: if_splits)
next
  case pushes
  note f = notified_fields [OF pushes(2)] notified_pop_counts [OF pushes(2)]
  from assms(2-5) pushes(1) f show ?thesis unfolding awake_inv_def call_effect_def by auto
next
  case (pops x)
  note f = notified_fields [OF pops(2)] notified_push_counts [OF pops(2)]
  from assms(2-5) pops(1) f show ?thesis unfolding awake_inv_def call_effect_def by auto
qed (use assms(3) in \<open>simp add: call_effect_def\<close>)

lemma deque_step_awake:
  assumes "deque_step s s'" "awake_inv s"
  shows "awake_inv s'"
  using assms(1)
proof cases
  case (calls c r s1)
  note eff = dq_body_effect [OF calls(1)] dq_body_fields [OF calls(1)]
  from settled_awake [OF calls(2), of "length (bd_items s)"] eff same_calls [OF eff(2)] assms(2)
  show ?thesis by (auto simp: awake_inv_def)
next
  case (resumes xs c ys r s1)
  let ?s = "s\<lparr>dr_woken := xs @ ys\<rparr>"
  have body: "dq_body c ?s = (r, s1)"
    using resumes(2) assms(2) by (simp add: dq_woken_def awake_inv_def)
  note eff = dq_body_effect [OF body] dq_body_fields [OF body]
  from settled_awake [OF resumes(3), of "length (bd_items s)"] eff same_calls [OF eff(2)] assms(2) resumes(1)
  show ?thesis by (auto simp: awake_inv_def split: if_splits)
next
  case (spurious xs c ys)
  with assms(2) show ?thesis by (auto simp: awake_inv_def)
next
  case (times_out xs ys)
  with assms(2) show ?thesis by (auto simp: awake_inv_def)
next
  case flushes
  from notified_fields [OF flushes] notified_pop_counts [OF flushes] assms(2)
  show ?thesis by (auto simp: awake_inv_def)
qed

text \<open>
  C39: as long as nobody calls \<open>clear\<close> or \<open>Close\<close>, no wake-up is lost. Once every woken call has run (\<open>dr_woken = []\<close>), no push sleeps while
  there is room and no pop sleeps while there are items; so pushes and pops never sleep at the same time.
\<close>

theorem deque_loses_no_wakeup:
  assumes "deque_step\<^sup>*\<^sup>* (new_run cap) s" "dr_woken s = []"
  shows "(length (bd_items s) < cap \<longrightarrow> pushes_in (dr_asleep s) = 0)
     \<and> (bd_items s \<noteq> [] \<longrightarrow> pops_in (dr_asleep s) = 0)
     \<and> (0 < cap \<longrightarrow> pushes_in (dr_asleep s) = 0 \<or> pops_in (dr_asleep s) = 0)"
proof -
  have "awake_inv s \<and> bd_capacity s = cap \<and> length (bd_items s) \<le> cap"
    using assms(1)
  proof (induction rule: rtranclp_induct)
    case (step s s')
    with deque_step_awake [OF step(2)] deque_step_bound [OF step(2)] show ?case by simp
  qed (simp add: awake_inv_def)
  with assms(2) show ?thesis by (auto simp: awake_inv_def)
qed

theorem deque_loses_no_wakeup_witness:
  "\<exists>s :: nat deque_run. deque_step\<^sup>*\<^sup>* (new_run 1) s \<and> dr_woken s = [] \<and> dr_asleep s = [Push_back 2] \<and> bd_items s = [1]
     \<and> pops_in (dr_asleep s) = 0"
proof -
  let ?s1 = "(new_run 1 :: nat deque_run)\<lparr>bd_items := [1]\<rparr>" and ?c = "Push_back (2 :: nat)"
  let ?s2 = "?s1\<lparr>dr_asleep := [?c]\<rparr>"
  have "deque_step (new_run 1) ?s1"
    by (rule calls [of "Push_back 1" _ Pushed]) (auto intro!: pushes nobody)
  moreover have "deque_step ?s1 ?s2"
    using calls [of ?c ?s1 Blocked ?s1] sleeps [of ?c ?s1] by simp
  ultimately have reach: "deque_step\<^sup>*\<^sup>* (new_run 1) ?s2"
    by (meson rtranclp.rtrancl_into_rtrancl rtranclp.rtrancl_refl)
  have "dr_woken ?s2 = []" by simp
  from deque_loses_no_wakeup [OF reach this] reach show ?thesis by (intro exI [of _ ?s2]) simp
qed

theorem deque_never_overfull_witness:
  "\<exists>s :: nat deque_run. bd_items s = [1] \<and> length (bd_items s) \<le> 1 \<and> bd_capacity s = 1"
proof -
  let ?s1 = "(new_run 1 :: nat deque_run)\<lparr>bd_items := [1]\<rparr>"
  have "deque_step (new_run 1) ?s1"
    by (rule calls [of "Push_back 1" _ Pushed]) (auto intro!: pushes nobody)
  then have "any_deque_step\<^sup>*\<^sup>* (new_run 1) ?s1"
    by (intro r_into_rtranclp) (simp add: any_deque_step_def)
  from deque_never_overfull [OF this] show ?thesis by (intro exI [of _ ?s1]) simp
qed

text \<open>The mutex of the deque and \<open>capacity\<close>: \<open>full\<close> calls it with the lock held.\<close>

lemma full_never_returns: "bd_full held d = Inl Deadlock"
  by (simp add: bd_full_def capacity_of_def locking_def)

text \<open>
  Removing the items strands callers. \<open>clear\<close> does not wake the pushes that wait for room: there is a run
  in which a push sleeps beside an empty deque and the next pop goes to sleep as well. A \<open>pop\<close> that starts
  after \<open>Close\<close> does not look at \<open>_isClose\<close> and sleeps in a closed deque.
\<close>

theorem removals_strand_callers:
  "(\<exists>s :: nat deque_run. any_deque_step\<^sup>*\<^sup>* (new_run 1) s
      \<and> bd_items s = [] \<and> dr_asleep s = [Pop, Push_back 2] \<and> dr_woken s = [])
   \<and> (\<exists>s :: nat deque_run. any_deque_step\<^sup>*\<^sup>* (new_run 1) s
      \<and> bd_closed s \<and> dr_asleep s = [Pop] \<and> dr_woken s = [])"
proof -
  let ?s1 = "(new_run 1 :: nat deque_run)\<lparr>bd_items := [1]\<rparr>" and ?c = "Push_back (2 :: nat)"
  let ?s2 = "?s1\<lparr>dr_asleep := [?c]\<rparr>"
  let ?s3 = "bd_clear ?s2"
  let ?s4 = "?s3\<lparr>dr_asleep := [Pop, ?c]\<rparr>"
  let ?t1 = "(new_run 1 :: nat deque_run)\<lparr>bd_closed := True\<rparr>"
  note into = rtranclp.rtrancl_into_rtrancl and any = any_deque_step_def
  have blocked: "dq_body Pop s = (Blocked, s)" if "bd_items s = []" for s :: "nat deque_run"
    using that by (simp add: take_front_def)
  have "deque_step (new_run 1) ?s1"
    by (intro calls [of "Push_back 1" _ Pushed]) (auto intro!: pushes nobody)
  then have "any_deque_step\<^sup>*\<^sup>* (new_run 1) ?s1" unfolding any by blast
  moreover have "deque_step ?s1 ?s2"
    using calls [of ?c ?s1 Blocked ?s1] sleeps [of ?c ?s1] by simp
  then have "any_deque_step ?s1 ?s2" unfolding any ..
  ultimately have "any_deque_step\<^sup>*\<^sup>* (new_run 1) ?s2" by (rule into)
  moreover have "any_deque_step ?s2 ?s3" unfolding any by (rule disjI2, rule clears)
  ultimately have "any_deque_step\<^sup>*\<^sup>* (new_run 1) ?s3" by (rule into)
  moreover have "deque_step ?s3 ?s4"
    using calls [OF blocked sleeps, of ?s3] by (simp add: bd_clear_def)
  then have "any_deque_step ?s3 ?s4" unfolding any ..
  ultimately have 1: "any_deque_step\<^sup>*\<^sup>* (new_run 1) ?s4" by (rule into)
  have "removal_step (new_run 1) ?t1"
    using closes [of "new_run 1 :: nat deque_run"] by (simp add: bd_close_def new_run_def)
  then have "any_deque_step\<^sup>*\<^sup>* (new_run 1) ?t1" unfolding any by blast
  moreover have "deque_step ?t1 (?t1\<lparr>dr_asleep := [Pop]\<rparr>)"
    using calls [OF blocked sleeps, of ?t1] by simp
  then have "any_deque_step ?t1 (?t1\<lparr>dr_asleep := [Pop]\<rparr>)" unfolding any ..
  ultimately have "any_deque_step\<^sup>*\<^sup>* (new_run 1) (?t1\<lparr>dr_asleep := [Pop]\<rparr>)" by (rule into)
  with 1 show ?thesis
    by - (rule conjI, rule exI [of _ ?s4], simp add: bd_clear_def, rule exI [of _ "?t1\<lparr>dr_asleep := [Pop]\<rparr>"], simp)
qed

end
