(* ===== verification/Thread_Pool.thy ===== *)
theory Thread_Pool
  imports Sync_Queues "HOL-Library.Multiset"
begin

text \<open>
  The thread pools: \<open>include/task/threadpool_1.h\<close> (namespace \<open>v0\<close>), which the server uses, and the earlier
  \<open>include/task/threadpool.h\<close>. Each is a step relation on its workers; a step is what a thread does between two
  releases of the mutex.
\<close>

section \<open>The pool of the server\<close>

text \<open>
  A worker is about to take the mutex (\<open>Ready\<close>), sleeps in \<open>cond.wait\<close>, runs a task, or has left the loop.
\<close>

datatype 'a worker = Ready | Waiting | Running 'a | Exited

record 'a pool =
  tp_workers :: "'a worker list"
  tp_joinable :: nat
  tp_closed :: bool
  tp_tasks :: "'a list"
  tp_active :: nat

definition new_pool :: "nat \<Rightarrow> 'a pool outcome" where
  "new_pool thread_count =
     cpp_assert (0 < thread_count)
       (Inr \<lparr>tp_workers = replicate thread_count Ready, tp_joinable = thread_count, tp_closed = False,
             tp_tasks = [], tp_active = 0\<rparr>)"

text \<open>
  The constructor's default is \<open>hardware_concurrency() - 2\<close> in the arithmetic of \<open>unsigned int\<close>.
\<close>

definition default_thread_count :: "32 word \<Rightarrow> nat" where
  "default_thread_count hardware_concurrency = unat (hardware_concurrency - 2)"

text \<open>The loop of worker \<open>i\<close> from the moment it has the mutex until it releases it.\<close>

definition worker_turn :: "nat \<Rightarrow> ('a, 'z) pool_scheme \<Rightarrow> ('a, 'z) pool_scheme" where
  "worker_turn i p =
     (if tp_closed p then p\<lparr>tp_workers := (tp_workers p)[i := Exited]\<rparr>
      else case tp_tasks p of
        [] \<Rightarrow> p\<lparr>tp_workers := (tp_workers p)[i := Waiting]\<rparr>
      | t # ts \<Rightarrow> p\<lparr>tp_tasks := ts, tp_active := tp_active p + 1, tp_workers := (tp_workers p)[i := Running t]\<rparr>)"

text \<open>\<open>task()\<close> returns: a packaged task keeps an exception to itself.\<close>

definition task_returns :: "nat \<Rightarrow> ('a, 'z) pool_scheme \<Rightarrow> ('a, 'z) pool_scheme" where
  "task_returns i p = p\<lparr>tp_active := tp_active p - 1, tp_workers := (tp_workers p)[i := Ready]\<rparr>"

definition add_task :: "'a \<Rightarrow> ('a, 'z) pool_scheme \<Rightarrow> ('a, 'z) pool_scheme" where
  "add_task t p = p\<lparr>tp_tasks := tp_tasks p @ [t]\<rparr>"

definition wake_all :: "'a worker list \<Rightarrow> 'a worker list" where
  "wake_all ws = map (\<lambda>w. case w of Waiting \<Rightarrow> Ready | _ \<Rightarrow> w) ws"

definition close_pool_workers :: "('a, 'z) pool_scheme \<Rightarrow> ('a, 'z) pool_scheme" where
  "close_pool_workers p = p\<lparr>tp_closed := True, tp_workers := wake_all (tp_workers p)\<rparr>"

text \<open>What \<open>wait_for\<close> waits for, and the second phase.\<close>

definition drained :: "('a, 'z) pool_scheme \<Rightarrow> bool" where
  "drained p \<longleftrightarrow> tp_tasks p = [] \<and> tp_active p = 0"

definition abandon :: "('a, 'z) pool_scheme \<Rightarrow> ('a, 'z) pool_scheme" where
  "abandon p = p\<lparr>tp_tasks := [], tp_joinable := 0\<rparr>"

text \<open>
  A run, with what has been submitted, started and finished and the number of \<open>notify_one\<close> calls that are still to come.
  The records of starts and ends are read off the workers: a worker starts the task that it is running after its turn, and ends
  the task that it was running when \<open>task()\<close> returns.
\<close>

record 'a pool_run = "'a pool" +
  pr_submitted :: "'a list"
  pr_started :: "'a list"
  pr_finished :: "'a list"
  pr_notify :: nat

definition task_of :: "'a worker \<Rightarrow> 'a list" where
  "task_of w = (case w of Running t \<Rightarrow> [t] | _ \<Rightarrow> [])"

definition running_tasks :: "'a worker list \<Rightarrow> 'a list" where
  "running_tasks ws = concat (map task_of ws)"

definition record_start :: "nat \<Rightarrow> 'a pool_run \<Rightarrow> 'a pool_run" where
  "record_start i p = p\<lparr>pr_started := pr_started p @ task_of (tp_workers p ! i)\<rparr>"

definition new_pool_run :: "nat \<Rightarrow> 'a pool_run" where
  "new_pool_run n = \<lparr>tp_workers = replicate n Ready, tp_joinable = n, tp_closed = False, tp_tasks = [], tp_active = 0,
     pr_submitted = [], pr_started = [], pr_finished = [], pr_notify = 0\<rparr>"

inductive pool_step :: "'a pool_run \<Rightarrow> 'a pool_run \<Rightarrow> bool" where
  submits: "pool_step p ((add_task t p)\<lparr>pr_submitted := pr_submitted p @ [t], pr_notify := pr_notify p + 1\<rparr>)"
| notifies: "pr_notify p = Suc n \<Longrightarrow> i < length (tp_workers p) \<Longrightarrow> tp_workers p ! i = Waiting \<Longrightarrow>
    pool_step p (p\<lparr>tp_workers := (tp_workers p)[i := Ready], pr_notify := n\<rparr>)"
| notifies_nobody: "pr_notify p = Suc n \<Longrightarrow> Waiting \<notin> set (tp_workers p) \<Longrightarrow> pool_step p (p\<lparr>pr_notify := n\<rparr>)"
| wakes: "i < length (tp_workers p) \<Longrightarrow> tp_workers p ! i = Waiting \<Longrightarrow>
    pool_step p (p\<lparr>tp_workers := (tp_workers p)[i := Ready]\<rparr>)"
| turns: "i < length (tp_workers p) \<Longrightarrow> tp_workers p ! i = Ready \<Longrightarrow>
    pool_step p (record_start i (worker_turn i p))"
| returns: "i < length (tp_workers p) \<Longrightarrow> tp_workers p ! i = Running t \<Longrightarrow>
    pool_step p ((task_returns i p)\<lparr>pr_finished := pr_finished p @ [t]\<rparr>)"
| closes_pool: "pool_step p (close_pool_workers p)"
| abandons: "tp_closed p \<Longrightarrow> pool_step p (abandon p)"

definition is_running :: "'a worker \<Rightarrow> bool" where
  "is_running w \<longleftrightarrow> (case w of Running _ \<Rightarrow> True | _ \<Rightarrow> False)"

lemma is_running_simps [simp]:
  "\<not> is_running Ready" "\<not> is_running Waiting" "is_running (Running t)" "\<not> is_running Exited"
  by (simp_all add: is_running_def)

lemma task_of_simps [simp]:
  "task_of Ready = []" "task_of Waiting = []" "task_of (Running t) = [t]" "task_of Exited = []"
  by (simp_all add: task_of_def)

lemma length_running_tasks: "length (running_tasks ws) = length (filter is_running ws)"
proof (induction ws)
  case (Cons w ws)
  then show ?case by (cases w) (simp_all add: running_tasks_def)
qed (simp add: running_tasks_def)

lemma running_tasks_update:
  "i < length ws \<Longrightarrow> mset (running_tasks (ws[i := w])) + mset (task_of (ws ! i)) = mset (running_tasks ws) + mset (task_of w)"
proof (induction ws arbitrary: i)
  case (Cons v ws)
  show ?case
  proof (cases i)
    case (Suc k)
    with Cons.IH [of k] Cons.prems show ?thesis by (simp add: running_tasks_def)
  qed (simp add: running_tasks_def)
qed simp

lemma record_start_simps [simp]:
  "tp_workers (record_start i p) = tp_workers p" "tp_closed (record_start i p) = tp_closed p"
  "tp_tasks (record_start i p) = tp_tasks p" "tp_active (record_start i p) = tp_active p"
  "tp_joinable (record_start i p) = tp_joinable p" "pr_submitted (record_start i p) = pr_submitted p"
  "pr_notify (record_start i p) = pr_notify p" "pr_finished (record_start i p) = pr_finished p"
  "pr_started (record_start i p) = pr_started p @ task_of (tp_workers p ! i)"
  by (simp_all add: record_start_def)

text \<open>
  The invariant: the submitted tasks start in order; what has started is running or finished; the counter counts the running tasks; workers only leave a closed
  pool; and unless a notification is to come, a queued task means that some worker does not sleep.
\<close>

definition pool_inv :: "nat \<Rightarrow> 'a pool_run \<Rightarrow> bool" where
  "pool_inv n p \<longleftrightarrow> length (tp_workers p) = n
     \<and> tp_active p = length (filter is_running (tp_workers p))
     \<and> mset (pr_started p) = mset (pr_finished p) + mset (running_tasks (tp_workers p))
     \<and> (\<not> tp_closed p \<longrightarrow> pr_submitted p = pr_started p @ tp_tasks p \<and> Exited \<notin> set (tp_workers p))
     \<and> (\<exists>rest. pr_submitted p = pr_started p @ rest)
     \<and> (tp_closed p \<longrightarrow> Waiting \<notin> set (tp_workers p))
     \<and> (tp_tasks p = [] \<or> pr_notify p \<noteq> 0 \<or> (\<exists>w \<in> set (tp_workers p). w \<noteq> Waiting) \<or> n = 0)"

lemma filter_update_length:
  "i < length xs \<Longrightarrow> length (filter P (xs[i := x])) + (if P (xs ! i) then 1 else 0)
     = length (filter P xs) + (if P x then 1 else 0)"
proof (induction xs arbitrary: i)
  case (Cons y ys)
  then show ?case by (cases i) auto
qed simp

lemma wake_all_simps [simp]:
  "length (wake_all ws) = length ws" "Waiting \<notin> set (wake_all ws)"
  "filter is_running (wake_all ws) = filter is_running ws" "running_tasks (wake_all ws) = running_tasks ws"
  "Exited \<in> set (wake_all ws) \<longleftrightarrow> Exited \<in> set ws"
proof -
  show "length (wake_all ws) = length ws" by (simp add: wake_all_def)
  show "Waiting \<notin> set (wake_all ws)" by (auto simp: wake_all_def split: worker.splits)
  show "filter is_running (wake_all ws) = filter is_running ws"
    by (induction ws) (auto simp: wake_all_def split: worker.splits)
  show "running_tasks (wake_all ws) = running_tasks ws"
    by (induction ws) (auto simp: wake_all_def running_tasks_def split: worker.splits)
  show "Exited \<in> set (wake_all ws) \<longleftrightarrow> Exited \<in> set ws"
    by (force simp: wake_all_def split: worker.splits)
qed

lemma set_update_other: "w \<in> set (xs[i := x]) \<Longrightarrow> w \<noteq> x \<Longrightarrow> w \<in> set xs"
  using set_update_subset_insert by fastforce

lemma pool_invI:
  assumes "length (tp_workers p) = n" "tp_active p = length (filter is_running (tp_workers p))"
    and "mset (pr_started p) = mset (pr_finished p) + mset (running_tasks (tp_workers p))"
    and "\<not> tp_closed p \<Longrightarrow> pr_submitted p = pr_started p @ tp_tasks p" "\<not> tp_closed p \<Longrightarrow> Exited \<notin> set (tp_workers p)"
    and "\<exists>rest. pr_submitted p = pr_started p @ rest" "tp_closed p \<Longrightarrow> Waiting \<notin> set (tp_workers p)"
    and "tp_tasks p \<noteq> [] \<Longrightarrow> pr_notify p = 0 \<Longrightarrow> 0 < n \<Longrightarrow> \<exists>w \<in> set (tp_workers p). w \<noteq> Waiting"
  shows "pool_inv n p"
  using assms unfolding pool_inv_def by blast

lemma pool_step_inv:
  assumes "pool_step p p'" "pool_inv n p"
  shows "pool_inv n p'"
proof -
  have len: "length (tp_workers p) = n" and act: "tp_active p = length (filter is_running (tp_workers p))"
    and ran: "mset (pr_started p) = mset (pr_finished p) + mset (running_tasks (tp_workers p))"
    and sub: "\<not> tp_closed p \<Longrightarrow> pr_submitted p = pr_started p @ tp_tasks p"
    and ex: "\<not> tp_closed p \<Longrightarrow> Exited \<notin> set (tp_workers p)" and pre: "\<exists>rest. pr_submitted p = pr_started p @ rest"
    and cl: "tp_closed p \<Longrightarrow> Waiting \<notin> set (tp_workers p)"
    and awake: "tp_tasks p \<noteq> [] \<Longrightarrow> pr_notify p = 0 \<Longrightarrow> 0 < n \<Longrightarrow> \<exists>w \<in> set (tp_workers p). w \<noteq> Waiting"
    using assms(2) by (auto simp: pool_inv_def)
  have self: "i < length (tp_workers p) \<Longrightarrow> w \<noteq> Waiting \<Longrightarrow> \<exists>v \<in> set ((tp_workers p)[i := w]). v \<noteq> Waiting" for i w
    using set_update_memI by fast
  note count = filter_update_length [where xs = "tp_workers p" and P = is_running]
  note tasks = running_tasks_update [where ws = "tp_workers p"]
  note other = set_update_other [where xs = "tp_workers p"]
  show ?thesis
    using assms(1)
  proof cases
    case (submits t)
    with len act ran sub ex pre cl show ?thesis by (intro pool_invI) (auto simp: add_task_def)
  next
    case (notifies k i)
    with count [of i Ready] tasks [of i Ready] len act ran sub ex pre cl show ?thesis
      by (intro pool_invI) (auto dest: other simp: self)
  next
    case (notifies_nobody k)
    with len act ran sub ex pre cl show ?thesis
      by (intro pool_invI) (auto, metis length_greater_0_conv list.set_intros(1) neq_Nil_conv)
  next
    case (wakes i)
    with count [of i Ready] tasks [of i Ready] len act ran sub ex pre cl show ?thesis
      by (intro pool_invI) (auto dest: other simp: self)
  next
    case (turns i)
    show ?thesis
    proof (cases "tp_closed p")
      case True
      with turns count [of i Exited] tasks [of i Exited] len act ran pre cl show ?thesis
        by (intro pool_invI) (auto dest: other simp: worker_turn_def self)
    next
      case False
      with turns count [of i Waiting] count [of i "Running t" for t] tasks [of i Waiting] tasks [of i "Running t" for t] len act ran sub [OF False] ex [OF False] show ?thesis
        by (cases "tp_tasks p"; intro pool_invI) (auto dest: other simp: worker_turn_def self)
    qed
  next
    case (returns i t)
    with count [of i Ready] tasks [of i Ready] len act ran sub ex pre cl show ?thesis
      by (intro pool_invI) (auto dest: other simp: task_returns_def self)
  next
    case closes_pool
    with len act ran sub ex pre cl show ?thesis
      by (intro pool_invI) (auto simp: close_pool_workers_def, metis length_greater_0_conv length_pos_if_in_set
          list.set_intros(1) neq_Nil_conv wake_all_simps(1,2))
  next
    case abandons
    with len act ran sub ex pre cl show ?thesis by (intro pool_invI) (auto simp: abandon_def)
  qed
qed

lemma reachable_pool_inv:
  assumes "pool_step\<^sup>*\<^sup>* (new_pool_run n) p"
  shows "pool_inv n p"
  using assms
proof (induction rule: rtranclp_induct)
  case base
  have "\<exists>w \<in> set (replicate n Ready). w \<noteq> Waiting" if "0 < n" using that by auto
  then show ?case by (auto simp: pool_inv_def new_pool_run_def running_tasks_def)
qed (blast intro: pool_step_inv)

text \<open>
  C38: the pool starts every task at most once and in the order of submission: the tasks that its workers have begun to run
  are a prefix of the submitted ones, and each of them is being run by a worker or has returned. As long as the pool is open,
  what has not started is in the queue; the counter of active threads is the number of running tasks.
\<close>

theorem tasks_start_in_order:
  assumes "pool_step\<^sup>*\<^sup>* (new_pool_run n) p"
  shows "(\<exists>rest. pr_submitted p = pr_started p @ rest \<and> (\<not> tp_closed p \<longrightarrow> rest = tp_tasks p))
     \<and> mset (pr_started p) = mset (pr_finished p) + mset (running_tasks (tp_workers p))
     \<and> tp_active p = length (running_tasks (tp_workers p)) \<and> tp_active p \<le> n"
  using reachable_pool_inv [OF assms] length_filter_le [of is_running "tp_workers p"]
  by (auto simp: pool_inv_def length_running_tasks)

definition one_task :: "string pool_run" where
  "one_task = (add_task ''read'' (new_pool_run 1))\<lparr>pr_submitted := [''read''], pr_notify := 1\<rparr>"

lemma one_task_reachable: "pool_step (new_pool_run 1) one_task"
  using submits [of "new_pool_run 1" "''read''"] by (simp add: one_task_def new_pool_run_def)

definition task_begun :: "string pool_run" where
  "task_begun = record_start 0 (worker_turn 0 one_task)"

lemma task_begun_reachable: "pool_step\<^sup>*\<^sup>* (new_pool_run 1) task_begun"
proof -
  have "pool_step one_task task_begun"
    unfolding task_begun_def by (rule turns) (simp_all add: one_task_def add_task_def new_pool_run_def)
  with one_task_reachable show ?thesis by (meson converse_rtranclp_into_rtranclp r_into_rtranclp)
qed

theorem tasks_start_in_order_witness:
  "pool_step\<^sup>*\<^sup>* (new_pool_run 1) task_begun \<and> tp_workers task_begun = [Running ''read'']
     \<and> (\<exists>rest. [''read''] = pr_started task_begun @ rest \<and> rest = tp_tasks task_begun)
     \<and> mset (pr_started task_begun) = mset (pr_finished task_begun) + {#''read''#} \<and> tp_active task_begun \<le> 1"
proof -
  have "tp_workers task_begun = [Running ''read'']" "pr_submitted task_begun = [''read'']" "\<not> tp_closed task_begun"
    by (simp_all add: task_begun_def worker_turn_def one_task_def add_task_def new_pool_run_def)
  with tasks_start_in_order [OF task_begun_reachable] task_begun_reachable show ?thesis
    by (simp add: running_tasks_def)
qed

lemma ready_worker_starts:
  assumes "i < length (tp_workers p)" "tp_workers p ! i = Ready" "\<not> tp_closed p" "tp_tasks p = t # ts"
  shows "\<exists>p'. pool_step p p' \<and> pr_started p' = pr_started p @ [t] \<and> pr_submitted p' = pr_submitted p"
  using turns [OF assms(1,2)]
  by - (rule exI, rule conjI, assumption, use assms(1,3,4) in \<open>simp add: worker_turn_def\<close>)

lemma awake_worker_starts:
  assumes "i < length (tp_workers p)" "tp_workers p ! i \<noteq> Waiting" "Exited \<notin> set (tp_workers p)"
    and "\<not> tp_closed p" "tp_tasks p = t # ts"
  shows "\<exists>p'. pool_step\<^sup>*\<^sup>* p p' \<and> pr_started p' = pr_started p @ [t] \<and> pr_submitted p' = pr_submitted p"
proof (cases "tp_workers p ! i")
  case Ready
  from ready_worker_starts [OF assms(1) Ready assms(4,5)] show ?thesis by blast
next
  case (Running u)
  let ?p = "(task_returns i p)\<lparr>pr_finished := pr_finished p @ [u]\<rparr>"
  have "pool_step p ?p" by (rule returns [OF assms(1) Running])
  moreover obtain p' where "pool_step ?p p'" "pr_started p' = pr_started p @ [t]" "pr_submitted p' = pr_submitted p"
    using ready_worker_starts [of i ?p t ts] assms by (auto simp: task_returns_def)
  ultimately show ?thesis by (meson converse_rtranclp_into_rtranclp r_into_rtranclp)
qed (use assms nth_mem in fastforce)+

text \<open>
  No wake-up is lost in this pool. From every reachable state of an open pool with queued tasks, its workers can start the
  next task without any further submission, close or spurious wake-up.
\<close>

theorem queued_task_can_start:
  assumes "pool_step\<^sup>*\<^sup>* (new_pool_run n) p" "0 < n" "\<not> tp_closed p" "tp_tasks p = t # ts"
  shows "\<exists>p'. pool_step\<^sup>*\<^sup>* p p' \<and> pr_started p' = pr_started p @ [t] \<and> pr_submitted p' = pr_submitted p"
proof -
  have len: "length (tp_workers p) = n" and ex: "Exited \<notin> set (tp_workers p)"
    and awake: "pr_notify p \<noteq> 0 \<or> (\<exists>w \<in> set (tp_workers p). w \<noteq> Waiting)"
    using reachable_pool_inv [OF assms(1)] assms(2-4) by (auto simp: pool_inv_def)
  show ?thesis
  proof (cases "\<exists>w \<in> set (tp_workers p). w \<noteq> Waiting")
    case True
    then obtain i where "i < length (tp_workers p)" "tp_workers p ! i \<noteq> Waiting" by (metis in_set_conv_nth)
    from awake_worker_starts [OF this ex assms(3,4)] show ?thesis .
  next
    case False
    with awake len assms(2) obtain k where k: "pr_notify p = Suc k" "0 < length (tp_workers p)" "tp_workers p ! 0 = Waiting"
      by (metis nth_mem not0_implies_Suc)
    let ?p = "p\<lparr>tp_workers := (tp_workers p)[0 := Ready], pr_notify := k\<rparr>"
    have "pool_step p ?p" by (rule notifies [OF k])
    moreover obtain p' where "pool_step ?p p'" "pr_started p' = pr_started p @ [t]" "pr_submitted p' = pr_submitted p"
      using ready_worker_starts [of 0 ?p t ts] assms k by auto
    ultimately show ?thesis by (meson converse_rtranclp_into_rtranclp r_into_rtranclp)
  qed
qed

theorem queued_task_can_start_witness:
  "\<exists>p'. pool_step\<^sup>*\<^sup>* one_task p' \<and> pr_started p' = [''read'']"
  using queued_task_can_start [OF r_into_rtranclp [of pool_step, OF one_task_reachable], of "''read''" "[]"]
  by (auto simp: one_task_def add_task_def new_pool_run_def)

lemma closed_pool_step:
  assumes "pool_step p p'" "tp_closed p"
  shows "tp_closed p' \<and> pr_started p' = pr_started p \<and> (tp_joinable p' = tp_joinable p \<or> tp_joinable p' = 0)
     \<and> (tp_tasks p \<noteq> [] \<longrightarrow> tp_joinable p' = 0 \<or> tp_tasks p' \<noteq> [])"
  using assms by cases (auto simp: add_task_def worker_turn_def task_returns_def close_pool_workers_def abandon_def)

text \<open>
  The graceful phase of \<open>Shutdown\<close> drains nothing. Once the pool is closed no queued task starts, so with a task in the queue
  the condition of \<open>wait_for\<close> never becomes true before the time-out, and the second phase drops the task.
\<close>

theorem closed_pool_starts_nothing:
  assumes "tp_closed p" "tp_tasks p \<noteq> []" "pool_step\<^sup>*\<^sup>* p p'"
  shows "pr_started p' = pr_started p \<and> (0 < tp_joinable p' \<longrightarrow> \<not> drained p')"
proof -
  have "tp_closed p' \<and> pr_started p' = pr_started p \<and> (tp_joinable p' = 0 \<or> tp_tasks p' \<noteq> [])"
    using assms(3)
  proof (induction rule: rtranclp_induct)
    case (step q q')
    with closed_pool_step [OF step(2)] show ?case by auto
  qed (use assms in simp)
  then show ?thesis by (auto simp: drained_def)
qed

theorem closed_pool_starts_nothing_witness:
  "\<exists>p :: string pool_run. pool_step (close_pool_workers one_task) p \<and> tp_workers p = [Exited]
     \<and> pr_started p = [] \<and> \<not> drained p"
proof -
  let ?p = "close_pool_workers one_task"
  let ?q = "record_start 0 (worker_turn 0 ?p)"
  have p: "tp_closed ?p" "tp_tasks ?p = [''read'']" "tp_workers ?p = [Ready]" "tp_joinable ?p = 1" "pr_started ?p = []"
    by (simp_all add: one_task_def add_task_def new_pool_run_def close_pool_workers_def wake_all_def)
  have "pool_step ?p ?q"
    using turns [of 0 ?p] p by simp
  with closed_pool_starts_nothing [OF p(1) _ r_into_rtranclp [of pool_step, OF this]] p show ?thesis
    by (intro exI [of _ ?q]) (simp add: worker_turn_def)
qed

section \<open>The earlier pool\<close>

text \<open>
  Where a worker of \<open>task/threadpool.h\<close> is: before the test of \<open>_shutdown\<close>, before \<open>_mtx\<close>, with the mutex after
  it has seen an empty queue, in \<open>_con.wait\<close>, woken but without the mutex, with the mutex before \<open>dequeue\<close>, at work, or
  finished. \<open>submit\<close> and \<open>shutdown\<close> change their data and notify without the mutex.
\<close>

datatype 'a thread = Testing | Locking | Dozing | Asleep | Woken | Taking | Working 'a | Left

record 'a old_pool =
  op_threads :: "'a thread list"
  op_shutdown :: bool
  op_queue :: "'a safe_queue"
  op_notify :: nat
  op_notify_all :: nat

definition new_old_pool :: "nat \<Rightarrow> 'a old_pool" where
  "new_old_pool n = \<lparr>op_threads = replicate n Testing, op_shutdown = False, op_queue = new_safe_queue,
     op_notify = 0, op_notify_all = 0\<rparr>"

definition mutex_free :: "'a old_pool \<Rightarrow> bool" where
  "mutex_free p \<longleftrightarrow> Dozing \<notin> set (op_threads p) \<and> Taking \<notin> set (op_threads p)"

definition goes :: "nat \<Rightarrow> 'a thread \<Rightarrow> 'a old_pool \<Rightarrow> 'a old_pool" where
  "goes i w p = p\<lparr>op_threads := (op_threads p)[i := w]\<rparr>"

definition old_submit :: "'a \<Rightarrow> 'a old_pool \<Rightarrow> 'a old_pool" where
  "old_submit t p = p\<lparr>op_queue := enqueue t (op_queue p), op_notify := op_notify p + 1\<rparr>"

definition old_shutdown :: "'a old_pool \<Rightarrow> 'a old_pool" where
  "old_shutdown p = p\<lparr>op_shutdown := True, op_notify_all := op_notify_all p + 1\<rparr>"

text \<open>What worker \<open>i\<close> does next, if it can.\<close>

definition old_worker :: "nat \<Rightarrow> 'a old_pool \<Rightarrow> 'a old_pool option" where
  "old_worker i p =
     (case op_threads p ! i of
        Testing \<Rightarrow> Some (goes i (if op_shutdown p then Left else Locking) p)
      | Locking \<Rightarrow> if mutex_free p then Some (goes i (if sq_empty (op_queue p) then Dozing else Taking) p) else None
      | Dozing \<Rightarrow> Some (goes i Asleep p)
      | Asleep \<Rightarrow> None
      | Woken \<Rightarrow> if mutex_free p then Some (goes i Taking p) else None
      | Taking \<Rightarrow> (case sq_get (op_queue p) of
            None \<Rightarrow> Some (goes i Testing p)
          | Some (f, q) \<Rightarrow> Some (goes i (Working f) (p\<lparr>op_queue := q\<rparr>)))
      | Working f \<Rightarrow> Some (goes i Testing p)
      | Left \<Rightarrow> None)"

inductive old_step :: "'a old_pool \<Rightarrow> 'a old_pool \<Rightarrow> bool" where
  old_works: "i < length (op_threads p) \<Longrightarrow> old_worker i p = Some p' \<Longrightarrow> old_step p p'"
| old_notify: "op_notify p = Suc n \<Longrightarrow> i < length (op_threads p) \<Longrightarrow> op_threads p ! i = Asleep \<Longrightarrow>
    old_step p (goes i Woken (p\<lparr>op_notify := n\<rparr>))"
| old_notify_nobody: "op_notify p = Suc n \<Longrightarrow> Asleep \<notin> set (op_threads p) \<Longrightarrow> old_step p (p\<lparr>op_notify := n\<rparr>)"
| old_notify_all: "op_notify_all p = Suc n \<Longrightarrow>
    old_step p (p\<lparr>op_notify_all := n, op_threads := map (\<lambda>w. if w = Asleep then Woken else w) (op_threads p)\<rparr>)"

inductive client_step :: "'a old_pool \<Rightarrow> 'a old_pool \<Rightarrow> bool" where
  client_submits: "\<not> op_shutdown p \<Longrightarrow> client_step p (old_submit t p)"
| client_shuts: "client_step p (old_shutdown p)"

definition any_old_step :: "'a old_pool \<Rightarrow> 'a old_pool \<Rightarrow> bool" where
  "any_old_step p p' \<longleftrightarrow> old_step p p' \<or> client_step p p'"

inductive_cases old_stepE: "old_step p p'"

lemma asleep_stuck:
  assumes "op_threads p = [Asleep]" "op_notify p = 0" "op_notify_all p = 0"
  shows "\<not> old_step p p'"
  using assms by (auto elim!: old_stepE simp: old_worker_def)

lemma dozing_reached: "any_old_step\<^sup>*\<^sup>* (new_old_pool 1) (goes 0 Dozing (new_old_pool 1))"
proof -
  let ?p = "new_old_pool 1 :: 'a old_pool"
  have "old_worker 0 ?p = Some (goes 0 Locking ?p)" "old_worker 0 (goes 0 Locking ?p) = Some (goes 0 Dozing ?p)"
    by (simp_all add: old_worker_def new_old_pool_def mutex_free_def goes_def sq_empty_def new_safe_queue_def)
  then have "any_old_step ?p (goes 0 Locking ?p)" "any_old_step (goes 0 Locking ?p) (goes 0 Dozing ?p)"
    unfolding any_old_step_def by (auto intro!: old_works simp: new_old_pool_def goes_def)
  then show ?thesis by (meson converse_rtranclp_into_rtranclp r_into_rtranclp)
qed

text \<open>
  The earlier pool loses wake-ups. Its worker tests the queue and then goes to sleep, while \<open>submit\<close> and
  \<open>shutdown\<close> notify without the mutex: there are runs after which a task is queued, or \<open>shutdown\<close> is joining the
  worker, and the worker sleeps with no notification to come and nothing in the pool can move.
\<close>

theorem old_pool_loses_wakeups:
  "(\<exists>p :: string old_pool. any_old_step\<^sup>*\<^sup>* (new_old_pool 1) p \<and> sq_items (op_queue p) = [''task'']
       \<and> op_threads p = [Asleep] \<and> (\<forall>p'. \<not> old_step p p'))
   \<and> (\<exists>p :: string old_pool. any_old_step\<^sup>*\<^sup>* (new_old_pool 1) p \<and> op_shutdown p
       \<and> op_threads p = [Asleep] \<and> (\<forall>p'. \<not> old_step p p'))"
proof -
  let ?p = "goes 0 Dozing (new_old_pool 1) :: string old_pool"
  have reach: "any_old_step\<^sup>*\<^sup>* (new_old_pool 1) (goes 0 Asleep (q\<lparr>op_notify := 0, op_notify_all := 0\<rparr>))"
    if "client_step ?p q" "op_notify q + op_notify_all q = 1" "op_threads q = [Dozing]" for q
  proof -
    let ?q = "q\<lparr>op_notify := 0, op_notify_all := 0\<rparr>"
    have "any_old_step ?p q" using that(1) by (simp add: any_old_step_def)
    moreover have "old_step q ?q"
    proof (cases "op_notify q = 0")
      case True
      with that(2,3) have "?q = q\<lparr>op_notify_all := 0, op_threads := map (\<lambda>w. if w = Asleep then Woken else w) (op_threads q)\<rparr>"
        by (cases q) simp
      with old_notify_all [of q 0] True that(2) show ?thesis by simp
    next
      case False
      with that(2) have "?q = q\<lparr>op_notify := 0\<rparr>" "op_notify q = Suc 0" by (cases q, simp)+
      with old_notify_nobody [of q 0] that(3) show ?thesis by simp
    qed
    then have "any_old_step q ?q" by (simp add: any_old_step_def)
    moreover have "old_step ?q (goes 0 Asleep ?q)"
      using that(3) by (intro old_works [of 0]) (simp_all add: old_worker_def)
    then have "any_old_step ?q (goes 0 Asleep ?q)" by (simp add: any_old_step_def)
    ultimately show ?thesis
      using dozing_reached by (meson rtranclp.rtrancl_into_rtrancl)
  qed
  let ?a = "goes 0 Asleep ((old_submit ''task'' ?p)\<lparr>op_notify := 0, op_notify_all := 0\<rparr>)"
  let ?b = "goes 0 Asleep ((old_shutdown ?p)\<lparr>op_notify := 0, op_notify_all := 0\<rparr>)"
  note defs = old_submit_def old_shutdown_def goes_def new_old_pool_def enqueue_def new_safe_queue_def
  have "any_old_step\<^sup>*\<^sup>* (new_old_pool 1) ?a" "any_old_step\<^sup>*\<^sup>* (new_old_pool 1) ?b"
    using reach [OF client_submits [of ?p "''task''"]] reach [OF client_shuts [of ?p]] by (simp_all add: defs)
  moreover have "\<forall>p'. \<not> old_step ?a p'" "\<forall>p'. \<not> old_step ?b p'"
    using asleep_stuck [of ?a] asleep_stuck [of ?b] by (simp_all add: defs)
  moreover have "sq_items (op_queue ?a) = [''task'']" "op_threads ?a = [Asleep]" "op_shutdown ?b" "op_threads ?b = [Asleep]"
    by (simp_all add: defs)
  ultimately show ?thesis
    by - (rule conjI, rule exI [of _ ?a], blast, rule exI [of _ ?b], blast)
qed

end
