(* ===== verification/Spd_Logger.thy ===== *)
theory Spd_Logger
  imports Sync_Queues
begin

text \<open>
  The logger, \<open>src/utils/log/use_spd_log.cpp\<close> and \<open>include/utils/log/use_spd_log.h\<close>: static state behind one mutex
  around a spdlog logger. spdlog, the file system and the clock are parameters.
\<close>

section \<open>State\<close>

text \<open>A sink of the spdlog logger, and what each sink has been given, the last line at the end.\<close>

datatype sink = Console | Log_file string | Rotating_file string nat nat

record logger =
  lg_ready :: bool
  lg_sinks :: "sink list option"
  lg_file :: string
  lg_dir :: string
  lg_prefix :: string
  lg_rotation :: bool
  lg_lines :: "(sink \<times> string) list"

definition initial_logger :: logger where
  "initial_logger = \<lparr>lg_ready = False, lg_sinks = None, lg_file = [], lg_dir = [], lg_prefix = ''zener'',
     lg_rotation = False, lg_lines = []\<rparr>"

text \<open>
  \<open>le_sink_throws\<close> and \<open>le_register_throws\<close> say whether spdlog throws when sinks are made and when a logger is registered;
  \<open>le_date\<close> is today's date or the failure to format it.
\<close>

record log_env =
  le_exists :: "string \<Rightarrow> bool"
  le_create :: "string \<Rightarrow> bool"
  le_date :: "string option"
  le_sink_throws :: bool
  le_register_throws :: bool

section \<open>Operations\<close>

text \<open>Formatting a line is spdlog's; the model keeps the message.\<close>

definition emit :: "string \<Rightarrow> logger \<Rightarrow> logger" where
  "emit msg s =
     (case lg_sinks s of
        None \<Rightarrow> s
      | Some sinks \<Rightarrow> s\<lparr>lg_lines := lg_lines s @ map (\<lambda>k. (k, msg)) sinks\<rparr>)"

definition log_init :: "log_env \<Rightarrow> bool \<Rightarrow> logger \<Rightarrow> logger outcome" where
  "log_init env held s =
     locking held
       (if lg_ready s then Inr s
        else if le_sink_throws env then Inr s
        else
          let s1 = s\<lparr>lg_sinks := Some [Console]\<rparr> in
          if le_register_throws env then Inr s1
          else Inr (emit ''New Session Start.'' (s1\<lparr>lg_ready := True\<rparr>)))"

definition generate_log_file_name :: "string option \<Rightarrow> string \<Rightarrow> string" where
  "generate_log_file_name date prefix =
     (case date of
        None \<Rightarrow> prefix @ ''_error.log''
      | Some d \<Rightarrow> prefix @ ''_'' @ d @ ''.log'')"

text \<open>\<open>operator/\<close> of \<open>std::filesystem::path\<close> with a relative file name.\<close>

definition path_join :: "string \<Rightarrow> string \<Rightarrow> string" where
  "path_join dir file = (if dir = [] \<or> last dir = CHR ''/'' then dir @ file else dir @ ''/'' @ file)"

text \<open>The directory exists or can be created.\<close>

definition have_dir :: "log_env \<Rightarrow> string \<Rightarrow> bool" where
  "have_dir env dir \<longleftrightarrow> le_exists env dir \<or> le_create env dir"

definition write_to_file :: "log_env \<Rightarrow> bool \<Rightarrow> string \<Rightarrow> string \<Rightarrow> logger \<Rightarrow> (bool \<times> logger) outcome" where
  "write_to_file env held dir prefix s =
     locking held
       (if \<not> lg_ready s \<or> lg_sinks s = None then Inr (False, s)
        else
          let s1 = s\<lparr>lg_dir := dir, lg_prefix := prefix\<rparr> in
          if \<not> have_dir env dir then Inr (False, s1)
          else
            let full = path_join dir (generate_log_file_name (le_date env) prefix);
                s2 = s1\<lparr>lg_file := full\<rparr>
            in if le_sink_throws env \<or> le_register_throws env then Inr (False, s2)
               else
                 let s3 = s2\<lparr>lg_sinks := Some [Console, Log_file full]\<rparr>;
                     s4 = (if le_exists env full then emit ''Append to existing log.'' s3 else s3)
                 in Inr (True, emit ('' : '' @ full) s4))"

definition write_to_dir :: "log_env \<Rightarrow> bool \<Rightarrow> string \<Rightarrow> logger \<Rightarrow> (bool \<times> logger) outcome" where
  "write_to_dir env held dir s = write_to_file env held dir (lg_prefix s) s"

text \<open>The two lines at the end are spdlog's formatting of the arguments (\<open>fmt\<close> is the parameter).\<close>

definition write_with_rotation ::
  "log_env \<Rightarrow> (nat \<Rightarrow> string) \<Rightarrow> bool \<Rightarrow> string \<Rightarrow> string \<Rightarrow> nat \<Rightarrow> nat \<Rightarrow> logger \<Rightarrow> (bool \<times> logger) outcome" where
  "write_with_rotation env show_nat held dir prefix max_size max_files s =
     locking held
       (if \<not> lg_ready s \<or> lg_sinks s = None then Inr (False, s)
        else
          let s1 = s\<lparr>lg_dir := dir, lg_prefix := prefix, lg_rotation := True\<rparr> in
          if \<not> have_dir env dir then Inr (False, s1)
          else
            let full = path_join dir (prefix @ ''.log'');
                s2 = s1\<lparr>lg_file := full\<rparr>
            in if le_sink_throws env \<or> le_register_throws env then Inr (False, s2)
               else
                 let s3 = s2\<lparr>lg_sinks := Some [Console, Rotating_file full max_size max_files]\<rparr>;
                     s4 = emit (''Log rotation enabled: max_size='' @ show_nat (max_size div (1024 * 1024)) @ ''MB, max_files=''
                            @ show_nat max_files) s3
                 in Inr (True, emit (''Log file created with rotation: '' @ full) s4))"

definition log_flush :: "bool \<Rightarrow> logger \<Rightarrow> logger outcome" where
  "log_flush held s = locking held (Inr s)"

text \<open>\<open>Shutdown\<close> calls \<open>Flush\<close> while it holds the mutex.\<close>

definition log_shutdown :: "bool \<Rightarrow> logger \<Rightarrow> logger outcome" where
  "log_shutdown held s =
     locking held (and_then (log_flush True s) (\<lambda>s1. Inr (s1\<lparr>lg_sinks := None, lg_ready := False\<rparr>)))"

definition log_line :: "bool \<Rightarrow> string \<Rightarrow> logger \<Rightarrow> logger outcome" where
  "log_line held msg s =
     (if \<not> lg_ready s \<or> lg_sinks s = None then Inr s else locking held (Inr (emit msg s)))"

definition destroy_logger :: "logger \<Rightarrow> logger outcome" where
  "destroy_logger s = and_then (log_flush False s) (log_shutdown False)"

section \<open>What is logged where\<close>

fun log_all :: "string list \<Rightarrow> logger \<Rightarrow> logger outcome" where
  "log_all [] s = Inr s"
| "log_all (m # ms) s = and_then (log_line False m s) (log_all ms)"

definition lines_of :: "sink \<Rightarrow> logger \<Rightarrow> string list" where
  "lines_of k s = map snd (filter (\<lambda>x. fst x = k) (lg_lines s))"

lemma emit_fields [simp]:
  "lg_ready (emit m s) = lg_ready s" "lg_sinks (emit m s) = lg_sinks s" "lg_file (emit m s) = lg_file s"
  "lg_dir (emit m s) = lg_dir s" "lg_prefix (emit m s) = lg_prefix s"
  by (simp_all add: emit_def split: option.split)

lemma lines_emit:
  "lg_sinks s = Some ks \<Longrightarrow> distinct ks \<Longrightarrow> k \<in> set ks \<Longrightarrow> lines_of k (emit m s) = lines_of k s @ [m]"
proof -
  assume s: "lg_sinks s = Some ks" and k: "distinct ks" "k \<in> set ks"
  from k have "filter (\<lambda>x. fst x = k) (map (\<lambda>k. (k, m)) ks) = [(k, m)]"
    by (induction ks) (auto simp: filter_empty_conv)
  with s show ?thesis by (simp add: lines_of_def emit_def)
qed

lemma log_all_lines:
  assumes "lg_ready s" "lg_sinks s = Some ks" "distinct ks" "k \<in> set ks"
  shows "\<exists>s'. log_all ms s = Inr s' \<and> lg_ready s' \<and> lg_sinks s' = Some ks \<and> lines_of k s' = lines_of k s @ ms"
  using assms
proof (induction ms arbitrary: s)
  case (Cons m ms)
  then have "log_line False m s = Inr (emit m s)" by (simp add: log_line_def locking_def)
  moreover from Cons.IH [of "emit m s"] Cons.prems obtain s' where
    "log_all ms (emit m s) = Inr s'" "lg_ready s'" "lg_sinks s' = Some ks" "lines_of k s' = lines_of k (emit m s) @ ms"
    by auto
  ultimately show ?case using lines_emit [OF Cons.prems(2-4)] by simp
qed simp

text \<open>
  C37: after \<open>Init\<close> and a successful \<open>WriteToFile\<close>, every message of a sequence of log calls reaches the console and the
  dated file in the directory, in order and once, after the line that names the file.
\<close>

theorem messages_reach_the_file:
  assumes "log_init env False s = Inr s1" "write_to_file env' False dir prefix s1 = Inr (True, s2)"
    and "k \<in> {Console, Log_file (path_join dir (generate_log_file_name (le_date env') prefix))}"
  shows "\<exists>s3. log_all ms s2 = Inr s3 \<and> lg_file s2 = path_join dir (generate_log_file_name (le_date env') prefix)
     \<and> lines_of k s3 = lines_of k s1 @ (if le_exists env' (lg_file s2) then [''Append to existing log.''] else [])
          @ ['' : '' @ lg_file s2] @ ms"
proof -
  let ?full = "path_join dir (generate_log_file_name (le_date env') prefix)"
  let ?s3 = "s1\<lparr>lg_dir := dir, lg_prefix := prefix, lg_file := ?full, lg_sinks := Some [Console, Log_file ?full]\<rparr>"
  let ?s4 = "if le_exists env' ?full then emit ''Append to existing log.'' ?s3 else ?s3"
  have s2: "s2 = emit ('' : '' @ ?full) ?s4" and "lg_ready s1"
    using assms(2) by (auto simp: write_to_file_def locking_def Let_def split: if_splits)
  then have r: "lg_ready s2" "lg_sinks s2 = Some [Console, Log_file ?full]" "lg_file s2 = ?full" by simp_all
  have d: "distinct [Console, Log_file ?full]" "k \<in> set [Console, Log_file ?full]" using assms(3) by auto
  have "lg_sinks ?s4 = Some [Console, Log_file ?full]" "lg_sinks ?s3 = Some [Console, Log_file ?full]" by simp_all
  note l = lines_emit [OF this(1) d] lines_emit [OF this(2) d]
  have "lines_of k ?s3 = lines_of k s1" by (simp add: lines_of_def)
  with l have "lines_of k s2 = lines_of k s1 @ (if le_exists env' ?full then [''Append to existing log.''] else []) @ ['' : '' @ ?full]"
    unfolding s2 by simp
  with log_all_lines [OF r(1,2) d, of ms] r(3) show ?thesis by auto
qed

definition plain_env :: log_env where
  "plain_env = \<lparr>le_exists = (\<lambda>p. p = ''logs''), le_create = (\<lambda>p. False), le_date = Some ''2025-03-01'',
     le_sink_throws = False, le_register_throws = False\<rparr>"

theorem messages_reach_the_file_witness:
  "\<exists>s1 s2 s3. log_init plain_env False initial_logger = Inr s1 \<and> write_to_dir plain_env False ''logs'' s1 = Inr (True, s2)
     \<and> log_all [''a'', ''b''] s2 = Inr s3
     \<and> lines_of (Log_file ''logs/zener_2025-03-01.log'') s3 = ['' : logs/zener_2025-03-01.log'', ''a'', ''b'']"
proof -
  let ?s1 = "emit ''New Session Start.'' (initial_logger\<lparr>lg_sinks := Some [Console], lg_ready := True\<rparr>)"
  have 1: "log_init plain_env False initial_logger = Inr ?s1"
    by (simp add: log_init_def locking_def plain_env_def initial_logger_def)
  obtain s2 where 2: "write_to_file plain_env False ''logs'' ''zener'' ?s1 = Inr (True, s2)"
    by (simp add: write_to_file_def locking_def plain_env_def initial_logger_def Let_def have_dir_def)
  have "path_join ''logs'' (generate_log_file_name (le_date plain_env) ''zener'') = ''logs/zener_2025-03-01.log''"
    "\<not> le_exists plain_env ''logs/zener_2025-03-01.log''"
    by (simp_all add: path_join_def generate_log_file_name_def plain_env_def)
  moreover have "lines_of (Log_file f) ?s1 = []" for f by (simp add: lines_of_def emit_def initial_logger_def)
  moreover have "write_to_dir plain_env False ''logs'' ?s1 = Inr (True, s2)"
    using 2 by (simp add: write_to_dir_def initial_logger_def)
  ultimately show ?thesis
    using messages_reach_the_file [OF 1 2, of "Log_file ''logs/zener_2025-03-01.log''" "[''a'', ''b'']"] 1 by auto
qed

text \<open>\<open>Shutdown\<close> and the destructor of the logger never return: the mutex is not recursive.\<close>

lemma shutdown_never_returns: "log_shutdown held s = Inl Deadlock" "destroy_logger s = Inl Deadlock"
  by (simp_all add: log_shutdown_def log_flush_def locking_def destroy_logger_def)

end
