(* ===== verification/Config_Reader.thy ===== *)
theory Config_Reader
  imports Zener_Prelude
begin

text \<open>
  The configuration, \<open>src/config/config.cpp\<close> and \<open>include/config/config.h\<close>, which reads a subset of TOML into one
  table of strings, and the string hash of \<open>include/utils/hash.hpp\<close>.
\<close>

unbundle bit_operations_syntax

section \<open>Lines\<close>

abbreviation newline :: char where
  "newline \<equiv> CHR 0x0A"

definition blank :: "char \<Rightarrow> bool" where
  "blank c \<longleftrightarrow> c = CHR '' '' \<or> c = CHR 0x09"

text \<open>
  The two calls of \<open>erase\<close>; for a blank string \<open>find_last_not_of\<close> gives \<open>npos\<close> and \<open>npos + 1\<close> is 0.
\<close>

definition trim_left :: "string \<Rightarrow> string" where
  "trim_left s = dropWhile blank s"

definition trim_right :: "string \<Rightarrow> string" where
  "trim_right s = rev (dropWhile blank (rev s))"

definition trim :: "string \<Rightarrow> string" where
  "trim s = trim_right (trim_left s)"

text \<open>\<open>std::getline\<close> until it fails.\<close>

function file_lines :: "string \<Rightarrow> string list" where
  "file_lines [] = []"
| "file_lines (c # cs) =
     takeWhile (\<lambda>x. x \<noteq> newline) (c # cs) # file_lines (drop 1 (dropWhile (\<lambda>x. x \<noteq> newline) (c # cs)))"
  by pat_completeness auto
termination
proof (relation "measure length")
  fix c :: char and cs
  have "length (dropWhile (\<lambda>x. x \<noteq> newline) (c # cs)) \<le> length (c # cs)" by (rule length_dropWhile_le)
  then show "(drop 1 (dropWhile (\<lambda>x. x \<noteq> newline) (c # cs)), c # cs) \<in> measure length"
    by (auto simp: less_Suc_eq_le)
qed simp

text \<open>
  The two \<open>getline\<close> calls on a line: up to the first \<open>=\<close>, then the rest. The second fails on an empty rest.
\<close>

definition split_entry :: "string \<Rightarrow> (string \<times> string) option" where
  "split_entry line =
     (let key = takeWhile (\<lambda>c. c \<noteq> CHR ''='') line; rest = drop (Suc (length key)) line in
      if line = [] \<or> rest = [] then None else Some (key, rest))"

definition strip_comment :: "string \<Rightarrow> string" where
  "strip_comment v = (if CHR ''#'' \<in> set v then trim_right (takeWhile (\<lambda>c. c \<noteq> CHR ''#'') v) else v)"

definition unquote :: "string \<Rightarrow> string" where
  "unquote v =
     (if 2 \<le> length v \<and> hd v = CHR 0x22 \<and> last v = CHR 0x22 then take (length v - 2) (drop 1 v) else v)"

definition full_key :: "string \<Rightarrow> string \<Rightarrow> string" where
  "full_key sec key = (if sec = [] then key else sec @ ''.'' @ key)"

text \<open>One line: the current section and the table.\<close>

type_synonym config_map = "string \<rightharpoonup> string"

definition config_line :: "string \<Rightarrow> string \<times> config_map \<Rightarrow> string \<times> config_map" where
  "config_line line0 s = (case s of (sec, m) \<Rightarrow>
     if line0 = [] \<or> hd line0 = CHR ''#'' then (sec, m)
     else
       let line = trim line0 in
       if line \<noteq> [] \<and> hd line = CHR ''['' \<and> last line = CHR '']''
       then (take (length line - 2) (drop 1 line), m)
       else case split_entry line of
         None \<Rightarrow> (sec, m)
       | Some (key, value) \<Rightarrow> (sec, m(full_key sec (trim key) \<mapsto> unquote (strip_comment (trim value)))))"

section \<open>The configuration\<close>

text \<open>
  What the file system says of the file: it exists, it is readable or can be made so, and its content once
  it has been opened.
\<close>

record config_file =
  cf_exists :: bool
  cf_readable :: bool
  cf_chmod :: bool
  cf_content :: "string option"

record config =
  cg_map :: config_map
  cg_ready :: bool

definition new_config :: config where
  "new_config = \<lparr>cg_map = Map.empty, cg_ready = False\<rparr>"

definition config_read :: "(string \<Rightarrow> config_file) \<Rightarrow> string \<Rightarrow> config \<Rightarrow> bool \<times> config" where
  "config_read fs filename c =
     (let f = fs filename in
      if \<not> cf_exists f then (False, c)
      else if \<not> cf_readable f \<and> \<not> cf_chmod f then (False, c)
      else case cf_content f of
        None \<Rightarrow> (False, c)
      | Some text \<Rightarrow> (True, c\<lparr>cg_map := snd (fold config_line (file_lines text) ([], cg_map c))\<rparr>))"

definition config_init :: "(string \<Rightarrow> config_file) \<Rightarrow> string \<Rightarrow> config \<Rightarrow> bool \<times> config" where
  "config_init fs path c =
     (if cg_ready c then (True, c)
      else case config_read fs path c of
        (ok, c1) \<Rightarrow> if \<not> ok then (False, c1) else (True, c1\<lparr>cg_ready := True\<rparr>))"

definition get_config :: "config \<Rightarrow> string \<Rightarrow> string" where
  "get_config c key =
     (if \<not> cg_ready c then [] else case cg_map c key of Some v \<Rightarrow> v | None \<Rightarrow> [])"

text \<open>The same under the mutex of the instance, which nothing else takes.\<close>

definition get_config_safe :: "config \<Rightarrow> string \<Rightarrow> string" where
  "get_config_safe c key =
     (if \<not> cg_ready c then []
      else case cg_map c key of
        Some v \<Rightarrow> v
      | None \<Rightarrow> [])"

text \<open>\<open>Print\<close>: the entries in the order of the hash table, which is a parameter.\<close>

definition config_print :: "(config_map \<Rightarrow> (string \<times> string) list) \<Rightarrow> config \<Rightarrow> (string \<times> string) list option" where
  "config_print order c = (if \<not> cg_ready c then None else Some (order (cg_map c)))"

text \<open>\<open>atoi\<close> of the C library, for values that fit.\<close>

definition c_space :: "char \<Rightarrow> bool" where
  "c_space c \<longleftrightarrow> of_char c = (32 :: nat) \<or> ((9 :: nat) \<le> of_char c \<and> of_char c \<le> (13 :: nat))"

definition digits_value :: "string \<Rightarrow> int" where
  "digits_value s = int (undec (takeWhile is_digit s))"

definition atoi :: "string \<Rightarrow> int" where
  "atoi s =
     (case dropWhile c_space s of
        [] \<Rightarrow> 0
      | c # cs \<Rightarrow> if c = CHR ''-'' then - digits_value cs
                  else if c = CHR ''+'' then digits_value cs
                  else digits_value (c # cs))"

lemma atoi_dec_nat: "atoi (dec_nat n) = int n"
proof -
  have "dec_nat n \<noteq> []" by (subst dec_nat.simps) simp
  then obtain c cs where d: "dec_nat n = c # cs" by (cases "dec_nat n") auto
  have "is_digit c" using dec_nat_digits [of n] d by simp
  then have "\<not> c_space c" "c \<noteq> CHR ''-''" "c \<noteq> CHR ''+''" by (auto simp: is_digit_def c_space_def)
  moreover have "takeWhile is_digit (c # cs) = c # cs" using dec_nat_digits [of n] d by (simp add: takeWhile_eq_all_conv)
  ultimately show ?thesis using undec_dec_nat [of n] by (simp add: atoi_def d digits_value_def)
qed

section \<open>\<open>hash_str\<close>\<close>

text \<open>A \<open>char\<close> is signed on the targets of the build.\<close>

fun hash_str :: "string \<Rightarrow> nat \<Rightarrow> 32 word" where
  "hash_str s 0 = 5381"
| "hash_str s (Suc n) = (hash_str s n * 33) XOR signed (of_char (s ! n) :: 8 word)"

lemma hash_str_append: "n \<le> length s \<Longrightarrow> hash_str (s @ t) n = hash_str s n"
  by (induction n) (simp_all add: nth_append)

lemma hash_str_fold:
  "hash_str s (length s) = foldl (\<lambda>h c. (h * 33) XOR signed (of_char c :: 8 word)) 5381 s"
proof (induction s rule: rev_induct)
  case (snoc c s)
  then show ?case using hash_str_append [of "length s" s "[c]"] by (simp add: nth_append)
qed simp

section \<open>Reading back what was written\<close>

lemma trim_left_id: "s = [] \<or> \<not> blank (hd s) \<Longrightarrow> trim_left s = s"
  by (cases s) (auto simp: trim_left_def)

lemma trim_right_id: "s = [] \<or> \<not> blank (last s) \<Longrightarrow> trim_right s = s"
  by (cases s rule: rev_cases) (auto simp: trim_right_def)

lemma trim_right_blanks: "trim_right (s @ [c]) = (if blank c then trim_right s else s @ [c])"
  by (simp add: trim_right_def)

lemma trim_id: "s = [] \<or> \<not> blank (hd s) \<and> \<not> blank (last s) \<Longrightarrow> trim s = s"
  by (auto simp: trim_def trim_left_id trim_right_id)

lemma file_lines_line:
  assumes "newline \<notin> set l"
  shows "file_lines (l @ newline # t) = l # file_lines t"
proof -
  have "takeWhile (\<lambda>x. x \<noteq> newline) (l @ newline # t) = l" "dropWhile (\<lambda>x. x \<noteq> newline) (l @ newline # t) = newline # t"
    using assms by (auto simp: takeWhile_append dropWhile_append)
  moreover obtain c cs where "l @ newline # t = c # cs" by (cases l) auto
  ultimately show ?thesis by (metis drop0 drop_Suc_Cons file_lines.simps(2) One_nat_def)
qed

definition render_section :: "string \<Rightarrow> string" where
  "render_section sec = ''['' @ sec @ '']''"

definition render_entry :: "string \<Rightarrow> string \<Rightarrow> string" where
  "render_entry k v = k @ '' = '' @ [CHR 0x22] @ v @ [CHR 0x22]"

definition key_ok :: "string \<Rightarrow> bool" where
  "key_ok k \<longleftrightarrow> k \<noteq> [] \<and> \<not> blank (hd k) \<and> \<not> blank (last k) \<and> hd k \<noteq> CHR ''#''
     \<and> CHR ''='' \<notin> set k \<and> newline \<notin> set k"

definition value_ok :: "string \<Rightarrow> bool" where
  "value_ok v \<longleftrightarrow> CHR ''#'' \<notin> set v \<and> newline \<notin> set v"

lemma section_line: "config_line (render_section sec) (sec0, m) = (sec, m)"
proof -
  have "trim (render_section sec) = render_section sec"
    by (rule trim_id) (simp add: render_section_def blank_def)
  then show ?thesis by (simp add: config_line_def render_section_def)
qed

lemma entry_line:
  assumes "key_ok k" "value_ok v"
  shows "config_line (render_entry k v) (sec, m) = (sec, m(full_key sec k \<mapsto> v))"
proof -
  let ?l = "render_entry k v" and ?q = "[CHR 0x22] @ v @ [CHR 0x22]"
  have k: "k \<noteq> []" "\<not> blank (hd k)" "\<not> blank (last k)" "hd k \<noteq> CHR ''#''" "CHR ''='' \<notin> set k"
    using assms(1) by (simp_all add: key_ok_def)
  have l: "?l \<noteq> []" "hd ?l = hd k" "last ?l = CHR 0x22" using k(1) by (simp_all add: render_entry_def)
  with k have t: "trim ?l = ?l" by (intro trim_id) (simp add: blank_def)
  have tw: "takeWhile (\<lambda>c. c \<noteq> CHR ''='') ?l = k @ '' ''"
    using k(5) by (auto simp: render_entry_def takeWhile_append)
  have sp: "split_entry ?l = Some (k @ '' '', '' '' @ ?q)"
    unfolding split_entry_def tw by (simp add: render_entry_def)
  have tk: "trim (k @ '' '') = k"
  proof -
    have "trim_left (k @ '' '') = k @ '' ''" using k(1,2) by (intro trim_left_id) simp
    then show ?thesis using trim_right_blanks [of k "CHR '' ''"] trim_right_id [of k] k(3)
      by (simp add: trim_def blank_def)
  qed
  have tv: "trim ('' '' @ ?q) = ?q"
    using trim_right_id [of ?q] by (simp add: trim_def trim_left_def blank_def)
  have "strip_comment ?q = ?q" using assms(2) by (simp add: strip_comment_def value_ok_def)
  moreover have "unquote ?q = v" by (simp add: unquote_def)
  ultimately have "unquote (strip_comment (trim ('' '' @ ?q))) = v" unfolding tv by simp
  with t l k sp tk show ?thesis unfolding config_line_def by (simp add: Let_def)
qed

type_synonym config_doc = "(string \<times> (string \<times> string) list) list"

definition render_config :: "config_doc \<Rightarrow> string" where
  "render_config doc = concat (map (\<lambda>(sec, es). render_section sec @ [newline]
      @ concat (map (\<lambda>(k, v). render_entry k v @ [newline]) es)) doc)"

definition config_entries :: "config_doc \<Rightarrow> (string \<times> string) list" where
  "config_entries doc = concat (map (\<lambda>(sec, es). map (\<lambda>(k, v). (full_key sec k, v)) es) doc)"

lemma entries_read:
  assumes "\<forall>(k, v) \<in> set es. key_ok k \<and> value_ok v"
  shows "fold config_line (file_lines (concat (map (\<lambda>(k, v). render_entry k v @ [newline]) es) @ t)) (sec, m)
     = fold config_line (file_lines t) (sec, m ++ map_of (rev (map (\<lambda>(k, v). (full_key sec k, v)) es)))"
  using assms
proof (induction es arbitrary: m)
  case (Cons e es)
  obtain k v where e: "e = (k, v)" by fastforce
  with Cons.prems have kv: "key_ok k" "value_ok v" by auto
  then have nl: "newline \<notin> set (render_entry k v)" by (auto simp: render_entry_def key_ok_def value_ok_def)
  from Cons.IH Cons.prems file_lines_line [OF nl] entry_line [OF kv] show ?case
    by (simp add: e)
qed simp

text \<open>
  C36: a written configuration is read back. If the file holds sections with quoted entries, keys and values
  without the characters that the format cannot carry, then after \<open>Init\<close> every entry is found under its section
  and key, the last one if there are several, and nothing else is.
\<close>

theorem config_roundtrip:
  assumes "\<forall>(sec, es) \<in> set doc. newline \<notin> set sec \<and> (\<forall>(k, v) \<in> set es. key_ok k \<and> value_ok v)"
    and "fs path = \<lparr>cf_exists = True, cf_readable = r, cf_chmod = True, cf_content = Some (render_config doc)\<rparr>"
  shows "\<exists>c. config_init fs path new_config = (True, c)
     \<and> get_config c = (\<lambda>key. case map_of (rev (config_entries doc)) key of Some v \<Rightarrow> v | None \<Rightarrow> [])"
proof -
  have "snd (fold config_line (file_lines (render_config doc)) (sec0, m)) = m ++ map_of (rev (config_entries doc))" for sec0 m
    using assms(1)
  proof (induction doc arbitrary: sec0 m)
    case (Cons d doc)
    obtain sec es where d: "d = (sec, es)" by fastforce
    with Cons.prems have s: "newline \<notin> set sec" "\<forall>(k, v) \<in> set es. key_ok k \<and> value_ok v" by auto
    then have nl: "newline \<notin> set (render_section sec)" by (auto simp: render_section_def)
    have "render_config (d # doc) = render_section sec @ newline
        # (concat (map (\<lambda>(k, v). render_entry k v @ [newline]) es) @ render_config doc)"
      by (simp add: render_config_def d)
    with Cons.IH Cons.prems entries_read [OF s(2)] show ?case
      by (simp add: file_lines_line [OF nl] section_line config_entries_def d map_add_assoc)
  qed (simp add: render_config_def config_entries_def)
  then show ?thesis
    by (simp add: config_init_def config_read_def new_config_def assms(2) get_config_def fun_eq_iff)
qed

theorem config_roundtrip_witness:
  "\<exists>c. config_init (\<lambda>p. \<lparr>cf_exists = True, cf_readable = True, cf_chmod = True,
         cf_content = Some (render_config [(''app'', [(''port'', ''1316''), (''trig'', ''3'')])])\<rparr>) ''config.toml'' new_config = (True, c)
     \<and> atoi (get_config c ''app.port'') = 1316"
proof -
  let ?doc = "[(''app'', [(''port'', ''1316''), (''trig'', ''3'')])]"
  let ?fs = "\<lambda>p :: string. \<lparr>cf_exists = True, cf_readable = True, cf_chmod = True, cf_content = Some (render_config ?doc)\<rparr>"
  have "\<forall>(sec, es) \<in> set ?doc. newline \<notin> set sec \<and> (\<forall>(k, v) \<in> set es. key_ok k \<and> value_ok v)"
    by (simp add: key_ok_def value_ok_def blank_def)
  from config_roundtrip [OF this, of ?fs "''config.toml''" True] obtain c where
    c: "config_init ?fs ''config.toml'' new_config = (True, c)"
      "get_config c = (\<lambda>key. case map_of (rev (config_entries ?doc)) key of Some v \<Rightarrow> v | None \<Rightarrow> [])" by auto
  have "get_config c ''app.port'' = ''1316''" unfolding c(2) by (simp add: config_entries_def full_key_def)
  moreover have "atoi ''1316'' = 1316" by code_simp
  ultimately show ?thesis using c(1) by auto
qed

text \<open>A \<open>#\<close> inside quotes ends the value, and the opening quote stays.\<close>

lemma quoted_hash_is_cut:
  "config_line (''password = '' @ [CHR 0x22] @ ''a#b'' @ [CHR 0x22]) (sec, m)
     = (sec, m(full_key sec ''password'' \<mapsto> [CHR 0x22] @ ''a''))"
  by (simp add: config_line_def trim_def trim_left_def trim_right_def blank_def split_entry_def unquote_def strip_comment_def)

end
