(* ===== verification/Event_Poll.thy ===== *)
theory Event_Poll
  imports Zener_Prelude
begin

text \<open>
  The wrapper around epoll, \<open>src/core/epoller.cpp\<close> and \<open>include/core/epoller.h\<close>, and the event masks that the
  server derives from its trigger mode. The kernel's interest list is a parameter.
\<close>

unbundle bit_operations_syntax

section \<open>The kernel's interface\<close>

definition EPOLLIN :: "32 word" where "EPOLLIN = 0x1"
definition EPOLLOUT :: "32 word" where "EPOLLOUT = 0x4"
definition EPOLLERR :: "32 word" where "EPOLLERR = 0x8"
definition EPOLLHUP :: "32 word" where "EPOLLHUP = 0x10"
definition EPOLLRDHUP :: "32 word" where "EPOLLRDHUP = 0x2000"
definition EPOLLONESHOT :: "32 word" where "EPOLLONESHOT = 0x40000000"
definition EPOLLET :: "32 word" where "EPOLLET = 0x80000000"

lemmas epoll_flags = EPOLLIN_def EPOLLOUT_def EPOLLERR_def EPOLLHUP_def EPOLLRDHUP_def EPOLLONESHOT_def EPOLLET_def

text \<open>
  \<open>epoll_ctl\<close> on the one epoll instance: operation, descriptor and events to success and the new kernel state.
\<close>

datatype epoll_op = CTL_ADD | CTL_MOD | CTL_DEL

type_synonym 'k epoll_ctl = "epoll_op \<Rightarrow> int \<Rightarrow> 32 word \<Rightarrow> 'k \<Rightarrow> bool \<times> 'k"

text \<open>
  What the manual says of it: \<open>interest\<close> is the interest list. A call that fails changes nothing; adding needs a
  new descriptor, the others a registered one.
\<close>

definition epoll_contract :: "('k \<Rightarrow> int \<rightharpoonup> 32 word) \<Rightarrow> 'k epoll_ctl \<Rightarrow> bool" where
  "epoll_contract interest ctl \<longleftrightarrow>
     (\<forall>oper fd ev k. case ctl oper fd ev k of (ok, k') \<Rightarrow>
        if \<not> ok then interest k' = interest k
        else case oper of
          CTL_ADD \<Rightarrow> interest k fd = None \<and> interest k' = (interest k)(fd \<mapsto> ev)
        | CTL_MOD \<Rightarrow> interest k fd \<noteq> None \<and> interest k' = (interest k)(fd \<mapsto> ev)
        | CTL_DEL \<Rightarrow> interest k fd \<noteq> None \<and> interest k' = (interest k)(fd := None))"

text \<open>A kernel that keeps the contract.\<close>

fun table_ctl :: "(int \<rightharpoonup> 32 word) epoll_ctl" where
  "table_ctl CTL_ADD fd ev k = (if k fd = None then (True, k(fd \<mapsto> ev)) else (False, k))"
| "table_ctl CTL_MOD fd ev k = (if k fd = None then (False, k) else (True, k(fd \<mapsto> ev)))"
| "table_ctl CTL_DEL fd ev k = (if k fd = None then (False, k) else (True, k(fd := None)))"

lemma table_ctl_contract: "epoll_contract (\<lambda>k. k) table_ctl"
proof -
  have "case table_ctl oper fd ev k of (ok, k') \<Rightarrow>
        if \<not> ok then k' = k
        else case oper of
          CTL_ADD \<Rightarrow> k fd = None \<and> k' = k(fd \<mapsto> ev)
        | CTL_MOD \<Rightarrow> k fd \<noteq> None \<and> k' = k(fd \<mapsto> ev)
        | CTL_DEL \<Rightarrow> k fd \<noteq> None \<and> k' = k(fd := None)" for oper fd ev and k :: "int \<rightharpoonup> 32 word"
    by (cases oper) simp_all
  then show ?thesis by (simp add: epoll_contract_def)
qed

lemma epoll_contractD:
  assumes "epoll_contract interest ctl"
  shows "ctl oper fd ev k = (False, k') \<Longrightarrow> interest k' = interest k"
    and "ctl CTL_ADD fd ev k = (True, k') \<Longrightarrow> interest k fd = None \<and> interest k' = (interest k)(fd \<mapsto> ev)"
    and "ctl CTL_MOD fd ev k = (True, k') \<Longrightarrow> interest k fd \<noteq> None \<and> interest k' = (interest k)(fd \<mapsto> ev)"
    and "ctl CTL_DEL fd ev k = (True, k') \<Longrightarrow> interest k fd \<noteq> None \<and> interest k' = (interest k)(fd := None)"
proof -
  note C = assms [unfolded epoll_contract_def, THEN spec, THEN spec [of _ fd], THEN spec [of _ ev], THEN spec [of _ k]]
  show "ctl oper fd ev k = (False, k') \<Longrightarrow> interest k' = interest k"
    using C [of oper] by simp
  show "ctl CTL_ADD fd ev k = (True, k') \<Longrightarrow> interest k fd = None \<and> interest k' = (interest k)(fd \<mapsto> ev)"
    using C [of CTL_ADD] by simp
  show "ctl CTL_MOD fd ev k = (True, k') \<Longrightarrow> interest k fd \<noteq> None \<and> interest k' = (interest k)(fd \<mapsto> ev)"
    using C [of CTL_MOD] by simp
  show "ctl CTL_DEL fd ev k = (True, k') \<Longrightarrow> interest k fd \<noteq> None \<and> interest k' = (interest k)(fd := None)"
    using C [of CTL_DEL] by simp
qed

section \<open>\<open>Epoller\<close>\<close>

text \<open>\<open>el_events\<close> is the array that \<open>epoll_wait\<close> fills: a descriptor and its events.\<close>

record epoller =
  el_et :: bool
  el_fd :: int
  el_events :: "(int \<times> 32 word) list"

definition N_MAX_EVENT :: nat where
  "N_MAX_EVENT = 1024"

definition new_epoller :: "int \<Rightarrow> nat \<Rightarrow> bool \<Rightarrow> epoller outcome" where
  "new_epoller epoll_fd max_event is_et =
     cpp_assert (0 \<le> epoll_fd \<and> max_event \<noteq> 0)
       (Inr \<lparr>el_et = is_et, el_fd = epoll_fd, el_events = replicate max_event (0, 0)\<rparr>)"

definition add_fd :: "'k epoll_ctl \<Rightarrow> epoller \<Rightarrow> int \<Rightarrow> 32 word \<Rightarrow> 'k \<Rightarrow> bool \<times> 'k" where
  "add_fd ctl e fd events k =
     (if fd < 0 then (False, k)
      else
        let ev = events;
            ev = (if el_et e then EPOLLIN OR EPOLLET else EPOLLIN)
        in ctl CTL_ADD fd ev k)"

definition mod_fd :: "'k epoll_ctl \<Rightarrow> int \<Rightarrow> 32 word \<Rightarrow> 'k \<Rightarrow> bool \<times> 'k" where
  "mod_fd ctl fd events k = (if fd < 0 then (False, k) else ctl CTL_MOD fd events k)"

definition del_fd :: "'k epoll_ctl \<Rightarrow> int \<Rightarrow> 'k \<Rightarrow> (bool \<times> 'k) outcome" where
  "del_fd ctl fd k = cpp_assert (0 \<le> fd) (Inr (if fd < 0 then (False, k) else ctl CTL_DEL fd 0 k))"

text \<open>\<open>answer\<close> is what the kernel reports for an array of the given size: an error or the ready descriptors.\<close>

definition epoll_wait :: "(nat \<Rightarrow> int + (int \<times> 32 word) list) \<Rightarrow> epoller \<Rightarrow> int \<times> epoller" where
  "epoll_wait answer e =
     (case answer (length (el_events e)) of
        Inl err \<Rightarrow> (-1, e)
      | Inr ready \<Rightarrow> (int (length ready), e\<lparr>el_events := ready @ drop (length ready) (el_events e)\<rparr>))"

definition get_event_fd :: "epoller \<Rightarrow> nat \<Rightarrow> int outcome" where
  "get_event_fd e i = cpp_assert (i < length (el_events e)) (Inr (fst (el_events e ! i)))"

definition get_events :: "epoller \<Rightarrow> nat \<Rightarrow> 32 word outcome" where
  "get_events e i = cpp_assert (i < length (el_events e)) (Inr (snd (el_events e ! i)))"

section \<open>Trigger modes\<close>

text \<open>\<open>Server::initEventMode\<close>: the events of the listening socket, those of a connection, and \<open>Conn::isET\<close>.\<close>

definition init_event_mode :: "int \<Rightarrow> 32 word \<times> 32 word \<times> bool" where
  "init_event_mode trig =
     (let listen0 = EPOLLRDHUP; conn0 = EPOLLONESHOT OR EPOLLRDHUP;
          (listen, conn) =
            (if trig = 0 then (listen0, conn0)
             else if trig = 1 then (listen0, conn0 OR EPOLLET)
             else if trig = 2 then (listen0 OR EPOLLET, conn0)
             else (listen0 OR EPOLLET, conn0 OR EPOLLET))
      in (listen, conn, conn AND EPOLLET \<noteq> 0))"

lemma mode_flags:
  "fst (init_event_mode trig) AND EPOLLET \<noteq> 0 \<longleftrightarrow> trig \<noteq> 0 \<and> trig \<noteq> 1"
  "fst (snd (init_event_mode trig)) AND EPOLLET \<noteq> 0 \<longleftrightarrow> trig \<noteq> 0 \<and> trig \<noteq> 2"
  "snd (snd (init_event_mode trig)) \<longleftrightarrow> trig \<noteq> 0 \<and> trig \<noteq> 2"
  "fst (snd (init_event_mode trig)) AND EPOLLONESHOT \<noteq> 0"
  by (simp_all add: init_event_mode_def epoll_flags)

text \<open>
  \<open>AddFd\<close> ignores the events it is asked for. Whatever the server passes, in particular the one-shot and hang-up flags that
  \<open>initEventMode\<close> puts into every connection mask, the wrapper registers only readability, edge-triggered
  unless it was constructed otherwise; \<open>ModFd\<close> does register what it is given.
\<close>

theorem add_fd_ignores_events:
  assumes "epoll_contract interest ctl" "0 \<le> fd"
    and "add_fd ctl e fd (fst (snd (init_event_mode trig)) OR EPOLLIN) k = (True, k1)"
    and "mod_fd ctl fd (fst (snd (init_event_mode trig)) OR EPOLLIN) k1 = (True, k2)"
  shows "(\<forall>events. add_fd ctl e fd events k = (True, k1))
     \<and> interest k1 fd = Some (if el_et e then EPOLLIN OR EPOLLET else EPOLLIN)
     \<and> the (interest k1 fd) AND (EPOLLONESHOT OR EPOLLRDHUP) = 0
     \<and> the (interest k2 fd) AND (EPOLLONESHOT OR EPOLLRDHUP) = EPOLLONESHOT OR EPOLLRDHUP"
proof -
  have ctl: "ctl CTL_ADD fd (if el_et e then EPOLLIN OR EPOLLET else EPOLLIN) k = (True, k1)"
    "ctl CTL_MOD fd (fst (snd (init_event_mode trig)) OR EPOLLIN) k1 = (True, k2)"
    using assms(2-4) by (auto simp: add_fd_def mod_fd_def Let_def)
  have "interest k1 fd = Some (if el_et e then EPOLLIN OR EPOLLET else EPOLLIN)"
    "interest k2 fd = Some (fst (snd (init_event_mode trig)) OR EPOLLIN)"
    using epoll_contractD(2) [OF assms(1) ctl(1)] epoll_contractD(3) [OF assms(1) ctl(2)] by simp_all
  moreover have "(fst (snd (init_event_mode trig)) OR EPOLLIN) AND (EPOLLONESHOT OR EPOLLRDHUP) = EPOLLONESHOT OR EPOLLRDHUP"
    by (simp add: init_event_mode_def epoll_flags Let_def)
  moreover have "\<forall>events. add_fd ctl e fd events k = (True, k1)"
    using ctl(1) assms(2) by (simp add: add_fd_def Let_def)
  ultimately show ?thesis by (simp add: epoll_flags)
qed

theorem add_fd_ignores_events_witness:
  "\<exists>k. add_fd table_ctl \<lparr>el_et = True, el_fd = 3, el_events = []\<rparr> 7 (fst (snd (init_event_mode 3)) OR EPOLLIN) Map.empty = (True, k)
     \<and> the (k 7) AND (EPOLLONESHOT OR EPOLLRDHUP) = 0"
proof -
  let ?e = "\<lparr>el_et = True, el_fd = 3, el_events = []\<rparr>" and ?ev = "fst (snd (init_event_mode 3)) OR EPOLLIN"
  have a: "add_fd table_ctl ?e 7 ?ev Map.empty = (True, [7 \<mapsto> EPOLLIN OR EPOLLET])"
    and b: "mod_fd table_ctl 7 ?ev [7 \<mapsto> EPOLLIN OR EPOLLET] = (True, [7 \<mapsto> ?ev])"
    by (simp_all add: add_fd_def mod_fd_def)
  from add_fd_ignores_events [OF table_ctl_contract _ a b] a show ?thesis by auto
qed

end
