(* ===== verification/Pool_Progress.thy ===== *)
theory Pool_Progress
  imports Thread_Pool
begin

text \<open>
  The pool of the server left alone: its own steps come to an end, and at the end every task has been run.
\<close>

section \<open>The steps of the pool itself\<close>

text \<open>
  The workers and the pending notifications, without submissions, spurious wake-ups and shutdown. A step that runs a task ends
  when the task returns.
\<close>

inductive work_step :: "'a pool_run \<Rightarrow> 'a pool_run \<Rightarrow> bool" where
  notified_worker: "pr_notify p = Suc n \<Longrightarrow> i < length (tp_workers p) \<Longrightarrow> tp_workers p ! i = Waiting \<Longrightarrow>
    work_step p (p\<lparr>tp_workers := (tp_workers p)[i := Ready], pr_notify := n\<rparr>)"
| notified_nobody: "pr_notify p = Suc n \<Longrightarrow> Waiting \<notin> set (tp_workers p) \<Longrightarrow> work_step p (p\<lparr>pr_notify := n\<rparr>)"
| worker_turns: "i < length (tp_workers p) \<Longrightarrow> tp_workers p ! i = Ready \<Longrightarrow>
    work_step p (record_start i (worker_turn i p))"
| worker_returns: "i < length (tp_workers p) \<Longrightarrow> tp_workers p ! i = Running t \<Longrightarrow>
    work_step p ((task_returns i p)\<lparr>pr_finished := pr_finished p @ [t]\<rparr>)"

lemma work_step_pool: "work_step p q \<Longrightarrow> pool_step p q"
  by (auto elim!: work_step.cases intro: pool_step.intros)

lemma turn_frame [simp]:
  fixes p :: "'a pool_run"
  shows "tp_closed (worker_turn i p) = tp_closed p" "pr_submitted (worker_turn i p) = pr_submitted p"
    "pr_notify (worker_turn i p) = pr_notify p"
  by (auto simp: worker_turn_def split: list.split)

lemma work_step_frame: "work_step p q \<Longrightarrow> tp_closed q = tp_closed p \<and> pr_submitted q = pr_submitted p"
  by (auto elim!: work_step.cases simp: task_returns_def)

lemma work_steps_pool: "work_step\<^sup>*\<^sup>* p q \<Longrightarrow> pool_step\<^sup>*\<^sup>* p q"
  by (rule rtranclp_mono [THEN predicate2D, OF predicate2I [OF work_step_pool]])

lemma work_steps_frame: "work_step\<^sup>*\<^sup>* p q \<Longrightarrow> tp_closed q = tp_closed p \<and> pr_submitted q = pr_submitted p"
  by (induction rule: rtranclp_induct) (auto dest: work_step_frame)

section \<open>Termination\<close>

text \<open>What is left to do: a running task will make its worker look again, a notification will wake one.\<close>

fun effort :: "'a worker \<Rightarrow> nat" where
  "effort Ready = 1"
| "effort Waiting = 0"
| "effort (Running t) = 2"
| "effort Exited = 0"

definition work_left :: "'a pool_run \<Rightarrow> nat" where
  "work_left p = 2 * length (tp_tasks p) + 2 * pr_notify p + sum_list (map effort (tp_workers p))"

lemma effort_update:
  "i < length ws \<Longrightarrow> sum_list (map effort (ws[i := w])) + effort (ws ! i) = sum_list (map effort ws) + effort w"
proof (induction ws arbitrary: i)
  case (Cons v ws)
  then show ?case by (cases i) auto
qed simp

lemma turn_decreases:
  fixes p :: "'a pool_run"
  assumes "i < length (tp_workers p)" "tp_workers p ! i = Ready"
  shows "work_left (record_start i (worker_turn i p)) < work_left p"
proof -
  note e = effort_update [OF assms(1), unfolded assms(2)]
  show ?thesis
  proof (cases "tp_closed p \<or> tp_tasks p = []")
    case True
    with e [of Exited] e [of Waiting] show ?thesis by (auto simp: work_left_def worker_turn_def)
  next
    case False
    then obtain t ts where "tp_tasks p = t # ts" by (cases "tp_tasks p") auto
    with False e [of "Running t"] show ?thesis by (simp add: work_left_def worker_turn_def)
  qed
qed

lemma work_step_decreases: "work_step p q \<Longrightarrow> work_left q < work_left p"
proof (induction rule: work_step.cases)
  case (notified_worker p n i)
  with effort_update [of i "tp_workers p" Ready] show ?case by (simp add: work_left_def)
next
  case (notified_nobody p n)
  then show ?case by (simp add: work_left_def)
next
  case (worker_turns i p)
  then show ?case using turn_decreases [of i p] by simp
next
  case (worker_returns i p t)
  with effort_update [of i "tp_workers p" Ready] show ?case by (simp add: work_left_def task_returns_def)
qed

lemma work_steps_bound: "(work_step ^^ k) p q \<Longrightarrow> k + work_left q \<le> work_left p"
proof (induction k arbitrary: q)
  case (Suc k)
  then obtain r where "(work_step ^^ k) p r" "work_step r q" by auto
  with Suc.IH [of r] work_step_decreases [of r q] show ?case by simp
qed simp

section \<open>The end\<close>

lemma at_rest:
  assumes "pool_inv n q" "0 < n" "\<not> tp_closed q" "\<And>r. \<not> work_step q r"
  shows "pr_started q = pr_submitted q \<and> mset (pr_finished q) = mset (pr_submitted q) \<and> tp_tasks q = [] \<and> tp_active q = 0 \<and> set (tp_workers q) = {Waiting}"
proof -
  have len: "length (tp_workers q) = n" and act: "tp_active q = length (filter is_running (tp_workers q))"
    and ran: "mset (pr_started q) = mset (pr_finished q) + mset (running_tasks (tp_workers q))"
    and sub: "pr_submitted q = pr_started q @ tp_tasks q" and ex: "Exited \<notin> set (tp_workers q)"
    and awake: "tp_tasks q \<noteq> [] \<Longrightarrow> pr_notify q \<noteq> 0 \<or> (\<exists>w \<in> set (tp_workers q). w \<noteq> Waiting)"
    using assms(1-3) by (auto simp: pool_inv_def)
  have "w = Waiting" if "w \<in> set (tp_workers q)" for w
  proof -
    from that obtain i where i: "i < length (tp_workers q)" "tp_workers q ! i = w" by (auto simp: in_set_conv_nth)
    with assms(4) have "w \<noteq> Ready" "\<And>t. w \<noteq> Running t"
      by (auto dest: work_step.worker_turns work_step.worker_returns)
    moreover have "w \<noteq> Exited" using that ex by blast
    ultimately show ?thesis by (cases w) auto
  qed
  then have all: "set (tp_workers q) = {Waiting}" using len assms(2) by (cases "tp_workers q") auto
  have "pr_notify q = 0"
  proof (rule ccontr)
    assume "pr_notify q \<noteq> 0"
    then obtain k where "pr_notify q = Suc k" by (cases "pr_notify q") auto
    moreover have "0 < length (tp_workers q)" using len assms(2) by simp
    moreover from this have "tp_workers q ! 0 = Waiting" using all nth_mem [of 0 "tp_workers q"] by simp
    ultimately show False using work_step.notified_worker [of q k 0] assms(4) by blast
  qed
  with awake all have "tp_tasks q = []" by auto
  moreover have "running_tasks (tp_workers q) = []" using all by (auto simp: running_tasks_def)
  ultimately show ?thesis using sub all act ran by simp
qed

lemma some_end: "\<exists>q. work_step\<^sup>*\<^sup>* p q \<and> (\<forall>r. \<not> work_step q r)"
proof (induction "work_left p" arbitrary: p rule: less_induct)
  case less
  show ?case
  proof (cases "\<exists>r. work_step p r")
    case True
    then obtain r where r: "work_step p r" by blast
    from less [OF work_step_decreases [OF r]] r show ?thesis by (blast intro: converse_rtranclp_into_rtranclp)
  qed blast
qed

text \<open>
  C21: The pool comes to rest. From every reachable state of the open pool, its own steps (every task returns, no
  submission, shutdown or spurious wake-up comes) end after at most \<open>work_left\<close> steps, they can reach an end, and
  wherever they end every submitted task has been run by a worker, in the order of submission, and has returned, the queue is empty and all workers sleep.
\<close>

theorem pool_comes_to_rest:
  assumes "pool_step\<^sup>*\<^sup>* (new_pool_run n) p" "0 < n" "\<not> tp_closed p"
  shows "(\<forall>k q. (work_step ^^ k) p q \<longrightarrow> k \<le> work_left p)
     \<and> (\<exists>q. work_step\<^sup>*\<^sup>* p q \<and> (\<forall>r. \<not> work_step q r))
     \<and> (\<forall>q. work_step\<^sup>*\<^sup>* p q \<and> (\<forall>r. \<not> work_step q r) \<longrightarrow>
          pr_started q = pr_submitted p \<and> mset (pr_finished q) = mset (pr_submitted p) \<and> tp_tasks q = [] \<and> tp_active q = 0 \<and> set (tp_workers q) = {Waiting})"
proof (intro conjI allI impI some_end)
  fix k q
  assume "(work_step ^^ k) p q"
  from work_steps_bound [OF this] show "k \<le> work_left p" by simp
next
  fix q
  assume q: "work_step\<^sup>*\<^sup>* p q \<and> (\<forall>r. \<not> work_step q r)"
  with assms(1) have "pool_step\<^sup>*\<^sup>* (new_pool_run n) q" using work_steps_pool by (metis rtranclp_trans)
  from at_rest [OF reachable_pool_inv [OF this] assms(2)] q work_steps_frame [of p q] assms(3)
  show "pr_started q = pr_submitted p" "mset (pr_finished q) = mset (pr_submitted p)" "tp_tasks q = []" "tp_active q = 0" "set (tp_workers q) = {Waiting}" by auto
qed

theorem pool_comes_to_rest_witness:
  "work_left one_task = 5 \<and> \<not> (\<exists>q. (work_step ^^ 6) one_task q)
     \<and> (\<exists>q. work_step\<^sup>*\<^sup>* one_task q \<and> pr_started q = [''read''] \<and> mset (pr_finished q) = {#''read''#} \<and> tp_tasks q = [] \<and> set (tp_workers q) = {Waiting})"
proof -
  have w: "work_left one_task = 5" "pr_submitted one_task = [''read'']" "\<not> tp_closed one_task"
    by (simp_all add: work_left_def one_task_def add_task_def new_pool_run_def)
  note rest = pool_comes_to_rest [OF r_into_rtranclp [of pool_step, OF one_task_reachable] _ w(3)]
  then obtain q where "work_step\<^sup>*\<^sup>* one_task q" "\<forall>r. \<not> work_step q r" by auto
  with rest w show ?thesis by fastforce
qed

end
