(* ===== verification/Request_Safety.thy ===== *)
theory Request_Safety
  imports Request_Facts
begin

text \<open>
  What can be relied on in a parsed request whatever the peer sends, and what cannot: the well-formedness of
  \<open>Request\<close> and the text of the queries built from it.
\<close>

section \<open>Substrings without CR LF\<close>

lemma no_crlf_substring: "no_crlf (a @ s @ b) \<Longrightarrow> no_crlf s"
  unfolding no_crlf_iff by (metis append.assoc append_Cons)

lemma no_crlf_line: "no_crlf (take (line_end s) s)"
proof (induction s)
  case (Cons c s)
  show ?case
  proof (cases "c = cr \<and> (case s of [] \<Rightarrow> False | d # _ \<Rightarrow> d = lf)")
    case True
    then show ?thesis by (simp add: no_crlf_def)
  next
    case False
    then have "line_end (c # s) = Suc (line_end s)" by (simp only: line_end.simps if_False)
    moreover have "\<not> (c = cr \<and> (case take (line_end s) s of [] \<Rightarrow> False | d # _ \<Rightarrow> d = lf))"
      using False by (cases s; cases "line_end s") auto
    ultimately show ?thesis using Cons by (simp add: no_crlf_def)
  qed
qed (simp add: no_crlf_def)

lemma drop_blank_suffix: "\<exists>a. v = a @ drop_blank v"
  by (cases v) (auto simp: drop_blank_def intro: exI [of _ "[]"])

section \<open>Well-formed requests\<close>

definition field_ok :: "string \<Rightarrow> bool" where
  "field_ok s \<longleftrightarrow> CHR '' '' \<notin> set s \<and> no_crlf s"

definition request_wf :: "request \<Rightarrow> bool" where
  "request_wf r \<longleftrightarrow> field_ok (req_method r) \<and> field_ok (req_path r) \<and> field_ok (req_version r)
     \<and> req_path r \<noteq> ''/'' \<and> req_path r \<notin> set DEFAULT_HTML
     \<and> (\<forall>k v. req_header r k = Some v \<longrightarrow> CHR '':'' \<notin> set k \<and> no_crlf k \<and> no_crlf v)"

lemma field_ok_simps [simp]: "field_ok []" "field_ok ''/welcome.html''" "field_ok ''/error.html''" "field_ok ''/index.html''"
  by (simp_all add: field_ok_def no_crlf_def)

lemma field_ok_html: "p \<in> set DEFAULT_HTML \<Longrightarrow> field_ok (p @ ''.html'') \<and> p @ ''.html'' \<noteq> ''/'' \<and> p @ ''.html'' \<notin> set DEFAULT_HTML"
  by (auto simp: DEFAULT_HTML_def field_ok_def no_crlf_def)

lemma parse_path_wf:
  assumes "field_ok (req_method r)" "field_ok (req_path r)" "field_ok (req_version r)"
    and "\<forall>k v. req_header r k = Some v \<longrightarrow> CHR '':'' \<notin> set k \<and> no_crlf k \<and> no_crlf v"
  shows "request_wf (parse_path r)"
  using assms field_ok_html [of "req_path r"]
  by (auto simp: parse_path_def request_wf_def DEFAULT_HTML_def)

context boost_regex
begin

lemma request_line_wf:
  assumes "parse_request_line rx l r = (True, r1)" "no_crlf l" "request_wf r"
  shows "request_wf (parse_path r1)"
proof -
  from assms(1) obtain gs where gs: "rx REQUEST_LINE_RE l = Some gs"
    and r1: "r1 = r\<lparr>req_method := sub_match gs 1, req_path := sub_match gs 2, req_version := sub_match gs 3, req_state := HEADERS\<rparr>"
    by (auto simp: parse_request_line_def split: option.splits)
  from request_line_only [OF gs] obtain m p v where
    f: "CHR '' '' \<notin> set m" "CHR '' '' \<notin> set p" "CHR '' '' \<notin> set v" "l = m @ '' '' @ p @ '' HTTP/'' @ v" "gs = [m, p, v]"
    by blast
  have "no_crlf m" using assms(2) no_crlf_substring [of "[]" m] by (simp add: f(4))
  moreover have "no_crlf p" using assms(2) no_crlf_substring [of "m @ '' ''" p "'' HTTP/'' @ v"] by (simp add: f(4))
  moreover have "no_crlf v" using assms(2) no_crlf_substring [of "m @ '' '' @ p @ '' HTTP/''" v "[]"] by (simp add: f(4))
  ultimately show ?thesis
    using f assms(3) unfolding r1
    by (intro parse_path_wf) (auto simp: sub_match_def field_ok_def request_wf_def)
qed

lemma header_wf:
  assumes "no_crlf l" "request_wf r"
  shows "request_wf (parse_header rx l r)"
proof (cases "CHR '':'' \<in> set l")
  case False
  from parse_header_end [OF False] assms(2) show ?thesis by (simp add: request_wf_def)
next
  case True
  then obtain k v where l: "l = k @ '':'' @ v" "CHR '':'' \<notin> set k"
    using split_list_first [of "CHR '':''" l] by auto
  obtain a where a: "v = a @ drop_blank v" using drop_blank_suffix by blast
  have "no_crlf k" using assms(1) no_crlf_substring [of "[]" k] by (simp add: l)
  moreover have "no_crlf v" using assms(1) no_crlf_substring [of "k @ '':''" v "[]"] by (simp add: l)
  then have "no_crlf (drop_blank v)" using no_crlf_substring [of a "drop_blank v" "[]"] a by simp
  ultimately show ?thesis
    using parse_header_match [OF l(2), of v r] assms(2) l by (simp add: request_wf_def)
qed

end

lemma touch_wf: "request_wf r \<Longrightarrow> request_wf (r\<lparr>req_header := touch_key ''Content-Type'' (req_header r)\<rparr>)"
  by (auto simp: request_wf_def touch_key_def no_crlf_def)

lemma parse_from_urlencoded_wf: "parse_from_urlencoded r = Inr r' \<Longrightarrow> request_wf r' = request_wf r"
proof -
  assume r: "parse_from_urlencoded r = Inr r'"
  have "req_method r' = req_method r \<and> req_path r' = req_path r \<and> req_version r' = req_version r \<and> req_header r' = req_header r"
    using r by (auto simp: parse_from_urlencoded_def split: if_splits)
  then show ?thesis unfolding request_wf_def by simp
qed

lemma parse_post_wf:
  assumes "parse_post my r w = Inr (r', w')" "request_wf r"
  shows "request_wf r'"
proof -
  let ?r1 = "r\<lparr>req_header := touch_key ''Content-Type'' (req_header r)\<rparr>"
  have r1: "request_wf ?r1" by (rule touch_wf [OF assms(2)])
  show ?thesis
  proof (cases "req_method r = ''POST'' \<and> req_header ?r1 ''Content-Type'' = Some ''application/x-www-form-urlencoded''")
    case False
    with assms(1) have "r' = r \<or> r' = ?r1" by (auto simp: parse_post_def Let_def split: if_splits)
    with assms(2) r1 show ?thesis by auto
  next
    case True
    with assms(1) obtain r2 where r2: "parse_from_urlencoded ?r1 = Inr r2"
      by (cases "parse_from_urlencoded ?r1") (simp_all add: parse_post_def Let_def)
    have wf2: "request_wf r2" using parse_from_urlencoded_wf [OF r2] r1 by simp
    show ?thesis
    proof (cases "map_of DEFAULT_HTML_TAG (req_path r2)")
      case None
      with True assms(1) r2 wf2 show ?thesis by (simp add: parse_post_def Let_def)
    next
      case (Some tag)
      show ?thesis
      proof (cases "tag = 0 \<or> tag = 1")
        case False
        with Some True assms(1) r2 wf2 show ?thesis by (simp add: parse_post_def Let_def)
      next
        case tag: True
        define post where "post = touch_key ''password'' (touch_key ''username'' (req_post r2))"
        from tag Some True assms(1) r2 obtain good v where
          "user_verify my (the (post ''username'')) (the (post ''password'')) (tag = 1) w = Inr (good, v)"
          and r': "r' = r2\<lparr>req_post := post, req_path := (if good then ''/welcome.html'' else ''/error.html'')\<rparr>"
          by (cases "user_verify my (the (post ''username'')) (the (post ''password'')) (tag = 1) w")
             (auto simp: parse_post_def Let_def post_def [symmetric])
        with wf2 show ?thesis by (simp add: request_wf_def DEFAULT_HTML_def)
      qed
    qed
  qed
qed

lemma parse_line_wf:
  assumes "boost_regex rx" "parse_line rx my l n r w = Inr (ok, r', w')" "no_crlf l" "request_wf r"
  shows "request_wf r'"
proof (cases "req_state r")
  case REQUEST_LINE
  obtain good r1 where p: "parse_request_line rx l r = (good, r1)" by fastforce
  show ?thesis
  proof (cases good)
    case True
    with boost_regex.request_line_wf [OF assms(1) _ assms(3,4)] p REQUEST_LINE assms(2) show ?thesis
      by (auto simp: parse_line_def)
  next
    case False
    with p have "r1 = r" by (auto simp: parse_request_line_def split: option.splits)
    with p False REQUEST_LINE assms(2,4) show ?thesis by (simp add: parse_line_def)
  qed
next
  case HEADERS
  with boost_regex.header_wf [OF assms(1,3,4)] assms(2) show ?thesis
    by (auto simp: parse_line_def Let_def request_wf_def split: if_splits)
next
  case BODY
  with assms(2) obtain r1 where "parse_post my (r\<lparr>req_body := l\<rparr>) w = Inr (r1, w')" "r' = r1\<lparr>req_state := FINISH\<rparr>"
    by (auto simp: parse_line_def parse_body_def)
  moreover have "request_wf (r\<lparr>req_body := l\<rparr>)" using assms(4) by (simp add: request_wf_def)
  ultimately have "request_wf r1" using parse_post_wf by blast
  then show ?thesis unfolding \<open>r' = r1\<lparr>req_state := FINISH\<rparr>\<close> by (simp add: request_wf_def)
qed (use assms in \<open>simp add: parse_line_def\<close>)

lemma parse_text_wf:
  assumes "boost_regex rx" "parse_text rx my s r w = Inr (ok, r', rest, w')" "request_wf r"
  shows "request_wf r'"
  using assms
proof (induction rx my s r w rule: parse_text.induct)
  case (1 rx my s r w)
  note unf = parse_text.simps [of rx my s r w]
  show ?case
  proof (cases "s = [] \<or> req_state r = FINISH")
    case True
    with "1.prems"(2,3) show ?thesis by (auto simp: unf)
  next
    case False
    with "1.prems"(2) obtain go_on r1 w1 where l: "parse_line rx my (take (line_end s) s) (length s) r w = Inr (go_on, r1, w1)"
      by (auto simp: unf split: sum.splits)
    have wf: "request_wf r1" by (rule parse_line_wf [OF "1.prems"(1) l no_crlf_line "1.prems"(3)])
    show ?thesis
    proof (cases "go_on \<and> line_end s \<noteq> length s")
      case True
      with "1.prems"(2) False l have "parse_text rx my (drop (line_end s + 2) s) r1 w1 = Inr (ok, r', rest, w')"
        by (simp add: unf)
      with "1.IH" [OF False l refl refl _ _ "1.prems"(1)] True wf show ?thesis by simp
    next
      case nomore: False
      with "1.prems"(2) False l wf show ?thesis by (auto simp: unf split: if_splits)
    qed
  qed
qed

lemma request_init_wf: "request_wf request_init"
  by (simp add: request_wf_def request_init_def DEFAULT_HTML_def)

section \<open>The states of the parser\<close>

text \<open>The order of the enumeration \<open>PARSE_STATE\<close>.\<close>

fun state_rank :: "parse_state \<Rightarrow> nat" where
  "state_rank REQUEST_LINE = 0"
| "state_rank HEADERS = 1"
| "state_rank BODY = 2"
| "state_rank FINISH = 3"

lemma state_rank_inj: "state_rank a = state_rank b \<Longrightarrow> a = b"
  by (cases a; cases b) simp_all

instantiation parse_state :: linorder
begin

definition less_eq_parse_state :: "parse_state \<Rightarrow> parse_state \<Rightarrow> bool" where
  "less_eq_parse_state a b \<longleftrightarrow> state_rank a \<le> state_rank b"

definition less_parse_state :: "parse_state \<Rightarrow> parse_state \<Rightarrow> bool" where
  "less_parse_state a b \<longleftrightarrow> state_rank a < state_rank b"

instance
  by intro_classes (auto simp: less_eq_parse_state_def less_parse_state_def intro: state_rank_inj)

end

lemma state_order [simp]: "REQUEST_LINE \<le> q" "q \<le> FINISH" "HEADERS \<le> q \<longleftrightarrow> q \<noteq> REQUEST_LINE"
  by (cases q; simp add: less_eq_parse_state_def)+

text \<open>The parser never goes back.\<close>

lemma parse_line_advances: "parse_line rx my l n r w = Inr (go_on, r1, w1) \<Longrightarrow> req_state r \<le> req_state r1"
  by (cases "req_state r") (auto simp: parse_line_def parse_header_def parse_body_def Let_def split: option.splits if_splits)

lemma parse_text_advances: "parse_text rx my s r w = Inr (ok, r', rest, w') \<Longrightarrow> req_state r \<le> req_state r'"
proof (induction rx my s r w rule: parse_text.induct)
  case (1 rx my s r w)
  note unf = parse_text.simps [of rx my s r w]
  show ?case
  proof (cases "s = [] \<or> req_state r = FINISH")
    case True
    with "1.prems" show ?thesis by (auto simp: unf)
  next
    case False
    with "1.prems" obtain go_on r1 w1 where l: "parse_line rx my (take (line_end s) s) (length s) r w = Inr (go_on, r1, w1)"
      by (auto simp: unf split: sum.splits)
    note adv = parse_line_advances [OF l]
    show ?thesis
    proof (cases "go_on \<and> line_end s \<noteq> length s")
      case True
      with "1.prems" False l have "parse_text rx my (drop (line_end s + 2) s) r1 w1 = Inr (ok, r', rest, w')"
        by (simp add: unf)
      with "1.IH" [OF False l refl refl] True have "req_state r1 \<le> req_state r'" by simp
      with adv show ?thesis by (rule order_trans)
    next
      case nomore: False
      with "1.prems" False l adv show ?thesis by (auto simp: unf split: if_splits)
    qed
  qed
qed

text \<open>A request line on its own parses: what the examples below and the witness run.\<close>

lemma bare_get_parses:
  assumes line: "request_line_ok ''GET'' p v" and len: "length (render_request ''GET'' p v [] []) \<le> 1000000"
  shows "\<exists>b'. request_parse perl_match (constant_db False []) request_init (buffer_of (render_request ''GET'' p v [] [])) (one_conn, ())
      = Inr (True, (request_of ''GET'' p v [] request_init)\<lparr>req_state := FINISH\<rparr>, b', (one_conn, ()))"
proof -
  have init_state: "req_state request_init = REQUEST_LINE" by (simp add: request_init_def)
  have "\<exists>b'. request_parse perl_match (constant_db False []) request_init (buffer_of (render_request ''GET'' p v [] [])) (one_conn, ())
      = Inr (True, (request_of ''GET'' p v [] request_init)\<lparr>req_state := FINISH\<rparr>, b', (one_conn, ())) \<and> buf_inv b' \<and> content b' = []"
    by (rule request_parse_text [OF buf_inv_buffer_of [OF len]])
       (use perl.parse_text_no_body [OF line, of "[]" request_init] init_state in \<open>simp_all add: render_request_nonempty\<close>)
  then show ?thesis by blast
qed

text \<open>
  C20: Parsing yields well-formed requests. Whatever bytes are in the buffer and whether the parser accepts them or not, if it
  returns, then the method, path and version contain no blank and no CR LF, the path has been normalised, no header
  key contains a colon, and no header has a CR LF in it; so a request cannot smuggle a line into what is
  made of its fields. The state machine only moves forward.
\<close>

theorem parsed_request_well_formed:
  assumes "boost_regex rx" "buf_inv b" "request_wf r" "request_parse rx my r b w = Inr (ok, r', b', w')"
  shows "request_wf r' \<and> req_state r \<le> req_state r'"
proof (cases "content b = []")
  case True
  with assms(4) readable_bytes_content [OF assms(2)] assms(3) show ?thesis by (simp add: request_parse_def)
next
  case False
  with assms(4) readable_bytes_content [OF assms(2)] have "parse_loop rx my b r w = Inr (ok, r', b', w')"
    by (simp add: request_parse_def)
  with parse_loop_refines [OF assms(2), of rx my r w] have "parse_text rx my (content b) r w = Inr (ok, r', content b', w')"
    by (simp add: see_content_def)
  from parse_text_wf [OF assms(1) this assms(3)] parse_text_advances [OF this] show ?thesis by simp
qed

theorem parsed_request_well_formed_witness:
  "\<exists>r' b'. request_parse perl_match (constant_db False []) request_init (buffer_of (render_request ''GET'' ''/index'' ''1.1'' [] []))
      (one_conn, ()) = Inr (True, r', b', (one_conn, ())) \<and> request_wf r' \<and> req_path r' = ''/index.html''"
proof -
  let ?t = "render_request ''GET'' ''/index'' ''1.1'' [] []"
  have len: "length ?t \<le> 1000000" by (simp add: render_request_def crlf_def)
  have line: "request_line_ok ''GET'' ''/index'' ''1.1''" by (simp add: request_line_ok_def no_crlf_def)
  from bare_get_parses [OF line len] obtain b' where b': "request_parse perl_match (constant_db False []) request_init (buffer_of ?t) (one_conn, ())
      = Inr (True, (request_of ''GET'' ''/index'' ''1.1'' [] request_init)\<lparr>req_state := FINISH\<rparr>, b', (one_conn, ()))" by blast
  from parsed_request_well_formed [OF perl.boost_regex_axioms buf_inv_buffer_of [OF len] request_init_wf b'] b' show ?thesis
    by (auto simp: request_of_def parse_path_def DEFAULT_HTML_def request_init_def)
qed

section \<open>What is not checked\<close>

text \<open>
  The name goes into the query as it is: a quote in it ends the string literal, and the rest is read as SQL. Here the query
  asks for a row that the sender made up, whatever the table holds.
\<close>

lemma query_is_injectable:
  assumes "CHR 0x00 \<notin> set n" "length n \<le> 100"
  shows "select_order (n @ squote @ '' UNION SELECT 1,'' @ squote @ ''pw'') =
     ''SELECT username, password FROM user WHERE username='' @ squote @ n @ squote @ '' UNION SELECT 1,'' @ squote @ ''pw'' @ squote @ '' LIMIT 1''"
proof -
  have "c_str (n @ squote @ '' UNION SELECT 1,'' @ squote @ ''pw'') = n @ squote @ '' UNION SELECT 1,'' @ squote @ ''pw''"
    using assms(1) by (auto simp: c_str_def takeWhile_eq_all_conv)
  with assms(2) show ?thesis by (simp add: select_order_def)
qed

text \<open>Dots in the path are kept, and \<open>HttpResponse\<close> appends the path to the static directory: a file above it is in reach.\<close>

lemma dots_are_kept:
  "\<exists>r b. request_parse perl_match (constant_db False []) request_init (buffer_of (render_request ''GET'' ''/../config.toml'' ''1.1'' [] []))
      (one_conn, ()) = Inr (True, r, b, (one_conn, ())) \<and> req_path r = ''/../config.toml''"
proof -
  have line: "request_line_ok ''GET'' ''/../config.toml'' ''1.1''" by (simp add: request_line_ok_def no_crlf_def)
  have "length (render_request ''GET'' ''/../config.toml'' ''1.1'' [] []) \<le> 1000000" by (simp add: render_request_def crlf_def)
  from bare_get_parses [OF line this] show ?thesis
    by (fastforce simp: request_of_def parse_path_def DEFAULT_HTML_def request_init_def)
qed

end
