(* ===== verification/Request_Limits.thy ===== *)
theory Request_Limits
  imports Request_Safety
begin

text \<open>
  What the parser makes of a request that does not arrive in one piece, and of the body that it leaves in the buffer: the
  parser starts over with each \<open>Process\<close>, so what is left is read as a new request.
\<close>

section \<open>Lines that are no request line\<close>

text \<open>A first line that does not match ends the parsing, with everything left in the buffer.\<close>

lemma bad_first_line:
  assumes "buf_inv b" "content b = s" "s \<noteq> []" "rx REQUEST_LINE_RE (take (line_end s) s) = None"
  shows "\<exists>b'. request_parse rx my request_init b w = Inr (False, request_init, b', w) \<and> content b' = s"
proof -
  have "parse_text rx my s request_init w = Inr (False, request_init, s, w)"
    using assms(3,4) by (simp add: parse_text.simps parse_line_def parse_request_line_def request_init_def)
  with request_parse_text [OF assms(1), of rx my request_init w] assms(2,3) show ?thesis by auto
qed

section \<open>A head in two pieces\<close>

context boost_regex
begin

text \<open>The complete lines of a head, without the empty one.\<close>

lemma parse_text_open_head:
  assumes "request_line_ok m p v" "\<forall>kv \<in> set hs. header_ok kv" "req_state r = REQUEST_LINE"
  shows "parse_text rx my (m @ '' '' @ p @ '' HTTP/'' @ v @ crlf @ concat (map render_header hs)) r w
     = Inr (True, (request_of m p v hs r)\<lparr>req_state := HEADERS\<rparr>, [], w)"
proof -
  let ?l = "m @ '' '' @ p @ '' HTTP/'' @ v" and ?tail = "concat (map render_header hs)"
  let ?r1 = "parse_path (r\<lparr>req_method := m, req_path := p, req_version := v, req_state := HEADERS\<rparr>)"
  have "parse_line rx my ?l (length ?l + 2 + length ?tail) r w = Inr (True, ?r1, w)"
    using assms(1,3) parse_request_line_match [of m p v r] by (simp add: parse_line_def request_line_ok_def)
  then have first: "parse_text rx my (?l @ crlf @ ?tail) r w = parse_text rx my ?tail ?r1 w"
    using assms(1,3) by (subst parse_text_line) (simp_all add: request_line_ok_def)
  have rest: "parse_text rx my (concat (map render_header hs)) r1 w
      = Inr (True, r1\<lparr>req_header := fold put_header hs (req_header r1)\<rparr>, [], w)"
    if "req_state r1 = HEADERS" "\<forall>kv \<in> set hs. header_ok kv" for hs r1
    using that
  proof (induction hs arbitrary: r1)
    case Nil
    then show ?case by (simp add: parse_text.simps)
  next
    case (Cons kv hs)
    obtain k x where kv: "kv = (k, x)" by (cases kv)
    have "parse_header rx (k @ '':'' @ '' '' @ x) r1 = r1\<lparr>req_header := (req_header r1)(k \<mapsto> x)\<rparr>"
      using Cons.prems(2) parse_header_match [of k "'' '' @ x" r1] by (simp add: kv header_ok_def drop_blank_def)
    then have "parse_line rx my (k @ '': '' @ x) (length (k @ '': '' @ x) + 2 + length (concat (map render_header hs))) r1 w
        = Inr (True, r1\<lparr>req_header := put_header kv (req_header r1)\<rparr>, w)"
      using Cons.prems(1) by (simp add: parse_line_def put_header_def kv)
    then have "parse_text rx my (concat (map render_header (kv # hs))) r1 w
        = parse_text rx my (concat (map render_header hs)) (r1\<lparr>req_header := put_header kv (req_header r1)\<rparr>) w"
      using Cons.prems parse_text_line [of "k @ '': '' @ x" r1 rx my "concat (map render_header hs)" w]
      by (simp add: kv render_header_def header_ok_def)
    with Cons.IH [of "r1\<lparr>req_header := put_header kv (req_header r1)\<rparr>"] Cons.prems show ?case by simp
  qed
  have "parse_text rx my ?tail ?r1 w = Inr (True, ?r1\<lparr>req_header := fold put_header hs (req_header ?r1)\<rparr>, [], w)"
    by (rule rest) (simp_all add: parse_path_def assms(2))
  with first show ?thesis by (simp add: request_of_def parse_path_def)
qed

end

text \<open>
  C40: a request that arrives in two packets is answered twice, and wrongly. If the first packet ends after some line of the head,
  \<open>parse\<close> reports success although the head is not complete (its state is still \<open>HEADERS\<close>), so the connection answers
  without the remaining header fields. The rest is then parsed from the start: its first header line is no request line,
  so the parsing fails, and the bytes stay in the buffer.
\<close>

theorem split_head_is_misread:
  assumes "boost_regex rx" "request_line_ok m p v" "\<forall>kv \<in> set hs. header_ok kv"
    and "buf_inv b1" "content b1 = m @ '' '' @ p @ '' HTTP/'' @ v @ crlf @ concat (map render_header hs)"
    and "header_ok (k, x)" "rx REQUEST_LINE_RE (k @ '': '' @ x) = None"
    and "buf_inv b2" "content b2 = render_header (k, x) @ rest"
  shows "(\<exists>b'. request_parse rx my request_init b1 w = Inr (True, (request_of m p v hs request_init)\<lparr>req_state := HEADERS\<rparr>, b', w)
            \<and> content b' = [])
     \<and> (\<exists>b'. request_parse rx my request_init b2 w = Inr (False, request_init, b', w) \<and> content b' = content b2)"
proof
  have init: "req_state request_init = REQUEST_LINE" and ne: "content b1 \<noteq> []"
    by (simp_all add: request_init_def assms(5) crlf_def)
  from request_parse_text [OF assms(4) ne] boost_regex.parse_text_open_head [OF assms(1-3) init, folded assms(5)]
  show "\<exists>b'. request_parse rx my request_init b1 w = Inr (True, (request_of m p v hs request_init)\<lparr>req_state := HEADERS\<rparr>, b', w)
            \<and> content b' = []" by blast
next
  have line: "no_crlf (k @ '': '' @ x)" using assms(6) by (simp add: header_ok_def)
  have c: "content b2 = (k @ '': '' @ x) @ crlf @ rest" using assms(9) by (simp add: render_header_def)
  then have "take (line_end (content b2)) (content b2) = k @ '': '' @ x"
    using line_end_append [OF line, of rest] by (simp add: crlf_def)
  with bad_first_line [OF assms(8) refl] c assms(7)
  show "\<exists>b'. request_parse rx my request_init b2 w = Inr (False, request_init, b', w) \<and> content b' = content b2" by simp
qed

theorem split_head_is_misread_witness:
  "\<exists>b1 b2. request_parse perl_match (constant_db False []) request_init (buffer_of (''GET /a HTTP/1.1'' @ crlf)) (one_conn, ())
       = Inr (True, (request_of ''GET'' ''/a'' ''1.1'' [] request_init)\<lparr>req_state := HEADERS\<rparr>, b1, (one_conn, ()))
     \<and> request_parse perl_match (constant_db False []) request_init (buffer_of (render_header (''Host'', ''x'') @ crlf)) (one_conn, ())
       = Inr (False, request_init, b2, (one_conn, ()))"
proof -
  have line: "request_line_ok ''GET'' ''/a'' ''1.1''" by (simp add: request_line_ok_def no_crlf_def)
  have head: "header_ok (''Host'', ''x'')" by (simp add: header_ok_def no_crlf_def)
  have miss: "perl_match REQUEST_LINE_RE (''Host'' @ '': '' @ ''x'') = None" by code_simp
  have 1: "buf_inv (buffer_of (''GET /a HTTP/1.1'' @ crlf))" "buf_inv (buffer_of (render_header (''Host'', ''x'') @ crlf))"
    by (rule buf_inv_buffer_of, simp add: crlf_def render_header_def)+
  from split_head_is_misread [where hs = "[]" and my = "constant_db False []" and w = "(one_conn, ())", OF perl.boost_regex_axioms line _ 1(1) _ head miss 1(2) content_buffer_of] show ?thesis
    by fastforce
qed

section \<open>A body that stays\<close>

text \<open>
  The body of a request is read twice. A POST whose body is one line without its line end is parsed with this body, but the body is
  not consumed; on a connection that is kept open the next \<open>Process\<close> takes it for a new request, whose parsing fails.
\<close>

theorem body_is_read_again:
  assumes "boost_regex rx" "request_line_ok m p v" "\<forall>kv \<in> set hs. header_ok kv" "no_crlf body" "body \<noteq> []"
    and "buf_inv b" "content b = render_request m p v hs body" "rx REQUEST_LINE_RE body = None"
    and "request_parse rx my request_init b w = Inr (ok, r', b', w')"
  shows "ok \<and> content b' = body
     \<and> (\<exists>b2. request_parse rx my request_init b' w' = Inr (False, request_init, b2, w') \<and> content b2 = body)"
proof -
  have init: "req_state request_init = REQUEST_LINE" by (simp add: request_init_def)
  note parsed = boost_regex.parse_text_body [OF assms(1-3) init assms(4,5), of my w]
  have ne: "content b \<noteq> []" unfolding assms(7) by (simp add: render_request_nonempty)
  have nz: "readable_bytes b \<noteq> 0" using assms(6) ne by (simp add: readable_bytes_content)
  from parse_loop_refines [OF assms(6), of rx my request_init w] assms(9) nz
  have see: "parse_text rx my (content b) request_init w = Inr (ok, r', content b', w')" and inv: "buf_inv b'"
    by (auto simp: request_parse_def see_content_def)
  from see parsed have c: "ok" "content b' = body"
    unfolding assms(7) by (auto simp: and_then_def split: sum.splits prod.splits)
  have "take (line_end body) body = body" using assms(4) by (simp add: no_crlf_def)
  with bad_first_line [OF inv c(2) assms(5), of rx my w'] assms(8) c show ?thesis by simp
qed

theorem body_is_read_again_witness:
  "\<exists>r' b' b2. request_parse perl_match (constant_db False []) request_init (buffer_of (render_request ''PUT'' ''/a'' ''1.1'' [] ''x=1'')) (one_conn, ())
       = Inr (True, r', b', (one_conn, ())) \<and> content b' = ''x=1''
     \<and> request_parse perl_match (constant_db False []) request_init b' (one_conn, ()) = Inr (False, request_init, b2, (one_conn, ()))"
proof -
  let ?b = "buffer_of (render_request ''PUT'' ''/a'' ''1.1'' [] ''x=1'')"
  have line: "request_line_ok ''PUT'' ''/a'' ''1.1''" and body: "no_crlf ''x=1''" by (simp_all add: request_line_ok_def no_crlf_def)
  have miss: "perl_match REQUEST_LINE_RE ''x=1'' = None" by code_simp
  have inv: "buf_inv ?b" by (rule buf_inv_buffer_of) (simp add: render_request_def crlf_def)
  have init: "req_state request_init = REQUEST_LINE" by (simp add: request_init_def)
  have "parse_text perl_match (constant_db False []) (content ?b) request_init (one_conn, ())
      = Inr (True, (request_of ''PUT'' ''/a'' ''1.1'' [] request_init)\<lparr>req_body := ''x=1'', req_state := FINISH\<rparr>, ''x=1'', (one_conn, ()))"
    unfolding content_buffer_of using perl.parse_text_body [OF line _ init body, of "[]" "constant_db False []" "(one_conn, ())"]
    by (simp add: parse_body_def parse_post_def request_of_def parse_path_def DEFAULT_HTML_def and_then_def)
  from request_parse_text [OF inv _ this] obtain b' where
    p: "request_parse perl_match (constant_db False []) request_init ?b (one_conn, ())
      = Inr (True, (request_of ''PUT'' ''/a'' ''1.1'' [] request_init)\<lparr>req_body := ''x=1'', req_state := FINISH\<rparr>, b', (one_conn, ()))"
    by (auto simp: render_request_nonempty)
  from body_is_read_again [where hs = "[]", OF perl.boost_regex_axioms line _ body _ inv content_buffer_of miss p] p show ?thesis by auto
qed

end
