(* ===== verification/File_Cache.thy ===== *)
theory File_Cache
  imports Zener_Prelude "HOL-Library.Multiset"
begin

text \<open>
  The cache of memory-mapped files of \<open>src/http/file_cache.cpp\<close> and
  \<open>include/http/file_cache.h\<close>, with the part of the process state it manages: which mappings are
  live and how many descriptors are open. \<open>open\<close>, \<open>mmap\<close> and \<open>stat\<close> are the environment.
\<close>

section \<open>State\<close>

record file_stat =
  st_size :: int
  st_mode :: "32 word"
  st_mtime :: int

text \<open>
  What the kernel answers for a path: \<open>stat\<close> fails or fills the structure; \<open>open\<close> succeeds or not;
  \<open>mmap\<close> of the first \<open>n\<close> bytes fails or shows these bytes.
\<close>

record os_files =
  fs_stat :: "string \<Rightarrow> file_stat option"
  fs_open :: "string \<Rightarrow> bool"
  fs_mmap :: "string \<Rightarrow> nat \<Rightarrow> string option"

definition mmap_contract :: "os_files \<Rightarrow> bool" where
  "mmap_contract os \<longleftrightarrow> (\<forall>p n s. fs_mmap os p n = Some s \<longrightarrow> 0 < n \<and> length s = n)"

text \<open>An address is the number of the mapping; the null pointer is no mapping.\<close>

record cached_file =
  cf_data :: nat
  cf_size :: nat
  cf_refs :: int
  cf_mtime :: int
  cf_access :: int

text \<open>The hash table is kept as the list of its entries in iteration order.\<close>

record file_cache =
  fc_files :: "(string \<times> cached_file) list"
  fc_total :: int
  fc_maps :: "nat \<rightharpoonup> string"
  fc_next :: nat
  fc_fds :: nat

definition new_cache :: file_cache where
  "new_cache = \<lparr>fc_files = [], fc_total = 0, fc_maps = Map.empty, fc_next = 1, fc_fds = 0\<rparr>"

section \<open>Operations\<close>

definition find_file :: "file_cache \<Rightarrow> string \<Rightarrow> cached_file option" where
  "find_file c p = map_of (fc_files c) p"

definition at_key :: "string \<Rightarrow> (cached_file \<Rightarrow> cached_file) \<Rightarrow> (string \<times> cached_file) list \<Rightarrow> (string \<times> cached_file) list" where
  "at_key p f xs = map (\<lambda>(q, e). (q, if q = p then f e else e)) xs"

definition erase_key :: "string \<Rightarrow> (string \<times> cached_file) list \<Rightarrow> (string \<times> cached_file) list" where
  "erase_key p xs = filter (\<lambda>x. fst x \<noteq> p) xs"

definition add_ref :: "int \<Rightarrow> cached_file \<Rightarrow> cached_file" where
  "add_ref now f = f\<lparr>cf_access := now, cf_refs := atomic_inc (cf_refs f)\<rparr>"

text \<open>A cache hit, under either lock.\<close>

definition cache_hit :: "int \<Rightarrow> string \<Rightarrow> file_stat \<Rightarrow> file_cache \<Rightarrow> (cached_file \<times> file_cache) option" where
  "cache_hit now p st c =
     (case find_file c p of
        None \<Rightarrow> None
      | Some f \<Rightarrow>
          if cf_mtime f = st_mtime st
          then Some (add_ref now f, c\<lparr>fc_files := at_key p (add_ref now) (fc_files c)\<rparr>)
          else None)"

definition unload_file :: "cached_file \<Rightarrow> file_cache \<Rightarrow> file_cache" where
  "unload_file f c = c\<lparr>fc_maps := (fc_maps c)(cf_data f := None)\<rparr>"

text \<open>
  \<open>LoadFile\<close>: the descriptor is closed only after a successful \<open>mmap\<close>. \<open>st_size\<close> is converted to
  \<open>size_t\<close>.
\<close>

definition load_file ::
  "os_files \<Rightarrow> int \<Rightarrow> string \<Rightarrow> file_stat \<Rightarrow> file_cache \<Rightarrow> cached_file option \<times> file_cache" where
  "load_file os now p st c =
     (if \<not> fs_open os (c_str p) then (None, c)
      else
        let c1 = c\<lparr>fc_fds := fc_fds c + 1\<rparr>;
            size = nat (st_size st mod int size_lim)
        in case fs_mmap os (c_str p) size of
             None \<Rightarrow> (None, c1)
           | Some s \<Rightarrow>
               let c2 = c1\<lparr>fc_maps := (fc_maps c1)(fc_next c1 \<mapsto> s), fc_next := fc_next c1 + 1\<rparr>;
                   c3 = c2\<lparr>fc_fds := fc_fds c2 - 1\<rparr>
               in (Some \<lparr>cf_data = fc_next c1, cf_size = size, cf_refs = 1,
                         cf_mtime = st_mtime st, cf_access = now\<rparr>, c3))"

text \<open>The second phase of \<open>GetFileMapping\<close>, under the exclusive lock.\<close>

definition get_exclusive ::
  "os_files \<Rightarrow> int \<Rightarrow> string \<Rightarrow> file_stat \<Rightarrow> file_cache \<Rightarrow> cached_file option \<times> file_cache" where
  "get_exclusive os now p st c =
     (case cache_hit now p st c of
        Some (f, c') \<Rightarrow> (Some f, c')
      | None \<Rightarrow>
          let c1 = (case find_file c p of
                      None \<Rightarrow> c
                    | Some f \<Rightarrow> (unload_file f c)\<lparr>fc_files := erase_key p (fc_files c)\<rparr>)
          in case load_file os now p st c1 of
               (None, c2) \<Rightarrow> (None, c2)
             | (Some f, c2) \<Rightarrow>
                 (Some f, c2\<lparr>fc_files := (p, f) # fc_files c2, fc_total := atomic_inc (fc_total c2)\<rparr>))"

text \<open>Without other threads between the two locks; the two clock readings are given.\<close>

definition get_file_mapping ::
  "os_files \<Rightarrow> int \<Rightarrow> int \<Rightarrow> string \<Rightarrow> file_stat \<Rightarrow> file_cache \<Rightarrow> cached_file option \<times> file_cache" where
  "get_file_mapping os now1 now2 p st c =
     (case cache_hit now1 p st c of
        Some (f, c') \<Rightarrow> (Some f, c')
      | None \<Rightarrow> get_exclusive os now2 p st c)"

definition drop_ref :: "cached_file \<Rightarrow> cached_file" where
  "drop_ref f = (if 0 < cf_refs f then f\<lparr>cf_refs := atomic_dec (cf_refs f)\<rparr> else f)"

definition release_file_mapping :: "string \<Rightarrow> file_cache \<Rightarrow> file_cache" where
  "release_file_mapping p c =
     (case find_file c p of None \<Rightarrow> c | Some f \<Rightarrow> c\<lparr>fc_files := at_key p drop_ref (fc_files c)\<rparr>)"

definition secs_count :: "int \<Rightarrow> int" where
  "secs_count d = (if 0 \<le> d then d div 1000000000 else - ((- d) div 1000000000))"

definition idle_file :: "int \<Rightarrow> int \<Rightarrow> cached_file \<Rightarrow> bool" where
  "idle_file now max_idle f \<longleftrightarrow> cf_refs f \<le> 0 \<and> max_idle < secs_count (now - cf_access f)"

fun cleanup_loop :: "int \<Rightarrow> int \<Rightarrow> (string \<times> cached_file) list \<Rightarrow> file_cache \<Rightarrow> file_cache" where
  "cleanup_loop now max_idle [] c = c"
| "cleanup_loop now max_idle ((p, f) # rest) c =
     (if idle_file now max_idle f then
        let c1 = unload_file f c in
        cleanup_loop now max_idle rest
          (c1\<lparr>fc_files := erase_key p (fc_files c1), fc_total := atomic_dec (fc_total c1)\<rparr>)
      else cleanup_loop now max_idle rest c)"

definition cleanup_cache :: "int \<Rightarrow> int \<Rightarrow> file_cache \<Rightarrow> file_cache" where
  "cleanup_cache now max_idle c = cleanup_loop now max_idle (fc_files c) c"

definition destroy_cache :: "file_cache \<Rightarrow> file_cache" where
  "destroy_cache c = (fold (\<lambda>(p, f). unload_file f) (fc_files c) c)\<lparr>fc_files := []\<rparr>"

section \<open>Invariant\<close>

text \<open>
  Every entry has a mapping of its own, and no other mapping is live.
\<close>

definition cache_inv :: "file_cache \<Rightarrow> bool" where
  "cache_inv c \<longleftrightarrow> distinct (map fst (fc_files c))
     \<and> distinct (map (cf_data \<circ> snd) (fc_files c))
     \<and> dom (fc_maps c) = (cf_data \<circ> snd) ` set (fc_files c)
     \<and> (\<forall>(p, f) \<in> set (fc_files c). cf_data f < fc_next c)"

lemma new_cache_inv [simp]: "cache_inv new_cache"
  by (simp add: cache_inv_def new_cache_def)

lemma at_key_simps [simp]:
  "map fst (at_key p f xs) = map fst xs"
  "map_of (at_key p f xs) q = (if q = p then map_option f (map_of xs q) else map_of xs q)"
  by (induction xs) (auto simp: at_key_def)

lemma at_key_data:
  assumes "\<And>e. cf_data (f e) = cf_data e"
  shows "map (cf_data \<circ> snd) (at_key p f xs) = map (cf_data \<circ> snd) xs"
  using assms by (induction xs) (auto simp: at_key_def)

lemma erase_key_simps [simp]:
  "map_of (erase_key p xs) q = (if q = p then None else map_of xs q)"
  by (induction xs) (auto simp: erase_key_def)

lemma erase_key_set: "set (erase_key p xs) = {(q, e) \<in> set xs. q \<noteq> p}"
  by (auto simp: erase_key_def)

lemma distinct_mapD: "distinct (map h xs) \<Longrightarrow> x \<in> set xs \<Longrightarrow> y \<in> set xs \<Longrightarrow> h x = h y \<Longrightarrow> x = y"
  by (simp add: distinct_map inj_on_def)

lemma cache_inv_update:
  assumes "cache_inv c" "\<And>e. cf_data (f e) = cf_data e"
  shows "cache_inv (c\<lparr>fc_files := at_key p f (fc_files c)\<rparr>)"
proof -
  have "(cf_data \<circ> snd) ` set (at_key p f (fc_files c)) = (cf_data \<circ> snd) ` set (fc_files c)"
    using at_key_data [OF assms(2), of p "fc_files c"] by (metis set_map)
  moreover have "\<forall>(q, e) \<in> set (at_key p f (fc_files c)). cf_data e < fc_next c"
    using assms by (auto simp: at_key_def cache_inv_def)
  ultimately show ?thesis
    using assms(1) at_key_data [OF assms(2), of p "fc_files c"] by (simp add: cache_inv_def)
qed

lemma cache_inv_unload:
  assumes inv: "cache_inv c" and f: "find_file c p = Some f"
  shows "cache_inv ((unload_file f c)\<lparr>fc_files := erase_key p (fc_files c)\<rparr>)"
proof -
  have mem: "(p, f) \<in> set (fc_files c)"
    using f by (simp add: find_file_def map_of_SomeD)
  have fst: "distinct (map fst (fc_files c))" and dat: "distinct (map (cf_data \<circ> snd) (fc_files c))"
    using inv by (simp_all add: cache_inv_def)
  have "(cf_data \<circ> snd) ` set (erase_key p (fc_files c)) = (cf_data \<circ> snd) ` set (fc_files c) - {cf_data f}"
  proof -
    have 1: "cf_data e \<noteq> cf_data f" if "(q, e) \<in> set (fc_files c)" "q \<noteq> p" for q e
      using distinct_mapD [OF dat that(1) mem] that(2) by auto
    have 2: "e = f" if "(p, e) \<in> set (fc_files c)" for e
      using fst mem that by (meson eq_key_imp_eq_value)
    show ?thesis
    proof (intro equalityI subsetI)
      fix a assume "a \<in> (cf_data \<circ> snd) ` set (erase_key p (fc_files c))"
      then show "a \<in> (cf_data \<circ> snd) ` set (fc_files c) - {cf_data f}"
        using 1 by (auto simp: erase_key_set)
    next
      fix a assume "a \<in> (cf_data \<circ> snd) ` set (fc_files c) - {cf_data f}"
      then obtain q e where e: "(q, e) \<in> set (fc_files c)" "a = cf_data e" "a \<noteq> cf_data f"
        by auto
      then have "q \<noteq> p" using 2 by blast
      with e have "(q, e) \<in> set (erase_key p (fc_files c))"
        by (simp add: erase_key_set)
      then show "a \<in> (cf_data \<circ> snd) ` set (erase_key p (fc_files c))"
        using e(2) by force
    qed
  qed
  moreover have "distinct (map fst (erase_key p (fc_files c)))"
    "distinct (map (cf_data \<circ> snd) (erase_key p (fc_files c)))"
    unfolding erase_key_def using fst dat by (auto intro: distinct_map_filter)
  ultimately show ?thesis
    using inv by (auto simp: cache_inv_def unload_file_def erase_key_set)
qed

lemma load_file_cases:
  "load_file os now p st c = (None, c\<lparr>fc_fds := fc_fds c + (if fs_open os (c_str p) then 1 else 0)\<rparr>)
     \<and> (fs_open os (c_str p) \<longrightarrow> fs_mmap os (c_str p) (nat (st_size st mod int size_lim)) = None)
   \<or> (\<exists>s. load_file os now p st c =
        (Some \<lparr>cf_data = fc_next c, cf_size = nat (st_size st mod int size_lim), cf_refs = 1,
               cf_mtime = st_mtime st, cf_access = now\<rparr>,
         c\<lparr>fc_maps := (fc_maps c)(fc_next c \<mapsto> s), fc_next := fc_next c + 1\<rparr>)
        \<and> fs_open os (c_str p) \<and> fs_mmap os (c_str p) (nat (st_size st mod int size_lim)) = Some s)"
proof (cases "fs_open os (c_str p)")
  case True
  then show ?thesis
    by (cases "fs_mmap os (c_str p) (nat (st_size st mod int size_lim))") (simp_all add: load_file_def Let_def)
next
  case False
  then show ?thesis by (simp add: load_file_def)
qed

lemma cache_inv_new_entry:
  assumes inv: "cache_inv c" and free: "find_file c p = None" and f: "cf_data f = fc_next c"
  shows "cache_inv (c\<lparr>fc_maps := (fc_maps c)(fc_next c \<mapsto> s), fc_next := fc_next c + 1,
            fc_files := (p, f) # fc_files c, fc_total := n\<rparr>)"
proof -
  have "fc_next c \<notin> (cf_data \<circ> snd) ` set (fc_files c)"
    using inv by (auto simp: cache_inv_def)
  moreover have "p \<notin> fst ` set (fc_files c)"
    using free by (simp add: find_file_def map_of_eq_None_iff)
  ultimately show ?thesis
    using inv f by (auto simp: cache_inv_def less_Suc_eq)
qed

lemma cache_hit_ok:
  assumes "cache_inv c" "cache_hit now p st c = Some (f, c')"
  shows "cache_inv c'"
    and "\<exists>f0. find_file c p = Some f0 \<and> f = add_ref now f0 \<and> cf_mtime f0 = st_mtime st"
    and "find_file c' q = (if q = p then Some f else find_file c q)"
    and "fc_maps c' = fc_maps c" "fc_next c' = fc_next c" "fc_fds c' = fc_fds c"
proof -
  from assms(2) obtain f0 where f0: "find_file c p = Some f0" "cf_mtime f0 = st_mtime st" "f = add_ref now f0"
    and c': "c' = c\<lparr>fc_files := at_key p (add_ref now) (fc_files c)\<rparr>"
    by (auto simp: cache_hit_def split: option.splits if_splits)
  show "cache_inv c'"
    unfolding c' using assms(1) by (rule cache_inv_update) (simp_all add: add_ref_def)
  show "\<exists>f0. find_file c p = Some f0 \<and> f = add_ref now f0 \<and> cf_mtime f0 = st_mtime st"
    using f0 by blast
  show "find_file c' q = (if q = p then Some f else find_file c q)"
    using f0 by (simp add: c' find_file_def)
  show "fc_maps c' = fc_maps c" "fc_next c' = fc_next c" "fc_fds c' = fc_fds c"
    by (simp_all add: c')
qed

text \<open>What the exclusive phase does with the table when there is no hit.\<close>

definition without_entry :: "string \<Rightarrow> file_cache \<Rightarrow> file_cache" where
  "without_entry p c = (case find_file c p of
      None \<Rightarrow> c
    | Some f \<Rightarrow> (unload_file f c)\<lparr>fc_files := erase_key p (fc_files c)\<rparr>)"

lemma without_entry_ok:
  assumes "cache_inv c"
  shows "cache_inv (without_entry p c)" "find_file (without_entry p c) q = (if q = p then None else find_file c q)"
    "fc_next (without_entry p c) = fc_next c" "fc_fds (without_entry p c) = fc_fds c"
    "fc_total (without_entry p c) = fc_total c"
    "fc_maps (without_entry p c) = (case find_file c p of None \<Rightarrow> fc_maps c | Some f \<Rightarrow> (fc_maps c)(cf_data f := None))"
proof -
  show "cache_inv (without_entry p c)"
    using assms cache_inv_unload by (auto simp: without_entry_def split: option.split)
  show "find_file (without_entry p c) q = (if q = p then None else find_file c q)"
    by (auto simp: without_entry_def unload_file_def find_file_def split: option.split)
qed (simp_all add: without_entry_def unload_file_def split: option.split)

lemma get_exclusive_miss:
  assumes inv: "cache_inv c" and miss: "cache_hit now p st c = None"
    and get: "get_exclusive os now p st c = (r, c')"
  shows "cache_inv c'"
    and "find_file c' q = (if q = p then r else find_file c q)"
    and "r = None \<or> (\<exists>f s. r = Some f \<and> cf_data f = fc_next c \<and> cf_refs f = 1 \<and> cf_mtime f = st_mtime st
            \<and> cf_size f = nat (st_size st mod int size_lim)
            \<and> fs_mmap os (c_str p) (cf_size f) = Some s
            \<and> fc_maps c' = (fc_maps (without_entry p c))(fc_next c \<mapsto> s))"
    and "r = None \<Longrightarrow> fc_maps c' = fc_maps (without_entry p c)"
proof -
  let ?c1 = "without_entry p c"
  note c1 = without_entry_ok [OF inv, of p]
  have eq: "get_exclusive os now p st c = (case load_file os now p st ?c1 of
               (None, c2) \<Rightarrow> (None, c2)
             | (Some f, c2) \<Rightarrow>
                 (Some f, c2\<lparr>fc_files := (p, f) # fc_files c2, fc_total := atomic_inc (fc_total c2)\<rparr>))"
    using miss by (simp add: get_exclusive_def without_entry_def Let_def)
  consider (fail) n where "load_file os now p st ?c1 = (None, ?c1\<lparr>fc_fds := n\<rparr>)"
    | (ok) f s where "load_file os now p st ?c1 = (Some f,
         ?c1\<lparr>fc_maps := (fc_maps ?c1)(fc_next ?c1 \<mapsto> s), fc_next := fc_next ?c1 + 1\<rparr>)"
       "f = \<lparr>cf_data = fc_next c, cf_size = nat (st_size st mod int size_lim), cf_refs = 1,
               cf_mtime = st_mtime st, cf_access = now\<rparr>"
       "fs_mmap os (c_str p) (nat (st_size st mod int size_lim)) = Some s"
    using load_file_cases [of os now p st ?c1] c1(3) by auto
  then have "cache_inv c' \<and> (\<forall>q. find_file c' q = (if q = p then r else find_file c q))
    \<and> (r = None \<or> (\<exists>f s. r = Some f \<and> cf_data f = fc_next c \<and> cf_refs f = 1 \<and> cf_mtime f = st_mtime st
            \<and> cf_size f = nat (st_size st mod int size_lim)
            \<and> fs_mmap os (c_str p) (cf_size f) = Some s
            \<and> fc_maps c' = (fc_maps ?c1)(fc_next c \<mapsto> s)))
    \<and> (r = None \<longrightarrow> fc_maps c' = fc_maps ?c1)"
  proof cases
    case fail
    then have "r = None" "c' = ?c1\<lparr>fc_fds := n\<rparr>" using get eq by auto
    with c1 show ?thesis by (simp add: cache_inv_def find_file_def)
  next
    case ok
    then have r: "r = Some f" and c': "c' = ?c1\<lparr>fc_maps := (fc_maps ?c1)(fc_next ?c1 \<mapsto> s),
        fc_next := fc_next ?c1 + 1, fc_files := (p, f) # fc_files ?c1, fc_total := atomic_inc (fc_total ?c1)\<rparr>"
      using get eq by auto
    have "cache_inv c'"
      unfolding c' using c1 ok(2) by (intro cache_inv_new_entry) simp_all
    moreover have "find_file c' q = (if q = p then r else find_file c q)" for q
      using c1(2) [of q] by (auto simp: c' r find_file_def)
    ultimately show ?thesis
      using ok r c' c1 by auto
  qed
  then show "cache_inv c'" "find_file c' q = (if q = p then r else find_file c q)"
    "r = None \<or> (\<exists>f s. r = Some f \<and> cf_data f = fc_next c \<and> cf_refs f = 1 \<and> cf_mtime f = st_mtime st
            \<and> cf_size f = nat (st_size st mod int size_lim)
            \<and> fs_mmap os (c_str p) (cf_size f) = Some s
            \<and> fc_maps c' = (fc_maps ?c1)(fc_next c \<mapsto> s))"
    "r = None \<Longrightarrow> fc_maps c' = fc_maps ?c1" by blast+
qed

lemma get_exclusive_inv:
  assumes "cache_inv c" shows "cache_inv (snd (get_exclusive os now p st c))"
proof (cases "cache_hit now p st c")
  case None
  obtain r c' where "get_exclusive os now p st c = (r, c')" by fastforce
  with get_exclusive_miss(1) [OF assms None this] show ?thesis by simp
next
  case (Some fc)
  obtain f c' where "fc = (f, c')" by fastforce
  with cache_hit_ok(1) [OF assms] Some show ?thesis by (simp add: get_exclusive_def)
qed

lemma get_file_mapping_inv:
  "cache_inv c \<Longrightarrow> cache_inv (snd (get_file_mapping os now1 now2 p st c))"
  using cache_hit_ok(1) [of c now1 p st] get_exclusive_inv [of c os now2 p st]
  by (auto simp: get_file_mapping_def split: option.split)

lemma drop_ref_simps [simp]:
  "cf_data (drop_ref f) = cf_data f" "cf_mtime (drop_ref f) = cf_mtime f"
  by (simp_all add: drop_ref_def)

lemma release_ok:
  assumes "cache_inv c"
  shows "cache_inv (release_file_mapping p c)"
    and "find_file (release_file_mapping p c) q
         = (if q = p then map_option drop_ref (find_file c p) else find_file c q)"
    and "fc_maps (release_file_mapping p c) = fc_maps c"
  using assms by (auto simp: release_file_mapping_def find_file_def split: option.split
      intro!: cache_inv_update)

lemma cleanup_loop_ok:
  assumes "cache_inv c" "distinct (map fst xs)" "\<forall>(p, f) \<in> set xs. find_file c p = Some f"
  shows "cache_inv (cleanup_loop now mx xs c)
    \<and> (\<forall>q. find_file (cleanup_loop now mx xs c) q
         = (case find_file c q of None \<Rightarrow> None
            | Some f \<Rightarrow> if q \<in> fst ` set xs \<and> idle_file now mx f then None else Some f))
    \<and> (\<forall>q f. find_file (cleanup_loop now mx xs c) q = Some f \<longrightarrow>
          fc_maps (cleanup_loop now mx xs c) (cf_data f) = fc_maps c (cf_data f))"
  using assms
proof (induction xs arbitrary: c)
  case Nil
  then show ?case by (auto split: option.split)
next
  case (Cons x xs)
  obtain p f where x: "x = (p, f)" by fastforce
  with Cons.prems have f: "find_file c p = Some f" "p \<notin> fst ` set xs" by auto
  show ?case
  proof (cases "idle_file now mx f")
    case True
    let ?c1 = "(unload_file f c)\<lparr>fc_files := erase_key p (fc_files c), fc_total := atomic_dec (fc_total c)\<rparr>"
    have inv1: "cache_inv ?c1"
      using cache_inv_unload [OF Cons.prems(1) f(1)] by (simp add: cache_inv_def)
    have find1: "find_file ?c1 q = (if q = p then None else find_file c q)" for q
      by (simp add: find_file_def unload_file_def)
    have eq: "cleanup_loop now mx (x # xs) c = cleanup_loop now mx xs ?c1"
      using True by (simp add: x unload_file_def)
    have "\<forall>(q, e) \<in> set xs. find_file ?c1 q = Some e"
      using Cons.prems(3) f(2) find1 by (force simp: image_iff)
    with Cons.IH [OF inv1] Cons.prems(2) have IH: "cache_inv (cleanup_loop now mx xs ?c1)"
      "\<forall>q. find_file (cleanup_loop now mx xs ?c1) q
         = (case find_file ?c1 q of None \<Rightarrow> None
            | Some f \<Rightarrow> if q \<in> fst ` set xs \<and> idle_file now mx f then None else Some f)"
      "\<forall>q e. find_file (cleanup_loop now mx xs ?c1) q = Some e \<longrightarrow>
          fc_maps (cleanup_loop now mx xs ?c1) (cf_data e) = fc_maps ?c1 (cf_data e)"
      by (simp_all add: x)
    have "fc_maps ?c1 (cf_data e) = fc_maps c (cf_data e)"
      if "find_file (cleanup_loop now mx xs ?c1) q = Some e" for q e
    proof -
      from that IH(2) find1 have "find_file c q = Some e" "q \<noteq> p"
        by (auto split: if_splits option.splits)
      then have "(q, e) \<in> set (fc_files c)" "(p, f) \<in> set (fc_files c)"
        using f(1) by (auto simp: find_file_def dest: map_of_SomeD)
      then have "cf_data e \<noteq> cf_data f"
        using Cons.prems(1) \<open>q \<noteq> p\<close> distinct_mapD [of "cf_data \<circ> snd" "fc_files c" "(q, e)" "(p, f)"]
        by (auto simp: cache_inv_def)
      then show ?thesis by (simp add: unload_file_def)
    qed
    then show ?thesis
      unfolding eq using IH True f find1 by (auto simp: x split: option.split)
  next
    case False
    with Cons show ?thesis
      by (auto simp: x f(1) split: option.split)
  qed
qed

lemma cleanup_ok:
  assumes "cache_inv c"
  shows "cache_inv (cleanup_cache now mx c)"
    and "find_file (cleanup_cache now mx c) q
         = (case find_file c q of None \<Rightarrow> None | Some f \<Rightarrow> if idle_file now mx f then None else Some f)"
    and "find_file (cleanup_cache now mx c) q = Some f \<Longrightarrow>
         fc_maps (cleanup_cache now mx c) (cf_data f) = fc_maps c (cf_data f)"
proof -
  have "distinct (map fst (fc_files c))" using assms by (simp add: cache_inv_def)
  moreover from this have "\<forall>(p, f) \<in> set (fc_files c). find_file c p = Some f"
    by (auto simp: find_file_def)
  moreover have "q \<in> fst ` set (fc_files c)" if "find_file c q = Some f" for q f
    using that by (force simp: find_file_def dest: map_of_SomeD)
  ultimately show "cache_inv (cleanup_cache now mx c)"
    "find_file (cleanup_cache now mx c) q
         = (case find_file c q of None \<Rightarrow> None | Some f \<Rightarrow> if idle_file now mx f then None else Some f)"
    "find_file (cleanup_cache now mx c) q = Some f \<Longrightarrow>
         fc_maps (cleanup_cache now mx c) (cf_data f) = fc_maps c (cf_data f)"
    using cleanup_loop_ok [OF assms, of "fc_files c" now mx]
    by (auto simp: cleanup_cache_def split: option.split)
qed

section \<open>Leases\<close>

text \<open>
  The threads as an interleaving of atomic steps, one per critical section, on the cache and the
  leases that are out: the path and the address that a response holds. \<open>mt\<close> gives the modification
  time that \<open>stat\<close> reports; the files do not change meanwhile. A path has fewer than \<open>INT_MAX\<close> leases (each is held by
  a response of an open connection), so its count does not wrap.
\<close>

type_synonym lease = "string \<times> nat"

definition count_path :: "string \<Rightarrow> lease list \<Rightarrow> nat" where
  "count_path p held = length (filter (\<lambda>l. fst l = p) held)"

inductive cache_step :: "os_files \<Rightarrow> (string \<Rightarrow> int) \<Rightarrow> file_cache \<times> lease list \<Rightarrow> file_cache \<times> lease list \<Rightarrow> bool"
  for os mt where
  shared_hit: "st_mtime st = mt p \<Longrightarrow> count_path p held < int_max \<Longrightarrow> cache_hit now p st c = Some (f, c') \<Longrightarrow>
      cache_step os mt (c, held) (c', (p, cf_data f) # held)"
| exclusive: "st_mtime st = mt p \<Longrightarrow> count_path p held < int_max \<Longrightarrow> get_exclusive os now p st c = (Some f, c') \<Longrightarrow>
      cache_step os mt (c, held) (c', (p, cf_data f) # held)"
| exclusive_fail: "st_mtime st = mt p \<Longrightarrow> get_exclusive os now p st c = (None, c') \<Longrightarrow>
      cache_step os mt (c, held) (c', held)"
| release: "(p, a) \<in> set held \<Longrightarrow>
      cache_step os mt (c, held) (release_file_mapping p c, remove1 (p, a) held)"
| cleanup: "cache_step os mt (c, held) (cleanup_cache now max_idle c, held)"

inductive_cases cache_stepE: "cache_step os mt s s'"

lemma count_path_simps [simp]:
  "count_path p [] = 0"
  "count_path p ((q, a) # held) = (if q = p then Suc (count_path p held) else count_path p held)"
  by (simp_all add: count_path_def)

lemma count_path_zero: "count_path p held = 0 \<longleftrightarrow> p \<notin> fst ` set held"
  by (auto simp: count_path_def filter_empty_conv)

lemma count_path_remove:
  "(p, a) \<in> set held \<Longrightarrow> count_path q (remove1 (p, a) held)
     = (if q = p then count_path q held - 1 else count_path q held)"
proof (induction held)
  case (Cons l held)
  have "0 < count_path p held" if "(p, a) \<in> set held"
    using that count_path_zero [of p held] by force
  with Cons show ?case by (cases l) auto
qed simp

text \<open>The reference count of an entry is the number of leases on its path, all on its mapping.\<close>

definition leases_inv :: "(string \<Rightarrow> int) \<Rightarrow> file_cache \<times> lease list \<Rightarrow> bool" where
  "leases_inv mt s \<longleftrightarrow> (case s of (c, held) \<Rightarrow> cache_inv c
     \<and> (\<forall>p. case find_file c p of
           None \<Rightarrow> count_path p held = 0
         | Some f \<Rightarrow> cf_refs f = int (count_path p held) \<and> cf_mtime f = mt p
             \<and> (\<forall>a. (p, a) \<in> set held \<longrightarrow> a = cf_data f)))"

lemma leases_invI:
  assumes "cache_inv c" "\<And>p. find_file c p = None \<Longrightarrow> count_path p held = 0"
    and "\<And>p f. find_file c p = Some f \<Longrightarrow> cf_refs f = int (count_path p held) \<and> cf_mtime f = mt p
             \<and> (\<forall>a. (p, a) \<in> set held \<longrightarrow> a = cf_data f)"
  shows "leases_inv mt (c, held)"
  using assms by (auto simp: leases_inv_def split: option.split)

lemma leases_invD:
  assumes "leases_inv mt (c, held)"
  shows "cache_inv c" "find_file c p = None \<Longrightarrow> count_path p held = 0"
    and "find_file c p = Some f \<Longrightarrow> cf_refs f = int (count_path p held) \<and> cf_mtime f = mt p
             \<and> (\<forall>a. (p, a) \<in> set held \<longrightarrow> a = cf_data f)"
proof -
  have "\<forall>p. case find_file c p of
           None \<Rightarrow> count_path p held = 0
         | Some f \<Rightarrow> cf_refs f = int (count_path p held) \<and> cf_mtime f = mt p
             \<and> (\<forall>a. (p, a) \<in> set held \<longrightarrow> a = cf_data f)"
    using assms by (simp add: leases_inv_def)
  from this [THEN spec, of p] show "find_file c p = None \<Longrightarrow> count_path p held = 0"
    "find_file c p = Some f \<Longrightarrow> cf_refs f = int (count_path p held) \<and> cf_mtime f = mt p
             \<and> (\<forall>a. (p, a) \<in> set held \<longrightarrow> a = cf_data f)" by auto
  show "cache_inv c" using assms by (simp add: leases_inv_def)
qed

lemma leases_hit:
  assumes inv: "leases_inv mt (c, held)" and few: "count_path p held < int_max" and hit: "cache_hit now p st c = Some (f, c')"
  shows "leases_inv mt (c', (p, cf_data f) # held)"
proof (rule leases_invI)
  note D = leases_invD [OF inv]
  note H = cache_hit_ok [OF D(1) hit]
  show "cache_inv c'" by (rule H(1))
  obtain f0 where f0: "find_file c p = Some f0" "f = add_ref now f0" using H(2) by blast
  fix q
  show "count_path q ((p, cf_data f) # held) = 0" if "find_file c' q = None"
    using that H(3) D(2) by (auto split: if_splits)
  show "cf_refs g = int (count_path q ((p, cf_data f) # held)) \<and> cf_mtime g = mt q
             \<and> (\<forall>a. (q, a) \<in> set ((p, cf_data f) # held) \<longrightarrow> a = cf_data g)" if "find_file c' q = Some g" for g
  proof (cases "q = p")
    case True
    with that H(3) have "g = add_ref now f0" using f0(2) by simp
    with D(3) [OF f0(1)] f0(2) True few show ?thesis by (simp add: add_ref_def size_simps)
  next
    case False
    with that H(3) [of q] have "find_file c q = Some g" by simp
    from D(3) [OF this] False show ?thesis by simp
  qed
qed

lemma leases_get_exclusive:
  assumes inv: "leases_inv mt (c, held)" and st: "st_mtime st = mt p"
    and few: "r \<noteq> None \<Longrightarrow> count_path p held < int_max" and get: "get_exclusive os now p st c = (r, c')"
  shows "leases_inv mt (c', (case r of None \<Rightarrow> held | Some f \<Rightarrow> (p, cf_data f) # held))"
proof (cases "cache_hit now p st c")
  case (Some fc)
  obtain f c1 where "fc = (f, c1)" by fastforce
  with Some get few leases_hit [OF inv] show ?thesis by (auto simp: get_exclusive_def)
next
  case None
  note D = leases_invD [OF inv]
  note M = get_exclusive_miss [OF D(1) None get]
  have gone: "find_file c p = None"
    using None D(3) st by (auto simp: cache_hit_def split: option.splits if_splits)
  show ?thesis
  proof (rule leases_invI)
    show "cache_inv c'" by (rule M(1))
    fix q
    show "count_path q (case r of None \<Rightarrow> held | Some f \<Rightarrow> (p, cf_data f) # held) = 0"
      if "find_file c' q = None"
      using that M(2) [of q] D(2) [of q] gone by (auto split: if_splits option.split)
    have cnt: "count_path p held = 0" by (rule D(2) [OF gone])
    then have none: "(p, a) \<notin> set held" for a by (force simp: count_path_zero)
    show "cf_refs g = int (count_path q (case r of None \<Rightarrow> held | Some f \<Rightarrow> (p, cf_data f) # held))
        \<and> cf_mtime g = mt q
        \<and> (\<forall>a. (q, a) \<in> set (case r of None \<Rightarrow> held | Some f \<Rightarrow> (p, cf_data f) # held) \<longrightarrow> a = cf_data g)"
      if "find_file c' q = Some g" for g
    proof (cases "q = p")
      case True
      with that M(2) have r: "r = Some g" by simp
      with M(3) have "cf_refs g = 1" "cf_mtime g = st_mtime st" by auto
      with r True cnt none st show ?thesis by simp
    next
      case False
      with that M(2) [of q] have "find_file c q = Some g" by simp
      from D(3) [OF this] False show ?thesis by (auto split: option.split)
    qed
  qed
qed

lemma leases_release:
  assumes inv: "leases_inv mt (c, held)" and l: "(p, a) \<in> set held"
  shows "leases_inv mt (release_file_mapping p c, remove1 (p, a) held)"
proof (rule leases_invI)
  note D = leases_invD [OF inv]
  note R = release_ok [OF D(1)]
  show "cache_inv (release_file_mapping p c)" by (rule R(1))
  have pos: "0 < count_path p held" using l count_path_zero [of p held] by force
  fix q
  show "count_path q (remove1 (p, a) held) = 0" if "find_file (release_file_mapping p c) q = None"
    using that R(2) [of p q] D(2) [of q] pos by (auto simp: count_path_remove [OF l] split: if_splits)
  show "cf_refs g = int (count_path q (remove1 (p, a) held)) \<and> cf_mtime g = mt q
      \<and> (\<forall>b. (q, b) \<in> set (remove1 (p, a) held) \<longrightarrow> b = cf_data g)"
    if "find_file (release_file_mapping p c) q = Some g" for g
  proof (cases "q = p")
    case True
    with that R(2) [of p q] obtain f where f: "find_file c p = Some f" "g = drop_ref f"
      by (cases "find_file c p") auto
    with D(3) [OF f(1)] pos True show ?thesis
      by (auto simp: count_path_remove [OF l] drop_ref_def of_nat_diff size_simps dest: set_remove1_subset [THEN subsetD])
  next
    case False
    with that R(2) [of p q] D(3) [of q g] show ?thesis
      by (auto simp: count_path_remove [OF l] dest: set_remove1_subset [THEN subsetD])
  qed
qed

lemma leases_cleanup:
  assumes inv: "leases_inv mt (c, held)"
  shows "leases_inv mt (cleanup_cache now mx c, held)"
proof (rule leases_invI)
  note D = leases_invD [OF inv]
  note C = cleanup_ok [OF D(1), of now mx]
  show "cache_inv (cleanup_cache now mx c)" by (rule C(1))
  fix q
  show "count_path q held = 0" if "find_file (cleanup_cache now mx c) q = None"
    using that C(2) [of q] D(2) [of q] D(3) [of q]
    by (auto simp: idle_file_def split: option.splits if_splits)
  show "cf_refs g = int (count_path q held) \<and> cf_mtime g = mt q \<and> (\<forall>a. (q, a) \<in> set held \<longrightarrow> a = cf_data g)"
    if "find_file (cleanup_cache now mx c) q = Some g" for g
    using that C(2) [of q] D(3) [of q] by (auto split: option.splits if_splits)
qed

lemma cache_step_inv:
  assumes "cache_step os mt s s'" "leases_inv mt s"
  shows "leases_inv mt s'"
  using assms(1)
proof (cases rule: cache_step.cases)
  case (exclusive st p held now c f c')
  with leases_get_exclusive [of mt c held st p "Some f" os now c'] assms(2) show ?thesis by simp
next
  case (exclusive_fail st p now c c' held)
  with leases_get_exclusive [of mt c held st p None os now c'] assms(2) show ?thesis by simp
qed (use assms(2) leases_hit leases_release leases_cleanup in auto)

lemma reachable_leases_inv:
  "(cache_step os mt)\<^sup>*\<^sup>* (new_cache, []) s \<Longrightarrow> leases_inv mt s"
proof (induction rule: rtranclp_induct)
  case base
  show ?case by (rule leases_invI) (simp_all add: find_file_def, simp_all add: new_cache_def)
next
  case (step s s')
  then show ?case using cache_step_inv by blast
qed


section \<open>The contract of the cache\<close>

datatype cache_op =
    Acquire int int string file_stat
  | Release string
  | Sweep int int

fun cache_history ::
  "(int \<Rightarrow> int \<Rightarrow> string \<Rightarrow> file_stat \<Rightarrow> 'c \<Rightarrow> 'f option \<times> 'c) \<Rightarrow> (string \<Rightarrow> 'c \<Rightarrow> 'c) \<Rightarrow>
   (int \<Rightarrow> int \<Rightarrow> 'c \<Rightarrow> 'c) \<Rightarrow> cache_op list \<Rightarrow> 'c \<Rightarrow> 'c" where
  "cache_history get rel sweep [] c = c"
| "cache_history get rel sweep (Acquire n1 n2 p st # ops) c =
     cache_history get rel sweep ops (snd (get n1 n2 p st c))"
| "cache_history get rel sweep (Release p # ops) c = cache_history get rel sweep ops (rel p c)"
| "cache_history get rel sweep (Sweep now mx # ops) c = cache_history get rel sweep ops (sweep now mx c)"

text \<open>
  What the response relies on: a mapping that \<open>get\<close> returns is live in the state it leaves, with the
  size it says, and releasing touches no mapping.
\<close>

locale mapping_cache =
  fixes invar :: "'c \<Rightarrow> bool"
    and live :: "'c \<Rightarrow> nat \<rightharpoonup> string"
    and get :: "int \<Rightarrow> int \<Rightarrow> string \<Rightarrow> file_stat \<Rightarrow> 'c \<Rightarrow> cached_file option \<times> 'c"
    and rel :: "string \<Rightarrow> 'c \<Rightarrow> 'c"
    and sweep :: "int \<Rightarrow> int \<Rightarrow> 'c \<Rightarrow> 'c"
  assumes get_invar: "invar c \<Longrightarrow> invar (snd (get n1 n2 p st c))"
    and get_live: "invar c \<Longrightarrow> get n1 n2 p st c = (Some f, c') \<Longrightarrow> \<exists>s. live c' (cf_data f) = Some s"
    and rel_ok: "invar c \<Longrightarrow> invar (rel p c) \<and> live (rel p c) = live c"
    and sweep_ok: "invar c \<Longrightarrow> invar (sweep now mx c) \<and> live (sweep now mx c) \<subseteq>\<^sub>m live c"
begin

lemma history_invar: "invar c \<Longrightarrow> invar (cache_history get rel sweep ops c)"
proof (induction ops arbitrary: c)
  case (Cons op ops)
  then show ?case
    using get_invar rel_ok sweep_ok by (cases op) auto
qed simp

text \<open>A lease survives any number of releases, its own included, until the cache is swept or asked again.\<close>

lemma live_until_sweep:
  assumes "invar c" "get n1 n2 p st c = (Some f, c')"
  shows "\<exists>s. live (cache_history get rel sweep (map Release ps) c') (cf_data f) = Some s"
proof -
  have "live (cache_history get rel sweep (map Release ps) c0) = live c0" if "invar c0" for c0
    using that by (induction ps arbitrary: c0) (simp_all add: rel_ok)
  moreover have "invar c'" using get_invar [OF assms(1), of n1 n2 p st] assms(2) by simp
  ultimately show ?thesis using get_live [OF assms] by simp
qed

end

lemma entry_live:
  assumes "cache_inv c" "find_file c p = Some f"
  shows "\<exists>s. fc_maps c (cf_data f) = Some s"
proof -
  have "(p, f) \<in> set (fc_files c)" using assms(2) by (simp add: find_file_def map_of_SomeD)
  then have "cf_data f \<in> dom (fc_maps c)" using assms(1) by (force simp: cache_inv_def)
  then show ?thesis by blast
qed

lemma get_file_mapping_entry:
  assumes "cache_inv c" "get_file_mapping os n1 n2 p st c = (Some f, c')"
  shows "cache_inv c' \<and> find_file c' p = Some f \<and> cf_mtime f = st_mtime st"
proof (cases "cache_hit n1 p st c")
  case (Some fc)
  obtain f1 c1 where fc: "fc = (f1, c1)" by fastforce
  with Some assms(2) have "f1 = f" "c1 = c'" by (auto simp: get_file_mapping_def)
  with cache_hit_ok(1-3) [OF assms(1), of n1 p st f1 c1] Some fc show ?thesis by (auto simp: add_ref_def)
next
  case None
  then have "get_exclusive os n2 p st c = (Some f, c')" "cache_hit n2 p st c = None"
    using assms(2) by (auto simp: get_file_mapping_def cache_hit_def split: option.splits if_splits)
  from get_exclusive_miss(1-3) [OF assms(1) this(2,1)] show ?thesis by auto
qed

lemma cleanup_maps:
  assumes "cache_inv c"
  shows "fc_maps (cleanup_cache now mx c) \<subseteq>\<^sub>m fc_maps c"
proof -
  have "fc_maps (cleanup_loop now mx xs c) \<subseteq>\<^sub>m fc_maps c" for xs c
  proof (induction xs arbitrary: c)
    case (Cons x xs)
    obtain p f where x: "x = (p, f)" by fastforce
    let ?c1 = "(unload_file f c)\<lparr>fc_files := erase_key p (fc_files c), fc_total := atomic_dec (fc_total c)\<rparr>"
    have "fc_maps ?c1 \<subseteq>\<^sub>m fc_maps c" by (auto simp: unload_file_def map_le_def)
    with Cons [of ?c1] have "fc_maps (cleanup_loop now mx xs ?c1) \<subseteq>\<^sub>m fc_maps c" by (rule map_le_trans)
    moreover have "cleanup_loop now mx (x # xs) c
        = (if idle_file now mx f then cleanup_loop now mx xs ?c1 else cleanup_loop now mx xs c)"
      by (simp add: x unload_file_def)
    ultimately show ?case
      using Cons [of c] by (cases "idle_file now mx f") simp_all
  qed simp
  then show ?thesis by (simp add: cleanup_cache_def)
qed

interpretation file_cache: mapping_cache cache_inv fc_maps "get_file_mapping os" release_file_mapping
    cleanup_cache for os
proof (unfold_locales, goal_cases)
  case 1
  then show ?case by (rule get_file_mapping_inv)
next
  case (2 c n1 n2 p st f c')
  from get_file_mapping_entry [OF 2] entry_live show ?case by blast
next
  case 3
  then show ?case by (simp add: release_ok)
next
  case 4
  then show ?case by (simp add: cleanup_ok cleanup_maps)
qed


section \<open>Properties of the cache\<close>

text \<open>
  C13: while the files on disk do not change and no path has as many as \<open>INT_MAX\<close> leases, no interleaving of the threads unmaps a file that is
  being served: every lease that is out points to a live mapping, the one of the entry for
  its path, and the reference count of the entry is exactly the number of leases on the path.
\<close>

theorem leased_mapping_is_live:
  assumes "(cache_step os mt)\<^sup>*\<^sup>* (new_cache, []) (c, held)" "(p, a) \<in> set held"
  shows "\<exists>f s. find_file c p = Some f \<and> a = cf_data f \<and> fc_maps c a = Some s
     \<and> cf_refs f = int (count_path p held)"
proof -
  have inv: "leases_inv mt (c, held)" by (rule reachable_leases_inv [OF assms(1)])
  have "count_path p held \<noteq> 0" using assms(2) count_path_zero [of p held] by force
  then obtain f where f: "find_file c p = Some f"
    using leases_invD(2) [OF inv, of p] by (cases "find_file c p") auto
  with leases_invD(3) [OF inv f] entry_live [OF leases_invD(1) [OF inv] f] assms(2) show ?thesis by auto
qed

definition one_page :: os_files where
  "one_page = \<lparr>fs_stat = (\<lambda>p. Some \<lparr>st_size = 2, st_mode = 0x81A4, st_mtime = 5\<rparr>),
     fs_open = (\<lambda>p. True), fs_mmap = (\<lambda>p n. if n = 2 then Some ''hi'' else None)\<rparr>"

definition page_stat :: "int \<Rightarrow> int \<Rightarrow> file_stat" where
  "page_stat bytes mtime = \<lparr>st_size = bytes, st_mode = 0x81A4, st_mtime = mtime\<rparr>"

theorem leased_mapping_is_live_witness:
  "\<exists>c f. (cache_step one_page (\<lambda>p. 5))\<^sup>*\<^sup>* (new_cache, []) (c, [(''/a'', 1)])
     \<and> find_file c ''/a'' = Some f \<and> cf_refs f = 1 \<and> fc_maps c 1 = Some ''hi''"
proof -
  obtain f c where get: "get_exclusive one_page 0 ''/a'' (page_stat 2 5) new_cache = (Some f, c)"
    and f: "cf_data f = 1" "fc_maps c 1 = Some ''hi''"
    by (simp add: get_exclusive_def cache_hit_def find_file_def new_cache_def load_file_def one_page_def
        page_stat_def Let_def size_lim_def c_str_def)
  have "cache_step one_page (\<lambda>p. 5) (new_cache, []) (c, [(''/a'', cf_data f)])"
    by (rule exclusive [OF _ _ get]) (simp_all add: page_stat_def int_max_def)
  then have run: "(cache_step one_page (\<lambda>p. 5))\<^sup>*\<^sup>* (new_cache, []) (c, [(''/a'', 1)])"
    using f by auto
  from leased_mapping_is_live [OF run, of "''/a''" 1] run f(2) show ?thesis by auto
qed

text \<open>
  No mapping is leaked, and no two entries share one. The calls of a cache are looked at one after the other; each finds the file
  system in a state of its own, so that files change and opens and mappings fail in between.
\<close>

definition cache_calls :: "(os_files \<times> cache_op) list \<Rightarrow> file_cache \<Rightarrow> file_cache" where
  "cache_calls ops c =
     fold (\<lambda>(os, op). cache_history (get_file_mapping os) release_file_mapping cleanup_cache [op]) ops c"

lemma cache_calls_inv: "cache_inv c \<Longrightarrow> cache_inv (cache_calls ops c)"
proof (induction ops arbitrary: c)
  case (Cons x ops)
  obtain os op where x: "x = (os, op)" by (cases x)
  have "cache_inv (cache_history (get_file_mapping os) release_file_mapping cleanup_cache [op] c)"
    by (rule file_cache.history_invar) (rule Cons.prems)
  with Cons.IH x show ?case by (simp add: cache_calls_def del: cache_history.simps)
qed (simp add: cache_calls_def)

lemma destroy_cache_maps:
  "fc_maps (destroy_cache c) = (\<lambda>a. if a \<in> (cf_data \<circ> snd) ` set (fc_files c) then None else fc_maps c a)"
proof -
  have "fc_maps (fold (\<lambda>(p, f). unload_file f) xs c0)
      = (\<lambda>a. if a \<in> (cf_data \<circ> snd) ` set xs then None else fc_maps c0 a)" for xs c0
    by (induction xs arbitrary: c0) (auto simp: unload_file_def fun_eq_iff)
  then show ?thesis by (simp add: destroy_cache_def)
qed

text \<open>
  C3: the file cache leaks no mapping. After any series of lookups, releases and clean-ups on a new cache, whatever files
  change and whatever \<open>open\<close> and \<open>mmap\<close> answer in between, the live mappings are exactly those of the entries, a path has
  one entry, each entry has a mapping of its own, and the destructor unmaps all of them. (Descriptors are another matter:
  \<open>failed_mapping_leaks_descriptor\<close>.)
\<close>

theorem mappings_are_owned:
  "dom (fc_maps (cache_calls ops new_cache)) = (cf_data \<circ> snd) ` set (fc_files (cache_calls ops new_cache))
   \<and> distinct (map fst (fc_files (cache_calls ops new_cache)))
   \<and> distinct (map (cf_data \<circ> snd) (fc_files (cache_calls ops new_cache)))
   \<and> fc_maps (destroy_cache (cache_calls ops new_cache)) = Map.empty"
proof -
  have inv: "cache_inv (cache_calls ops new_cache)" by (rule cache_calls_inv) simp
  then show ?thesis unfolding cache_inv_def destroy_cache_maps by (auto simp: fun_eq_iff dom_def)
qed

text \<open>
  A served file that is replaced on disk is unmapped under its readers: the next lookup with a
  newer modification time takes the old mapping away, whatever the reference count says.
\<close>

theorem modified_file_unmapped_in_use:
  assumes "cache_inv c" "find_file c p = Some f" "cf_mtime f \<noteq> st_mtime st"
    and "get_file_mapping os n1 n2 p st c = (r, c')"
  shows "fc_maps c (cf_data f) \<noteq> None \<and> fc_maps c' (cf_data f) = None"
proof -
  have miss: "cache_hit n p st c = None" for n
    using assms(2,3) by (simp add: cache_hit_def)
  have get: "get_exclusive os n2 p st c = (r, c')"
    using assms(4) miss by (simp add: get_file_mapping_def)
  have old: "fc_maps (without_entry p c) (cf_data f) = None"
    using without_entry_ok(6) [OF assms(1), of p] assms(2) by simp
  have "cf_data f \<noteq> fc_next c"
    using assms(1,2) by (auto simp: cache_inv_def find_file_def dest!: map_of_SomeD)
  with old get_exclusive_miss(3,4) [OF assms(1) miss get] have "fc_maps c' (cf_data f) = None" by auto
  with entry_live [OF assms(1,2)] show ?thesis by simp
qed

theorem modified_file_unmapped_in_use_witness:
  "\<exists>f c r c'. get_file_mapping one_page 0 0 ''/a'' (page_stat 2 5) new_cache = (Some f, c) \<and> cf_refs f = 1
     \<and> get_file_mapping one_page 1 1 ''/a'' (page_stat 2 6) c = (r, c') \<and> fc_maps c' (cf_data f) = None"
proof -
  obtain f c where get: "get_file_mapping one_page 0 0 ''/a'' (page_stat 2 5) new_cache = (Some f, c)"
    and f: "cf_refs f = 1"
    by (simp add: get_file_mapping_def get_exclusive_def cache_hit_def find_file_def new_cache_def load_file_def
        one_page_def page_stat_def Let_def size_lim_def c_str_def)
  from get_file_mapping_entry [OF new_cache_inv get]
  have c: "cache_inv c" "find_file c ''/a'' = Some f" "cf_mtime f = 5" by (simp_all add: page_stat_def)
  obtain r c' where "get_file_mapping one_page 1 1 ''/a'' (page_stat 2 6) c = (r, c')" by fastforce
  with modified_file_unmapped_in_use [OF c(1,2) _ this] c(3) get f show ?thesis
    by (auto simp: page_stat_def)
qed

text \<open>
  A mapping that fails leaks the descriptor: the early return comes before \<open>close\<close>. A file
  that can be opened but not mapped costs one descriptor at every request.
\<close>

theorem failed_mapping_leaks_descriptor:
  assumes "fs_open os (c_str p)" "fs_mmap os (c_str p) (nat (st_size st mod int size_lim)) = None"
    and "find_file c p = None"
  shows "fc_fds (((\<lambda>c. snd (get_file_mapping os n1 n2 p st c)) ^^ k) c) = fc_fds c + k"
proof -
  have once: "get_file_mapping os n1 n2 p st c0 = (None, c0\<lparr>fc_fds := fc_fds c0 + 1\<rparr>)"
    if "find_file c0 p = None" for c0
    using that assms(1,2) by (simp add: get_file_mapping_def get_exclusive_def cache_hit_def load_file_def Let_def)
  have "find_file (((\<lambda>c. snd (get_file_mapping os n1 n2 p st c)) ^^ k) c) p = None
     \<and> fc_fds (((\<lambda>c. snd (get_file_mapping os n1 n2 p st c)) ^^ k) c) = fc_fds c + k"
  proof (induction k)
    case (Suc k)
    let ?c = "((\<lambda>c. snd (get_file_mapping os n1 n2 p st c)) ^^ k) c"
    have "find_file (?c\<lparr>fc_fds := fc_fds ?c + 1\<rparr>) p = find_file ?c p" by (simp add: find_file_def)
    with Suc once [of ?c] show ?case by simp
  qed (simp add: assms(3))
  then show ?thesis ..
qed

theorem failed_mapping_leaks_descriptor_witness:
  "fc_fds (((\<lambda>c. snd (get_file_mapping one_page 0 0 ''/a'' (page_stat 3 5) c)) ^^ 7) new_cache) = 7"
proof -
  have "fs_open one_page (c_str ''/a'')" by (simp add: one_page_def)
  moreover have "fs_mmap one_page (c_str ''/a'') (nat (st_size (page_stat 3 5) mod int size_lim)) = None"
    by (simp add: one_page_def page_stat_def size_lim_def)
  moreover have "find_file new_cache ''/a'' = None" "fc_fds new_cache = 0"
    by (simp_all add: find_file_def new_cache_def)
  ultimately show ?thesis
    using failed_mapping_leaks_descriptor [where os = one_page and p = "''/a''" and st = "page_stat 3 5"
        and c = new_cache and ?n1.0 = 0 and ?n2.0 = 0 and k = 7] by simp
qed

text \<open>
  The count of mapped files drifts: replacing an entry adds one to \<open>_totalMappedFiles\<close> although the
  number of entries stays.
\<close>

theorem replacement_miscounts:
  assumes "cache_inv c" "find_file c p = Some f" "cf_mtime f \<noteq> st_mtime st"
    and "get_file_mapping os n1 n2 p st c = (Some g, c')"
  shows "fc_total c' = atomic_inc (fc_total c) \<and> length (fc_files c') = length (fc_files c)"
proof -
  have miss: "cache_hit n p st c = None" for n
    using assms(2,3) by (simp add: cache_hit_def)
  have get: "get_exclusive os n2 p st c = (Some g, c')"
    using assms(4) miss by (simp add: get_file_mapping_def)
  let ?c1 = "without_entry p c"
  have eq: "get_exclusive os n2 p st c = (case load_file os n2 p st ?c1 of
               (None, c2) \<Rightarrow> (None, c2)
             | (Some f, c2) \<Rightarrow> (Some f, c2\<lparr>fc_files := (p, f) # fc_files c2, fc_total := atomic_inc (fc_total c2)\<rparr>))"
    using miss by (simp add: get_exclusive_def without_entry_def Let_def)
  have c': "fc_files c' = (p, g) # fc_files ?c1" "fc_total c' = atomic_inc (fc_total ?c1)"
    using get eq load_file_cases [of os n2 p st ?c1] by (auto split: prod.splits option.splits)
  have dist: "distinct (map fst (fc_files c))" using assms(1) by (simp add: cache_inv_def)
  have "p \<in> fst ` set (fc_files c)" using assms(2) by (force simp: find_file_def dest: map_of_SomeD)
  then have "Suc (length (erase_key p (fc_files c))) = length (fc_files c)"
    using dist
  proof (induction "fc_files c" arbitrary: c)
    case (Cons x xs)
    have ne: "erase_key p xs = xs" if "p \<notin> fst ` set xs"
      using that by (auto simp: erase_key_def filter_id_conv)
    have IH: "Suc (length (erase_key p xs)) = length xs" if "p \<in> fst ` set xs" "distinct (map fst xs)"
      using Cons(1) [of "\<lparr>fc_files = xs, fc_total = 0, fc_maps = Map.empty, fc_next = 0, fc_fds = 0\<rparr>"] that by simp
    from Cons(3,4) ne IH show ?case
      unfolding Cons(2) [symmetric] by (auto simp: erase_key_def)
  qed simp
  then show ?thesis
    using c' assms(2) without_entry_ok(5) [OF assms(1), of p]
    by (simp add: without_entry_def)
qed

theorem replacement_miscounts_witness:
  "\<exists>c c' g. get_file_mapping one_page 1 1 ''/a'' (page_stat 2 6) c = (Some g, c')
     \<and> fc_total c = 1 \<and> fc_total c' = 2 \<and> length (fc_files c) = 1 \<and> length (fc_files c') = 1"
proof -
  obtain f c where get: "get_file_mapping one_page 0 0 ''/a'' (page_stat 2 5) new_cache = (Some f, c)"
    and n: "fc_total c = 1" "length (fc_files c) = 1"
    by (simp add: get_file_mapping_def get_exclusive_def cache_hit_def find_file_def new_cache_def load_file_def
        one_page_def page_stat_def Let_def size_lim_def c_str_def)
  from get_file_mapping_entry [OF new_cache_inv get]
  have c: "cache_inv c" "find_file c ''/a'' = Some f" "cf_mtime f = 5" by (simp_all add: page_stat_def)
  obtain r c' where get': "get_file_mapping one_page 1 1 ''/a'' (page_stat 2 6) c = (r, c')" by fastforce
  obtain g where r: "r = Some g"
    using get' c load_file_cases [of one_page 1 "''/a''" "page_stat 2 6" "without_entry ''/a'' c"]
    by (auto simp: get_file_mapping_def get_exclusive_def cache_hit_def page_stat_def one_page_def
        without_entry_def load_file_def Let_def size_lim_def c_str_def split: prod.splits)
  from replacement_miscounts [OF c(1,2) _ get' [unfolded r]] c(3) n get' r show ?thesis
    by (auto simp: page_stat_def)
qed

text \<open>
  After such a replacement a late release hits the new entry. Two readers hold two versions of a
  file; when the first one releases, the count of the second one's mapping drops to zero, and the
  next clean-up unmaps it while it is being read.
\<close>

theorem late_release_frees_new_mapping:
  "\<exists>f c1 g c2. get_file_mapping one_page 0 0 ''/a'' (page_stat 2 5) new_cache = (Some f, c1)
     \<and> get_file_mapping one_page 1 1 ''/a'' (page_stat 2 6) c1 = (Some g, c2)
     \<and> fc_maps c2 (cf_data g) = Some ''hi''
     \<and> fc_maps (cleanup_cache 99000000000 60 (release_file_mapping ''/a'' c2)) (cf_data g) = None"
  by (simp add: get_file_mapping_def get_exclusive_def cache_hit_def find_file_def new_cache_def load_file_def
      one_page_def page_stat_def Let_def size_lim_def c_str_def erase_key_def unload_file_def
      release_file_mapping_def cleanup_cache_def at_key_def drop_ref_def idle_file_def secs_count_def)

end
