(* ===== verification/Http_Response.thy ===== *)
theory Http_Response
  imports Net_Buffer File_Cache
begin

text \<open>
  The HTTP response of \<open>src/http/response.cpp\<close> and \<open>include/http/response.h\<close>: the status is chosen
  from what \<open>stat\<close> says, the head is written into a \<open>Buffer\<close>, and the file is leased from the
  \<open>FileCache\<close>.
\<close>

section \<open>State\<close>

definition SUFFIX_TYPE :: "(string \<times> string) list" where
  "SUFFIX_TYPE =
    [(''.html'', ''text/html''), (''.xml'', ''text/xml''), (''.xhtml'', ''application/xhtml+xml''),
     (''.txt'', ''text/plain''), (''.rtf'', ''application/rtf''), (''.pdf'', ''application/pdf''),
     (''.word'', ''application/nsword''), (''.png'', ''image/png''), (''.gif'', ''image/gif''),
     (''.jpg'', ''image/jpeg''), (''.jpeg'', ''image/jpeg''), (''.au'', ''audio/basic''),
     (''.mpeg'', ''video/mpeg''), (''.mpg'', ''video/mpeg''), (''.avi'', ''video/x-msvideo''),
     (''.gz'', ''application/x-gzip''), (''.tar'', ''application/x-tar''), (''.css'', ''text/css ''),
     (''.js'', ''text/javascript '')]"

definition CODE_STATUS :: "(int \<times> string) list" where
  "CODE_STATUS = [(200, ''OK''), (400, ''Bad Request''), (403, ''Forbidden''), (404, ''Not Found'')]"

definition CODE_PATH :: "(int \<times> string) list" where
  "CODE_PATH = [(400, ''/400.html''), (403, ''/403.html''), (404, ''/404.html'')]"

text \<open>\<open>_file\<close> is the address of a mapping, \<open>None\<close> for the null pointer.\<close>

record response =
  rs_code :: int
  rs_keep_alive :: bool
  rs_path :: string
  rs_static_dir :: string
  rs_cached_path :: string
  rs_file :: "nat option"
  rs_stat :: file_stat

definition zero_stat :: file_stat where
  "zero_stat = \<lparr>st_size = 0, st_mode = 0, st_mtime = 0\<rparr>"

definition new_response :: response where
  "new_response = \<lparr>rs_code = -1, rs_keep_alive = False, rs_path = [], rs_static_dir = [],
     rs_cached_path = [], rs_file = None, rs_stat = zero_stat\<rparr>"

section \<open>Operations\<close>

text \<open>
  The defaulted move operations: the pointer and the numbers are copied, the strings of the source are left empty (as
  libstdc++ does; the standard leaves their value open).
\<close>

definition move_response :: "response \<Rightarrow> response \<times> response" where
  "move_response other = (other, other\<lparr>rs_path := [], rs_static_dir := [], rs_cached_path := []\<rparr>)"

text \<open>The release in \<open>UnmapFile\<close> goes through the cache, by path.\<close>

definition unmap_file :: "response \<times> file_cache \<Rightarrow> response \<times> file_cache" where
  "unmap_file s = (case s of (r, c) \<Rightarrow>
     (case rs_file r of
        None \<Rightarrow> (r, c)
      | Some a \<Rightarrow>
          (r\<lparr>rs_file := None, rs_cached_path := []\<rparr>,
           if rs_cached_path r \<noteq> [] then release_file_mapping (rs_cached_path r) c else c)))"

definition response_init ::
  "string \<Rightarrow> string \<Rightarrow> bool \<Rightarrow> int \<Rightarrow> response \<times> file_cache \<Rightarrow> (response \<times> file_cache) outcome" where
  "response_init static_dir path keep code s =
     cpp_assert (static_dir \<noteq> [])
       (Inr (case unmap_file s of (r, c) \<Rightarrow>
          (r\<lparr>rs_code := code, rs_keep_alive := keep, rs_path := path, rs_static_dir := static_dir,
             rs_file := None, rs_stat := zero_stat, rs_cached_path := []\<rparr>, c)))"

definition S_ISDIR :: "32 word \<Rightarrow> bool" where
  "S_ISDIR m \<longleftrightarrow> and m 0xF000 = 0x4000"

definition S_IROTH :: "32 word" where
  "S_IROTH = 4"

text \<open>\<open>stat((_staticDir + _path).data(), &_fileStat)\<close>: on failure the structure keeps its content.\<close>

definition stat_path :: "os_files \<Rightarrow> response \<Rightarrow> bool \<times> response" where
  "stat_path os r =
     (case fs_stat os (c_str (rs_static_dir r @ rs_path r)) of
        None \<Rightarrow> (False, r)
      | Some st \<Rightarrow> (True, r\<lparr>rs_stat := st\<rparr>))"

definition choose_code :: "os_files \<Rightarrow> response \<Rightarrow> response" where
  "choose_code os r =
     (let (ok, r1) = stat_path os r in
      if \<not> ok \<or> S_ISDIR (st_mode (rs_stat r1)) then r1\<lparr>rs_code := 404\<rparr>
      else if and (st_mode (rs_stat r1)) S_IROTH = 0 then r1\<lparr>rs_code := 403\<rparr>
      else if rs_code r1 = -1 then r1\<lparr>rs_code := 200\<rparr>
      else r1)"

definition error_html :: "os_files \<Rightarrow> response \<Rightarrow> response" where
  "error_html os r =
     (case map_of CODE_PATH (rs_code r) of
        None \<Rightarrow> r
      | Some p \<Rightarrow> snd (stat_path os (r\<lparr>rs_path := p\<rparr>)))"

definition get_file_type :: "response \<Rightarrow> string" where
  "get_file_type r =
     (if CHR ''.'' \<notin> set (rs_path r) then ''text/plain''
      else
        let suffix = CHR ''.'' # rev (takeWhile (\<lambda>ch. ch \<noteq> CHR ''.'') (rev (rs_path r))) in
        case map_of SUFFIX_TYPE suffix of None \<Rightarrow> ''text/plain'' | Some t \<Rightarrow> t)"

text \<open>
  The writing functions: the strings they append in order, and the response after them. Appending may
  throw; then the rest is skipped and the exception leaves \<open>MakeResponse\<close>.
\<close>

definition state_line :: "response \<Rightarrow> response \<times> string list" where
  "state_line r =
     (let r1 = (if map_of CODE_STATUS (rs_code r) = None then r\<lparr>rs_code := 400\<rparr> else r);
          status = the (map_of CODE_STATUS (rs_code r1))
      in (r1, [''HTTP/1.1 '' @ to_string_int (rs_code r1) @ '' '' @ status @ crlf]))"

definition header_lines :: "response \<Rightarrow> string list" where
  "header_lines r =
     ''Connection: '' #
     (if rs_keep_alive r then [''keep-alive'' @ crlf, ''keep-alive: max=6, timeout=120'' @ crlf]
      else [''close'' @ crlf])
     @ [''Content-type: '' @ get_file_type r @ crlf]"

definition error_body :: "response \<Rightarrow> string \<Rightarrow> string" where
  "error_body r message =
     (let status = (case map_of CODE_STATUS (rs_code r) of None \<Rightarrow> ''Bad Request'' | Some s \<Rightarrow> s)
      in ''<html><title>Error</title>'' @ ''<body bgcolor='' @ [CHR 0x22] @ ''ffffff'' @ [CHR 0x22] @ ''>''
         @ to_string_int (rs_code r) @ '' : '' @ status @ [CHR 0x0A]
         @ ''<p>'' @ message @ ''</p>'' @ ''<hr><em>TinyWebServer</em></body></html>'')"

definition error_content :: "response \<Rightarrow> string \<Rightarrow> string list" where
  "error_content r message =
     [''Content-length: '' @ to_string_int (int (length (error_body r message))) @ crlf @ crlf,
      error_body r message]"

definition content_lines ::
  "os_files \<Rightarrow> int \<Rightarrow> int \<Rightarrow> response \<times> file_cache \<Rightarrow> (response \<times> file_cache) \<times> string list" where
  "content_lines os now1 now2 s = (case s of (r, c) \<Rightarrow>
     let full = rs_static_dir r @ rs_path r; r1 = r\<lparr>rs_cached_path := full\<rparr> in
     if st_size (rs_stat r1) \<le> 0 then ((r1, c), [''Content-length: 0'' @ crlf @ crlf])
     else
       (case get_file_mapping os now1 now2 full (rs_stat r1) c of
          (None, c1) \<Rightarrow> ((r1, c1), error_content r1 ''File NotFound!'')
        | (Some f, c1) \<Rightarrow>
            ((r1\<lparr>rs_file := Some (cf_data f)\<rparr>, c1),
             [''Content-length: '' @ to_string_int (st_size (rs_stat r1)) @ crlf @ crlf])))"

type_synonym response_state = "response \<times> file_cache \<times> buffer"

definition put_lines :: "nat \<Rightarrow> string list \<Rightarrow> buffer \<Rightarrow> fault option \<times> buffer" where
  "put_lines mem ss b = append_seq (append_bytes mem) b ss"

text \<open>\<open>MakeResponse\<close>: the exception that left it, if any, and the state.\<close>

definition make_response ::
  "nat \<Rightarrow> os_files \<Rightarrow> int \<Rightarrow> int \<Rightarrow> response_state \<Rightarrow> fault option \<times> response_state" where
  "make_response mem os now1 now2 s = (case s of (r, c, b) \<Rightarrow>
     let (r1, line) = state_line (error_html os (choose_code os r)) in
     case put_lines mem line b of
       (Some e, b1) \<Rightarrow> (Some e, r1, c, b1)
     | (None, b1) \<Rightarrow>
         (case put_lines mem (header_lines r1) b1 of
            (Some e, b2) \<Rightarrow> (Some e, r1, c, b2)
          | (None, b2) \<Rightarrow>
              let ((r2, c2), ls) = content_lines os now1 now2 (r1, c);
                  (e, b3) = put_lines mem ls b2
              in (e, r2, c2, b3)))"

definition file_len :: "response \<Rightarrow> nat" where
  "file_len r = nat (st_size (rs_stat r) mod int size_lim)"

section \<open>What a response says\<close>

text \<open>
  The specification of the head: the code from the request's code and what \<open>stat\<close> said, the page that
  is sent for it, and the lines.
\<close>

definition status_for :: "file_stat option \<Rightarrow> int \<Rightarrow> int" where
  "status_for st code =
     (case st of
        None \<Rightarrow> 404
      | Some st \<Rightarrow>
          if S_ISDIR (st_mode st) then 404
          else if and (st_mode st) S_IROTH = 0 then 403
          else if code = -1 then 200 else code)"

definition page_for :: "int \<Rightarrow> string \<Rightarrow> string" where
  "page_for code path = (case map_of CODE_PATH code of None \<Rightarrow> path | Some p \<Rightarrow> p)"

definition head_text :: "int \<Rightarrow> bool \<Rightarrow> string \<Rightarrow> int \<Rightarrow> string" where
  "head_text code keep ctype len =
     ''HTTP/1.1 '' @ to_string_int code @ '' '' @ the (map_of CODE_STATUS code) @ crlf
     @ ''Connection: '' @ (if keep then ''keep-alive'' @ crlf @ ''keep-alive: max=6, timeout=120'' @ crlf
                           else ''close'' @ crlf)
     @ ''Content-type: '' @ ctype @ crlf
     @ ''Content-length: '' @ to_string_int len @ crlf @ crlf"

lemma choose_code_simps:
  "rs_code (choose_code os r) = status_for (fs_stat os (c_str (rs_static_dir r @ rs_path r))) (rs_code r)"
  "rs_path (choose_code os r) = rs_path r" "rs_static_dir (choose_code os r) = rs_static_dir r"
  "rs_keep_alive (choose_code os r) = rs_keep_alive r" "rs_file (choose_code os r) = rs_file r"
  "rs_stat (choose_code os r) = (case fs_stat os (c_str (rs_static_dir r @ rs_path r)) of
      None \<Rightarrow> rs_stat r | Some st \<Rightarrow> st)"
  by (simp_all add: choose_code_def stat_path_def status_for_def Let_def split: option.split)

lemma error_html_simps:
  "rs_code (error_html os r) = rs_code r" "rs_static_dir (error_html os r) = rs_static_dir r"
  "rs_path (error_html os r) = page_for (rs_code r) (rs_path r)"
  "rs_keep_alive (error_html os r) = rs_keep_alive r" "rs_file (error_html os r) = rs_file r"
  "rs_stat (error_html os r) = (case map_of CODE_PATH (rs_code r) of
      None \<Rightarrow> rs_stat r
    | Some p \<Rightarrow> (case fs_stat os (c_str (rs_static_dir r @ p)) of None \<Rightarrow> rs_stat r | Some st \<Rightarrow> st))"
  by (simp_all add: error_html_def stat_path_def page_for_def split: option.split)

lemma status_for_known:
  "code \<in> {-1, 200, 400, 403, 404} \<Longrightarrow> status_for st code \<in> {200, 400, 403, 404}"
  by (auto simp: status_for_def split: option.split)

lemma dec_nat_length: "length (dec_nat n) \<le> Suc n"
proof (induction n rule: dec_nat.induct)
  case (1 n)
  then show ?case
    by (subst dec_nat.simps) (auto intro: le_trans)
qed

lemma to_string_int_length: "length (to_string_int i) \<le> nat \<bar>i\<bar> + 2"
  using dec_nat_length [of "nat i"] dec_nat_length [of "nat (- i)"] by (auto simp: to_string_int_def)

lemma put_lines_ok:
  assumes "buf_inv b" "\<forall>s \<in> set ss. length s < size_lim - 1" "put_lines mem ss b = (None, b')"
  shows "buf_inv b' \<and> content b' = content b @ concat ss"
  using net_buffer.append_seq_ok [OF assms(1,2)] assms(3) by (simp add: put_lines_def)

lemma put_lines_throws:
  assumes "buf_inv b" "\<forall>s \<in> set ss. length s < size_lim - 1" "put_lines mem ss b = (Some e, b')"
  shows "buf_inv b' \<and> catchable e"
  using net_buffer.append_seq_prefix [OF assms(1,2)] assms(3) unfolding put_lines_def by blast

definition short_lines :: "string list \<Rightarrow> bool" where
  "short_lines ss \<longleftrightarrow> (\<forall>s \<in> set ss. length s < size_lim - 1)"

lemma file_type_short: "length (get_file_type r) \<le> 21"
proof -
  have "length t \<le> 21" if "map_of SUFFIX_TYPE s = Some t" for s t
    using map_of_SomeD [OF that] by (auto simp: SUFFIX_TYPE_def)
  then show ?thesis
    by (auto simp: get_file_type_def Let_def split: option.split)
qed

lemma status_short: "map_of CODE_STATUS code = Some s \<Longrightarrow> length s \<le> 11"
  by (drule map_of_SomeD) (auto simp: CODE_STATUS_def)

lemma header_lines_short: "short_lines (header_lines r)"
  using file_type_short [of r] by (auto simp: short_lines_def header_lines_def size_lim_def crlf_def)

lemma known_code: "code \<in> {200, 400, 403, 404} \<Longrightarrow> \<exists>s. map_of CODE_STATUS code = Some s"
  by (auto simp: CODE_STATUS_def)

lemma state_line_known:
  assumes "rs_code r \<in> {200, 400, 403, 404}"
  shows "fst (state_line r) = r"
    and "snd (state_line r) = [''HTTP/1.1 '' @ to_string_int (rs_code r) @ '' ''
           @ the (map_of CODE_STATUS (rs_code r)) @ crlf]"
    and "short_lines (snd (state_line r))"
proof -
  obtain s where s: "map_of CODE_STATUS (rs_code r) = Some s"
    using known_code [OF assms] by blast
  then show "fst (state_line r) = r"
    and eq: "snd (state_line r) = [''HTTP/1.1 '' @ to_string_int (rs_code r) @ '' ''
           @ the (map_of CODE_STATUS (rs_code r)) @ crlf]"
    by (simp_all add: state_line_def)
  have "length (to_string_int (rs_code r)) \<le> 406"
    using to_string_int_length [of "rs_code r"] assms by auto
  then show "short_lines (snd (state_line r))"
    unfolding eq short_lines_def using status_short [OF s] s by (simp add: size_lim_def crlf_def)
qed

lemma error_body_short:
  assumes "rs_code r \<in> {200, 400, 403, 404}"
  shows "length (error_body r ''File NotFound!'') \<le> 1000"
proof -
  obtain s where s: "map_of CODE_STATUS (rs_code r) = Some s"
    using known_code [OF assms] by blast
  have "length (to_string_int (rs_code r)) \<le> 406"
    using to_string_int_length [of "rs_code r"] assms by auto
  with status_short [OF s] s show ?thesis by (simp add: error_body_def)
qed

lemma content_lines_short:
  assumes "rs_code r \<in> {200, 400, 403, 404}" "st_size (rs_stat r) < 2 ^ 63"
  shows "short_lines (snd (content_lines os n1 n2 (r, c)))"
proof -
  let ?r1 = "r\<lparr>rs_cached_path := rs_static_dir r @ rs_path r\<rparr>"
  let ?body = "error_body ?r1 ''File NotFound!''"
  have body: "length ?body \<le> 1000" using assms(1) by (intro error_body_short) simp
  have "length (to_string_int (int (length ?body))) \<le> 1002"
    using to_string_int_length [of "int (length ?body)"] body by simp
  then have 1: "short_lines (error_content ?r1 ''File NotFound!'')"
    using body by (simp add: short_lines_def error_content_def size_lim_def crlf_def)
  have 2: "short_lines [''Content-length: '' @ to_string_int (st_size (rs_stat r)) @ crlf @ crlf]"
    if "0 < st_size (rs_stat r)"
    using to_string_int_length [of "st_size (rs_stat r)"] that assms(2)
    by (simp add: short_lines_def size_lim_def crlf_def)
  show ?thesis
    using 1 2 by (auto simp: content_lines_def Let_def short_lines_def size_lim_def crlf_def
        split: option.split prod.split)
qed

lemma header_lines_text:
  "concat (header_lines r) = ''Connection: '' @
     (if rs_keep_alive r then ''keep-alive'' @ crlf @ ''keep-alive: max=6, timeout=120'' @ crlf
      else ''close'' @ crlf) @ ''Content-type: '' @ get_file_type r @ crlf"
  by (simp add: header_lines_def)

lemma make_response_cases:
  fixes os :: os_files and r :: response
  assumes b: "buf_inv b" and code: "rs_code r \<in> {-1, 200, 400, 403, 404}"
  defines "r1 \<equiv> error_html os (choose_code os r)"
  assumes size: "st_size (rs_stat r1) < 2 ^ 63"
    and run: "make_response mem os n1 n2 (r, c, b) = (res, r', c', b')"
  shows "buf_inv b' \<and> (case res of
           Some e \<Rightarrow> catchable e
         | None \<Rightarrow> (r', c') = fst (content_lines os n1 n2 (r1, c))
             \<and> content b' = content b @ concat (snd (state_line r1)) @ concat (header_lines r1)
                 @ concat (snd (content_lines os n1 n2 (r1, c))))"
proof -
  have code1: "rs_code r1 \<in> {200, 400, 403, 404}"
    unfolding r1_def error_html_simps choose_code_simps by (rule status_for_known [OF code])
  note line = state_line_known [OF code1]
  note short = line(3) header_lines_short [of r1] content_lines_short [OF code1 size, of os n1 n2 c]
  obtain e1 b1 where p1: "put_lines mem (snd (state_line r1)) b = (e1, b1)" by fastforce
  obtain e2 b2 where p2: "put_lines mem (header_lines r1) b1 = (e2, b2)" by fastforce
  obtain e3 b3 where p3: "put_lines mem (snd (content_lines os n1 n2 (r1, c))) b2 = (e3, b3)" by fastforce
  obtain s where sl: "state_line r1 = (r1, s)" using line(1) by (metis prod.collapse)
  have run': "(res, r', c', b') =
     (case e1 of Some e \<Rightarrow> (Some e, r1, c, b1)
      | None \<Rightarrow> (case e2 of Some e \<Rightarrow> (Some e, r1, c, b2)
         | None \<Rightarrow> (e3, fst (fst (content_lines os n1 n2 (r1, c))), snd (fst (content_lines os n1 n2 (r1, c))), b3)))"
    using run p1 p2 p3 sl
    by (auto simp: make_response_def r1_def [symmetric] Let_def case_prod_beta split: option.splits)
  show ?thesis
  proof (cases e1)
    case (Some e)
    with put_lines_throws [OF b short(1) [unfolded short_lines_def], of mem e b1] p1 run' show ?thesis by simp
  next
    case None
    with put_lines_ok [OF b short(1) [unfolded short_lines_def], of mem b1] p1
    have b1: "buf_inv b1" "content b1 = content b @ concat (snd (state_line r1))" by auto
    show ?thesis
    proof (cases e2)
      case (Some e)
      with put_lines_throws [OF b1(1) short(2) [unfolded short_lines_def], of mem e b2] p2 run' None
      show ?thesis by simp
    next
      case e2: None
      with put_lines_ok [OF b1(1) short(2) [unfolded short_lines_def], of mem b2] p2
      have b2: "buf_inv b2" "content b2 = content b1 @ concat (header_lines r1)" by auto
      show ?thesis
      proof (cases e3)
        case (Some e)
        with put_lines_throws [OF b2(1) short(3) [unfolded short_lines_def], of mem e b3] p3 run' None e2
        show ?thesis by simp
      next
        case e3: None
        with put_lines_ok [OF b2(1) short(3) [unfolded short_lines_def], of mem b3] p3 run' None e2 b1 b2
        show ?thesis by simp
      qed
    qed
  qed
qed


section \<open>Properties of the response\<close>

text \<open>The structure that \<open>stat\<close> left when the content is sent: of the error page if there is one.\<close>

definition final_stat :: "os_files \<Rightarrow> response \<Rightarrow> file_stat" where
  "final_stat os r =
     (let first = fs_stat os (c_str (rs_static_dir r @ rs_path r));
          st = (case first of None \<Rightarrow> rs_stat r | Some st \<Rightarrow> st)
      in case map_of CODE_PATH (status_for first (rs_code r)) of
           None \<Rightarrow> st
         | Some p \<Rightarrow> (case fs_stat os (c_str (rs_static_dir r @ p)) of None \<Rightarrow> st | Some st' \<Rightarrow> st'))"

lemma final_stat_eq: "rs_stat (error_html os (choose_code os r)) = final_stat os r"
  by (simp add: error_html_simps choose_code_simps final_stat_def Let_def split: option.split)

lemma make_response_wire:
  assumes "buf_inv b" "rs_code r \<in> {-1, 200, 400, 403, 404}" "st_size (final_stat os r) < 2 ^ 63"
    and "make_response mem os n1 n2 (r, c, b) = (None, r', c', b')"
    and "code = status_for (fs_stat os (c_str (rs_static_dir r @ rs_path r))) (rs_code r)"
    and "page = page_for code (rs_path r)" "st = final_stat os r"
    and "head = head_text code (rs_keep_alive r) (get_file_type (r\<lparr>rs_path := page\<rparr>))"
    and "body = error_body (r\<lparr>rs_code := code\<rparr>) ''File NotFound!''"
  shows "rs_code r' = code \<and> rs_path r' = page \<and> rs_stat r' = st
     \<and> (if st_size st \<le> 0 then content b' = content b @ head 0 \<and> c' = c \<and> rs_file r' = rs_file r
        else case get_file_mapping os n1 n2 (rs_static_dir r @ page) st c of
          (Some f, c1) \<Rightarrow> content b' = content b @ head (st_size st) \<and> c' = c1 \<and> rs_file r' = Some (cf_data f)
        | (None, c1) \<Rightarrow> content b' = content b @ head (int (length body)) @ body \<and> c' = c1
                          \<and> rs_file r' = rs_file r)"
proof -
  let ?r1 = "error_html os (choose_code os r)"
  have r1: "rs_code ?r1 = code" "rs_path ?r1 = page" "rs_stat ?r1 = st"
    "rs_static_dir ?r1 = rs_static_dir r" "rs_keep_alive ?r1 = rs_keep_alive r" "rs_file ?r1 = rs_file r"
    using assms(5-7) by (simp_all add: final_stat_eq) (simp_all add: error_html_simps choose_code_simps)
  have code: "code \<in> {200, 400, 403, 404}"
    unfolding assms(5) by (rule status_for_known [OF assms(2)])
  have "st_size (rs_stat ?r1) < 2 ^ 63" using assms(3) by (simp add: final_stat_eq)
  from make_response_cases [OF assms(1,2) this assms(4)]
  have fin: "(r', c') = fst (content_lines os n1 n2 (?r1, c))"
    and text_eq: "content b' = content b @ concat (snd (state_line ?r1)) @ concat (header_lines ?r1)
                 @ concat (snd (content_lines os n1 n2 (?r1, c)))" by simp_all
  have line: "concat (snd (state_line ?r1)) = ''HTTP/1.1 '' @ to_string_int code @ '' ''
                 @ the (map_of CODE_STATUS code) @ crlf"
    using state_line_known(2) [of ?r1] code r1(1) by simp
  have ctype: "get_file_type ?r1 = get_file_type (r\<lparr>rs_path := page\<rparr>)"
    using r1(2) by (simp add: get_file_type_def)
  have hd: "concat (snd (state_line ?r1)) @ concat (header_lines ?r1)
      @ ''Content-length: '' @ to_string_int n @ crlf @ crlf = head n" for n
    unfolding line header_lines_text ctype r1(5) assms(8) head_text_def by simp
  have zero: "to_string_int 0 = ''0''"
    by (simp add: to_string_int_def dec_nat.simps digit_char_def) code_simp
  have body: "error_body (?r1\<lparr>rs_cached_path := rs_static_dir r @ page\<rparr>) ''File NotFound!'' = body"
    using r1(1) by (simp add: assms(9) error_body_def)
  show ?thesis
  proof (cases "st_size st \<le> 0")
    case True
    then have "content_lines os n1 n2 (?r1, c)
        = ((?r1\<lparr>rs_cached_path := rs_static_dir r @ page\<rparr>, c), [''Content-length: 0'' @ crlf @ crlf])"
      using r1 by (simp add: content_lines_def Let_def)
    with fin text_eq hd [of 0] zero True r1 show ?thesis by simp
  next
    case False
    obtain res c1 where get: "get_file_mapping os n1 n2 (rs_static_dir r @ page) st c = (res, c1)" by fastforce
    show ?thesis
    proof (cases res)
      case None
      then have "content_lines os n1 n2 (?r1, c)
        = ((?r1\<lparr>rs_cached_path := rs_static_dir r @ page\<rparr>, c1),
           [''Content-length: '' @ to_string_int (int (length body)) @ crlf @ crlf, body])"
        using r1 get False body by (simp add: content_lines_def Let_def error_content_def)
      with fin text_eq hd [of "int (length body)"] False r1 get None show ?thesis by simp
    next
      case (Some f)
      then have "content_lines os n1 n2 (?r1, c)
        = ((?r1\<lparr>rs_cached_path := rs_static_dir r @ page, rs_file := Some (cf_data f)\<rparr>, c1),
           [''Content-length: '' @ to_string_int (st_size st) @ crlf @ crlf])"
        using r1 get False by (simp add: content_lines_def Let_def)
      with fin text_eq hd [of "st_size st"] False r1 get Some show ?thesis by simp
    qed
  qed
qed

text \<open>
  C23: what \<open>MakeResponse\<close> puts on the wire. When it does not throw, the buffer gains exactly the head
  for the status that \<open>stat\<close> demands (404 for a missing file or a directory, 403 for one that
  others may not read), the connection line of the request and the type of the page that
  is sent; the length is the file's, the file is leased from the cache and its address
  kept; an empty file or page gives length 0 and no lease; and when the file cannot be mapped the
  error body follows, with its own length.
\<close>

theorem make_response_on_wire:
  assumes "buf_inv b" "rs_code r \<in> {-1, 200, 400, 403, 404}" "st_size (final_stat os r) < 2 ^ 63"
    and "make_response mem os n1 n2 (r, c, b) = (None, r', c', b')"
    and "code = status_for (fs_stat os (c_str (rs_static_dir r @ rs_path r))) (rs_code r)"
    and "page = page_for code (rs_path r)" "st = final_stat os r"
    and "head = head_text code (rs_keep_alive r) (get_file_type (r\<lparr>rs_path := page\<rparr>))"
    and "body = error_body (r\<lparr>rs_code := code\<rparr>) ''File NotFound!''"
  shows "rs_code r' = code \<and> rs_path r' = page \<and> rs_stat r' = st
     \<and> (if st_size st \<le> 0 then content b' = content b @ head 0 \<and> c' = c \<and> rs_file r' = rs_file r
        else case get_file_mapping os n1 n2 (rs_static_dir r @ page) st c of
          (Some f, c1) \<Rightarrow> content b' = content b @ head (st_size st) \<and> c' = c1 \<and> rs_file r' = Some (cf_data f)
        | (None, c1) \<Rightarrow> content b' = content b @ head (int (length body)) @ body \<and> c' = c1
                          \<and> rs_file r' = rs_file r)"
  by (rule make_response_wire [OF assms])

text \<open>A site with one page, \<open>/a\<close>, below \<open>/s\<close>; the site's root and \<open>/s\<close> itself are directories.\<close>

definition one_site :: os_files where
  "one_site = \<lparr>fs_stat = (\<lambda>p. if p = ''/s/a'' then Some \<lparr>st_size = 2, st_mode = 0x81A4, st_mtime = 5\<rparr>
                   else if p = ''/s'' then Some \<lparr>st_size = 4096, st_mode = 0x41ED, st_mtime = 5\<rparr> else None),
     fs_open = (\<lambda>p. p = ''/s/a''), fs_mmap = (\<lambda>p n. if n = 2 then Some ''hi'' else None)\<rparr>"

definition request_for :: "string \<Rightarrow> int \<Rightarrow> response" where
  "request_for path code = new_response\<lparr>rs_code := code, rs_path := path, rs_static_dir := ''/s''\<rparr>"

text \<open>A buffer with room for \<open>n\<close> bytes.\<close>

definition roomy :: "nat \<Rightarrow> buffer" where
  "roomy n = \<lparr>buf_data = replicate n nul, read_pos = 0, write_pos = 0\<rparr>"

lemma roomy_facts [simp]:
  "n \<le> vec_max \<Longrightarrow> buf_inv (roomy n)" "content (roomy n) = []"
  "length (buf_data (roomy n)) = n" "write_pos (roomy n) = 0"
  by (simp_all add: buf_inv_def roomy_def content_def)

lemma append_in_place:
  assumes "buf_inv b" "write_pos b + length s \<le> length (buf_data b)"
  shows "\<exists>b'. append_bytes mem b s = Inr b' \<and> buf_inv b' \<and> write_pos b' = write_pos b + length s
     \<and> length (buf_data b') = length (buf_data b)"
proof -
  have len: "length s < size_lim - 1"
    using assms vec_max_double by (auto simp: buf_inv_def)
  have "ensure_writable mem b (length s) = Inr b"
    using assms by (auto simp: ensure_writable_def writable_bytes_diff)
  then have eq: "append_bytes mem b s = Inr (b\<lparr>buf_data := take (write_pos b) (buf_data b) @ s
                        @ drop (write_pos b + length s) (buf_data b),
                     write_pos := write_pos b + length s\<rparr>)"
    using append_bytes_eq [OF assms(1) len, of mem] by simp
  with append_bytes_ok [OF assms(1) len eq] assms(2) show ?thesis by simp
qed

lemma put_lines_in_place:
  assumes "buf_inv b" "write_pos b + length (concat ss) \<le> length (buf_data b)"
  shows "\<exists>b'. put_lines mem ss b = (None, b') \<and> buf_inv b' \<and> write_pos b' = write_pos b + length (concat ss)
     \<and> length (buf_data b') = length (buf_data b)"
  using assms
proof (induction ss arbitrary: b)
  case (Cons s ss)
  then obtain b1 where b1: "append_bytes mem b s = Inr b1" "buf_inv b1" "write_pos b1 = write_pos b + length s"
     "length (buf_data b1) = length (buf_data b)"
    using append_in_place [of b s mem] by auto
  with Cons.IH [of b1] Cons.prems show ?case
    by (auto simp: put_lines_def)
qed (simp add: put_lines_def)

lemma make_response_in_place:
  fixes os :: os_files and r :: response
  assumes "buf_inv b" "rs_code r \<in> {-1, 200, 400, 403, 404}"
  defines "r1 \<equiv> error_html os (choose_code os r)"
  assumes "write_pos b + length (concat (snd (state_line r1) @ header_lines r1
             @ snd (content_lines os n1 n2 (r1, c)))) \<le> length (buf_data b)"
  shows "\<exists>r' c' b'. make_response mem os n1 n2 (r, c, b) = (None, r', c', b')"
proof -
  have "rs_code r1 \<in> {200, 400, 403, 404}"
    unfolding r1_def error_html_simps choose_code_simps by (rule status_for_known [OF assms(2)])
  from state_line_known(1) [OF this] obtain s where sl: "state_line r1 = (r1, s)" by (metis prod.collapse)
  obtain b1 where b1: "put_lines mem s b = (None, b1)" "buf_inv b1" "write_pos b1 = write_pos b + length (concat s)"
     "length (buf_data b1) = length (buf_data b)"
    using put_lines_in_place [OF assms(1), of s mem] assms(4) sl by auto
  obtain b2 where b2: "put_lines mem (header_lines r1) b1 = (None, b2)" "buf_inv b2"
     "write_pos b2 = write_pos b1 + length (concat (header_lines r1))" "length (buf_data b2) = length (buf_data b)"
    using put_lines_in_place [OF b1(2), of "header_lines r1" mem] b1 assms(4) sl by auto
  obtain b3 where "put_lines mem (snd (content_lines os n1 n2 (r1, c))) b2 = (None, b3)"
    using put_lines_in_place [OF b2(2), of "snd (content_lines os n1 n2 (r1, c))" mem] b1 b2 assms(4) sl by auto
  with b1(1) b2(1) sl show ?thesis
    by (auto simp: make_response_def r1_def [symmetric] Let_def case_prod_beta)
qed


lemma make_response_on_wire_example:
  "\<exists>r' c' b'. make_response 0 one_site 0 0 (request_for ''/a'' 200, new_cache, roomy 500) = (None, r', c', b')"
proof (rule make_response_in_place)
  show "buf_inv (roomy 500)" by (simp add: vec_max_def)
qed (simp_all add: request_for_def new_response_def one_site_def c_str_def choose_code_def stat_path_def
    error_html_def state_line_def header_lines_def content_lines_def get_file_mapping_def get_exclusive_def
    cache_hit_def find_file_def new_cache_def load_file_def size_lim_def S_ISDIR_def S_IROTH_def CODE_PATH_def
    CODE_STATUS_def get_file_type_def crlf_def Let_def to_string_int_def dec_nat.simps)

theorem make_response_on_wire_witness:
  "\<exists>r' c' b' f. make_response 0 one_site 0 0 (request_for ''/a'' 200, new_cache, roomy 500) = (None, r', c', b')
     \<and> content b' = head_text 200 False ''text/plain'' 2 \<and> rs_file r' = Some 1 \<and> fc_maps c' 1 = Some ''hi''"
proof -
  obtain r' c' b' where run: "make_response 0 one_site 0 0 (request_for ''/a'' 200, new_cache, roomy 500) = (None, r', c', b')"
    using make_response_on_wire_example by blast
  have st: "fs_stat one_site (c_str (rs_static_dir (request_for ''/a'' 200) @ rs_path (request_for ''/a'' 200)))
      = Some \<lparr>st_size = 2, st_mode = 0x81A4, st_mtime = 5\<rparr>"
    by (simp add: one_site_def request_for_def c_str_def)
  have code: "status_for (Some \<lparr>st_size = 2, st_mode = 0x81A4, st_mtime = 5\<rparr>) (rs_code (request_for ''/a'' 200)) = 200"
    by (simp add: status_for_def S_ISDIR_def S_IROTH_def request_for_def)
  have fin: "final_stat one_site (request_for ''/a'' 200) = \<lparr>st_size = 2, st_mode = 0x81A4, st_mtime = 5\<rparr>"
    unfolding final_stat_def Let_def st code by (simp add: CODE_PATH_def)
  have page: "page_for 200 (rs_path (request_for ''/a'' 200)) = ''/a''"
    by (simp add: page_for_def CODE_PATH_def request_for_def)
  obtain f c1 where get: "get_file_mapping one_site 0 0 (rs_static_dir (request_for ''/a'' 200) @ ''/a'')
      \<lparr>st_size = 2, st_mode = 0x81A4, st_mtime = 5\<rparr> new_cache = (Some f, c1)"
    and f: "cf_data f = 1" "fc_maps c1 1 = Some ''hi''"
    by (simp add: get_file_mapping_def get_exclusive_def cache_hit_def find_file_def new_cache_def load_file_def
        one_site_def request_for_def Let_def size_lim_def c_str_def)
  have wire: "content b' = head_text 200 False ''text/plain'' 2 \<and> c' = c1 \<and> rs_file r' = Some (cf_data f)"
    using make_response_on_wire [OF _ _ _ run refl refl refl refl refl, unfolded st code fin page get]
    by (simp add: vec_max_def request_for_def get_file_type_def new_response_def)
  with run f show ?thesis by auto
qed

text \<open>
  A malformed request is answered with 404 instead of 400. The parser leaves the path empty, so the
  file that is looked for is the static directory itself, and the check for a directory comes first.
\<close>

theorem bad_request_answered_404:
  assumes "static_dir \<noteq> []" "response_init static_dir [] False 400 (r, c) = Inr (r0, c0)"
    and "fs_stat os (c_str static_dir) = Some st" "S_ISDIR (st_mode st)"
    and "make_response mem os n1 n2 (r0, c0, b) = (res, r', c', b')"
  shows "rs_code r' = 404 \<and> rs_path r' = ''/404.html''"
proof -
  have r0: "rs_code r0 = 400" "rs_path r0 = []" "rs_static_dir r0 = static_dir"
    using assms(1,2) by (auto simp: response_init_def split: prod.splits)
  let ?r1 = "error_html os (choose_code os r0)"
  have code: "rs_code ?r1 = 404"
    using assms(3,4) r0 by (simp add: error_html_simps choose_code_simps status_for_def)
  moreover have "rs_path ?r1 = ''/404.html''"
    using assms(3,4) r0 by (simp add: error_html_simps choose_code_simps status_for_def page_for_def CODE_PATH_def)
  moreover have "fst (state_line ?r1) = ?r1"
    using code by (intro state_line_known(1)) simp
  moreover have "rs_code r' = rs_code (fst (state_line ?r1)) \<and> rs_path r' = rs_path (fst (state_line ?r1))"
    using assms(5) by (auto simp: make_response_def content_lines_def Let_def split: prod.splits option.splits if_splits)
  ultimately show ?thesis by simp
qed

theorem bad_request_answered_404_witness:
  "\<exists>r0 c0 res r' c' b'. response_init ''/s'' [] False 400 (new_response, new_cache) = Inr (r0, c0)
     \<and> make_response 0 one_site 0 0 (r0, c0, roomy 500) = (res, r', c', b') \<and> rs_code r' = 404"
proof -
  obtain r0 c0 where i: "response_init ''/s'' [] False 400 (new_response, new_cache) = Inr (r0, c0)"
    by (simp add: response_init_def unmap_file_def new_response_def)
  obtain res r' c' b' where run: "make_response 0 one_site 0 0 (r0, c0, roomy 500) = (res, r', c', b')"
    by (metis surj_pair)
  have "fs_stat one_site (c_str ''/s'') = Some \<lparr>st_size = 4096, st_mode = 0x41ED, st_mtime = 5\<rparr>"
    by (simp add: one_site_def c_str_def)
  from bad_request_answered_404 [OF _ i this _ run] i run show ?thesis
    by (auto simp: S_ISDIR_def)
qed

lemma make_response_content:
  assumes "make_response mem os n1 n2 (r, c, b) = (None, r', c', b')"
  shows "\<exists>r1. (r', c') = fst (content_lines os n1 n2 (r1, c)) \<and> rs_file r1 = rs_file r
     \<and> rs_static_dir r1 = rs_static_dir r"
proof -
  let ?r1 = "fst (state_line (error_html os (choose_code os r)))"
  have "(r', c') = fst (content_lines os n1 n2 (?r1, c))"
    using assms by (auto simp: make_response_def Let_def split: prod.splits option.splits)
  moreover have "rs_file ?r1 = rs_file r" "rs_static_dir ?r1 = rs_static_dir r"
    by (simp_all add: state_line_def Let_def error_html_simps choose_code_simps)
  ultimately show ?thesis by blast
qed

text \<open>
  A response gives back what it took. If the file of a response was leased by \<open>MakeResponse\<close> and the
  cache entry was there before with a count that does not wrap, \<open>UnmapFile\<close> restores the reference count; the mapping stays.
\<close>

theorem unmap_restores_count:
  assumes "cache_inv c" "rs_file r = None" "rs_static_dir r \<noteq> []"
    and "make_response mem os n1 n2 (r, c, b) = (None, r', c', b')"
    and "rs_file r' \<noteq> None" "find_file c (rs_cached_path r') = Some f" "cf_mtime f = st_mtime (rs_stat r')"
    and "unmap_file (r', c') = (r'', c'')" "0 \<le> cf_refs f" "cf_refs f < int int_max"
  shows "rs_file r'' = None \<and> map_option cf_refs (find_file c'' (rs_cached_path r')) = Some (cf_refs f)
     \<and> (\<exists>s. fc_maps c'' (cf_data f) = Some s)"
proof -
  obtain r1 where r1: "(r', c') = fst (content_lines os n1 n2 (r1, c))" "rs_file r1 = None"
    "rs_static_dir r1 \<noteq> []"
    using make_response_content [OF assms(4)] assms(2,3) by auto
  let ?full = "rs_static_dir r1 @ rs_path r1"
  obtain g c1 where get: "get_file_mapping os n1 n2 ?full (rs_stat r1) c = (Some g, c1)"
    and r': "r' = r1\<lparr>rs_cached_path := ?full, rs_file := Some (cf_data g)\<rparr>" "c' = c1"
    using r1 assms(5) by (auto simp: content_lines_def Let_def split: if_splits prod.splits option.splits)
  have f: "find_file c ?full = Some f" "cf_mtime f = st_mtime (rs_stat r1)"
    using assms(6,7) r' by simp_all
  then have hit: "cache_hit n1 ?full (rs_stat r1) c = Some (g, c1)" and g: "g = add_ref n1 f"
    using get by (auto simp: get_file_mapping_def cache_hit_def)
  note H = cache_hit_ok [OF assms(1) hit]
  have ne: "?full \<noteq> []" using r1(3) by simp
  have c'': "c'' = release_file_mapping ?full c1" "rs_file r'' = None"
    using assms(8) r' ne by (auto simp: unmap_file_def)
  have "map_option cf_refs (find_file c'' ?full) = Some (cf_refs f)"
    unfolding c'' release_ok(2) [OF H(1)] H(3) g using assms(9,10) by (simp add: drop_ref_def add_ref_def size_simps)
  moreover have "\<exists>s. fc_maps c'' (cf_data f) = Some s"
    unfolding c'' release_ok(3) [OF H(1)] H(4) by (rule entry_live [OF assms(1) f(1)])
  ultimately show ?thesis using c''(2) r' by simp
qed

theorem unmap_restores_count_witness:
  "\<exists>f c r' c' b' r'' c''. get_file_mapping one_site 0 0 ''/s/a'' (page_stat 2 5) new_cache = (Some f, c)
     \<and> make_response 0 one_site 7 7 (request_for ''/a'' 200, c, roomy 500) = (None, r', c', b')
     \<and> rs_file r' = Some (cf_data f) \<and> unmap_file (r', c') = (r'', c'')
     \<and> map_option cf_refs (find_file c'' ''/s/a'') = Some (cf_refs f)"
proof -
  let ?b = "roomy 500" and ?r = "request_for ''/a'' 200"
  obtain f c where get: "get_file_mapping one_site 0 0 ''/s/a'' (page_stat 2 5) new_cache = (Some f, c)" and one: "cf_refs f = 1"
    by (simp add: get_file_mapping_def get_exclusive_def cache_hit_def find_file_def new_cache_def load_file_def
        one_site_def page_stat_def Let_def size_lim_def c_str_def)
  from get_file_mapping_entry [OF new_cache_inv get]
  have c: "cache_inv c" "find_file c ''/s/a'' = Some f" "cf_mtime f = 5" by (simp_all add: page_stat_def)
  let ?g = "add_ref 7 f"
  have hit: "get_file_mapping one_site 7 7 ''/s/a'' \<lparr>st_size = 2, st_mode = 0x81A4, st_mtime = 5\<rparr> c
      = (Some ?g, c\<lparr>fc_files := at_key ''/s/a'' (add_ref 7) (fc_files c)\<rparr>)"
    using c by (simp add: get_file_mapping_def cache_hit_def)
  let ?r1 = "error_html one_site (choose_code one_site ?r)"
  have r1: "?r1 = ?r\<lparr>rs_stat := \<lparr>st_size = 2, st_mode = 0x81A4, st_mtime = 5\<rparr>\<rparr>"
    by (simp add: request_for_def new_response_def one_site_def c_str_def choose_code_def stat_path_def
        error_html_def S_ISDIR_def S_IROTH_def CODE_PATH_def)
  have cont: "content_lines one_site 7 7 (?r1, c) = ((?r1\<lparr>rs_cached_path := ''/s/a'', rs_file := Some (cf_data f)\<rparr>,
      c\<lparr>fc_files := at_key ''/s/a'' (add_ref 7) (fc_files c)\<rparr>), [''Content-length: '' @ to_string_int 2 @ crlf @ crlf])"
    unfolding r1 using hit
    by (simp add: content_lines_def request_for_def new_response_def Let_def add_ref_def)
  obtain r' c' b' where run: "make_response 0 one_site 7 7 (?r, c, ?b) = (None, r', c', b')"
  proof -
    have "\<exists>r' c' b'. make_response 0 one_site 7 7 (?r, c, ?b) = (None, r', c', b')"
    proof (rule make_response_in_place)
      show "buf_inv ?b" by (simp add: vec_max_def)
      show "write_pos ?b + length (concat (snd (state_line ?r1) @ header_lines ?r1
             @ snd (content_lines one_site 7 7 (?r1, c)))) \<le> length (buf_data ?b)"
        unfolding cont unfolding r1
        by (simp add: state_line_def header_lines_def get_file_type_def request_for_def new_response_def
            CODE_STATUS_def crlf_def to_string_int_def dec_nat.simps)
    qed (simp add: request_for_def)
    with that show thesis by blast
  qed
  have code: "rs_code ?r1 = 200" unfolding r1 by (simp add: request_for_def)
  have "(r', c') = fst (content_lines one_site 7 7 (fst (state_line ?r1), c))"
    using run by (auto simp: make_response_def Let_def split: prod.splits option.splits)
  then have r': "r' = ?r1\<lparr>rs_cached_path := ''/s/a'', rs_file := Some (cf_data f)\<rparr>"
    using state_line_known(1) [of ?r1] code cont by simp
  then have r2: "r' = ?r\<lparr>rs_stat := \<lparr>st_size = 2, st_mode = 0x81A4, st_mtime = 5\<rparr>,
      rs_cached_path := ''/s/a'', rs_file := Some (cf_data f)\<rparr>"
    unfolding r1 by simp
  obtain r'' c'' where un: "unmap_file (r', c') = (r'', c'')" by fastforce
  have "map_option cf_refs (find_file c'' (rs_cached_path r')) = Some (cf_refs f)"
    using unmap_restores_count [OF c(1) _ _ run _ _ _ un, of f] c one
    by (simp add: int_max_def r2 request_for_def new_response_def)
  with get run r' un show ?thesis by auto
qed

text \<open>
  A file that grows within the second of its modification time is announced with its new size
  although the old mapping is sent: a cache hit compares the time only, and the length that
  \<open>FileLen\<close> gives comes from the new \<open>stat\<close>. The response below is told to send 3 bytes from a mapping of 2.
\<close>

theorem grown_file_overruns_mapping:
  "\<exists>f c r' c' b'. get_file_mapping one_site 0 0 ''/s/a'' (page_stat 2 5) new_cache = (Some f, c)
     \<and> content_lines one_site 7 7 ((request_for ''/a'' 200)\<lparr>rs_stat := page_stat 3 5\<rparr>, c) = ((r', c'), b')
     \<and> rs_file r' = Some (cf_data f) \<and> fc_maps c' (cf_data f) = Some ''hi'' \<and> file_len r' = 3"
  by (simp add: get_file_mapping_def get_exclusive_def cache_hit_def find_file_def new_cache_def load_file_def
      one_site_def page_stat_def Let_def size_lim_def c_str_def content_lines_def request_for_def new_response_def
      at_key_def add_ref_def file_len_def)

end
