(* ===== verification/Http_Conn.thy ===== *)
theory Http_Conn
  imports Http_Response Request_Facts
begin

text \<open>
  One client connection, \<open>src/http/conn.cpp\<close> and \<open>include/http/conn.h\<close>: it owns the two buffers, the
  request and the response, reads what the socket delivers, turns it into a response and writes the
  response out with \<open>writev\<close>.
\<close>

section \<open>State\<close>

text \<open>
  The base of an \<open>iovec\<close> is null, a position in the vector of \<open>_writeBuff\<close>, or a position in a mapped
  file. The request is parsed with the regular expressions, the connection pool and the database of
  \<open>Http_Request\<close>.
\<close>

datatype io_ptr = Null | Wbuf nat | Mapped nat nat

record iovec =
  iov_base :: io_ptr
  iov_len :: nat

datatype process_result = NEED_MORE_DATA | RETRY_LATER | OK | ERROR

record conn =
  cn_fd :: int
  cn_addr :: "32 word \<times> 16 word"
  cn_id :: nat
  cn_closed :: bool
  cn_iov_cnt :: nat
  cn_iov0 :: iovec
  cn_iov1 :: iovec
  cn_read :: buffer
  cn_write :: buffer
  cn_request :: request
  cn_response :: response

text \<open>
  What all connections share: \<open>userCount\<close>, the descriptors given to \<open>close\<close> so far (the last one first),
  and the file cache.
\<close>

record conn_world =
  cw_users :: int
  cw_closed :: "int list"
  cw_cache :: file_cache

definition no_iov :: iovec where
  "no_iov = \<lparr>iov_base = Null, iov_len = 0\<rparr>"

definition new_conn :: "nat \<Rightarrow> conn outcome" where
  "new_conn mem =
     and_then (make_buffer mem INIT_BUFFER_SIZE) (\<lambda>rb.
     and_then (make_buffer mem INIT_BUFFER_SIZE) (\<lambda>wb.
     Inr \<lparr>cn_fd = -1, cn_addr = (0, 0), cn_id = 0, cn_closed = True, cn_iov_cnt = 0,
          cn_iov0 = no_iov, cn_iov1 = no_iov, cn_read = rb, cn_write = wb,
          cn_request = request_init, cn_response = new_response\<rparr>))"

section \<open>Life cycle\<close>

definition set_conn_id :: "nat \<Rightarrow> conn \<Rightarrow> conn" where
  "set_conn_id i c = c\<lparr>cn_id := i\<rparr>"

definition conn_init :: "int \<Rightarrow> 32 word \<times> 16 word \<Rightarrow> conn \<times> conn_world \<Rightarrow> (conn \<times> conn_world) outcome" where
  "conn_init sock_fd addr s = (case s of (c, w) \<Rightarrow>
     cpp_assert (0 < sock_fd)
       (Inr (c\<lparr>cn_addr := addr, cn_fd := sock_fd, cn_write := retrieve_all (cn_write c),
               cn_read := retrieve_all (cn_read c), cn_closed := False\<rparr>,
             w\<lparr>cw_users := cw_users w + 1\<rparr>)))"

definition conn_unmap :: "conn \<times> conn_world \<Rightarrow> conn \<times> conn_world" where
  "conn_unmap s = (case s of (c, w) \<Rightarrow>
     case unmap_file (cn_response c, cw_cache w) of
       (r, fc) \<Rightarrow> (c\<lparr>cn_response := r\<rparr>, w\<lparr>cw_cache := fc\<rparr>))"

definition conn_close :: "conn \<times> conn_world \<Rightarrow> (conn \<times> conn_world) outcome" where
  "conn_close s =
     cpp_assert (0 < cn_fd (fst s))
       (case conn_unmap s of (c, w) \<Rightarrow>
          if cn_closed c then Inr (c, w)
          else
            let c1 = c\<lparr>cn_closed := True\<rparr>; w1 = w\<lparr>cw_users := cw_users w - 1\<rparr> in
            if 0 < cn_fd c1 then Inr (c1, w1\<lparr>cw_closed := cn_fd c1 # cw_closed w1\<rparr>)
            else Inr (c1\<lparr>cn_fd := -1\<rparr>, w1))"

text \<open>The destructor: its body, then the destructor of \<open>_response\<close>.\<close>

definition conn_destroy :: "conn \<times> conn_world \<Rightarrow> conn_world outcome" where
  "conn_destroy s =
     and_then (if \<not> cn_closed (fst s) then conn_close s else Inr s)
       (\<lambda>s1. Inr (snd (conn_unmap s1)))"

text \<open>
  Moves. The buffers, the request and the response are moved member by member. \<open>operator=\<close> is the branch of two distinct
  objects; it leaves \<open>_isClose\<close> and the vectors of both as they are.
\<close>

definition move_conn :: "conn \<Rightarrow> conn \<times> conn" where
  "move_conn other =
     (\<lparr>cn_fd = cn_fd other, cn_addr = cn_addr other, cn_id = cn_id other, cn_closed = False,
       cn_iov_cnt = 0, cn_iov0 = no_iov, cn_iov1 = no_iov,
       cn_read = fst (move_buffer (cn_read other)), cn_write = fst (move_buffer (cn_write other)),
       cn_request = fst (move_request (cn_request other)), cn_response = fst (move_response (cn_response other))\<rparr>,
      other\<lparr>cn_fd := -1, cn_id := 0, cn_addr := (0, 0), cn_closed := True,
            cn_read := snd (move_buffer (cn_read other)), cn_write := snd (move_buffer (cn_write other)),
            cn_request := snd (move_request (cn_request other)), cn_response := snd (move_response (cn_response other))\<rparr>)"

definition move_assign_conn :: "conn \<Rightarrow> conn \<Rightarrow> conn_world \<Rightarrow> conn \<times> conn \<times> conn_world" where
  "move_assign_conn this other w =
     (this\<lparr>cn_fd := cn_fd other, cn_addr := cn_addr other, cn_id := cn_id other,
           cn_read := fst (move_buffer (cn_read other)), cn_write := fst (move_buffer (cn_write other)),
           cn_request := fst (move_request (cn_request other)), cn_response := fst (move_response (cn_response other))\<rparr>,
      other\<lparr>cn_fd := -1, cn_id := 0, cn_addr := (0, 0),
            cn_read := snd (move_buffer (cn_read other)), cn_write := snd (move_buffer (cn_write other)),
            cn_request := snd (move_request (cn_request other)), cn_response := snd (move_response (cn_response other))\<rparr>,
      if cn_fd this \<noteq> -1 then w\<lparr>cw_closed := cn_fd this # cw_closed w\<rparr> else w)"

section \<open>Reading\<close>

text \<open>
  \<open>rv k\<close> is the \<open>k\<close>-th call of \<open>readv\<close> during one \<open>Read\<close>; a call that ends the loop is the last one, so
  its number is the value of \<open>iterations\<close>.
\<close>

definition EAGAIN :: int where "EAGAIN = 11"
definition ECONNRESET :: int where "ECONNRESET = 104"

function read_loop ::
  "bool \<Rightarrow> nat \<Rightarrow> (nat \<Rightarrow> nat \<Rightarrow> int + string) \<Rightarrow> nat \<Rightarrow> int \<Rightarrow> int \<Rightarrow> conn \<Rightarrow> (int \<times> int \<times> conn) outcome" where
  "read_loop et mem rv iterations totalLen errno c =
     (case read_fd mem (rv iterations) errno (cn_read c) of
        Inl e \<Rightarrow> Inl e
      | Inr (len, err, b) \<Rightarrow>
          let c1 = c\<lparr>cn_read := b\<rparr> in
          if 0 < len then
            (if 65536 < totalLen + len then Inr (totalLen + len, err, c1)
             else if et \<and> iterations + 1 < 8
             then read_loop et mem rv (iterations + 1) (totalLen + len) err c1
             else Inr (if 0 < totalLen + len then totalLen + len else len, err, c1))
          else if len = 0 then Inr (if 0 < totalLen then totalLen else len, ECONNRESET, c1)
          else if err = EAGAIN then Inr (if 0 < totalLen then totalLen else len, err, c1)
          else Inr (len, err, c1))"
  by pat_completeness auto
termination
  by (relation "measure (\<lambda>(et, mem, rv, it, tot, e, c). 8 - it)") auto

declare read_loop.simps [simp del]

definition conn_read ::
  "bool \<Rightarrow> nat \<Rightarrow> (nat \<Rightarrow> nat \<Rightarrow> int + string) \<Rightarrow> int \<Rightarrow> conn \<Rightarrow> (int \<times> int \<times> conn) outcome" where
  "conn_read et mem rv errno c = read_loop et mem rv 0 0 errno c"

section \<open>Writing\<close>

definition to_write_bytes :: "conn \<Rightarrow> nat" where
  "to_write_bytes c = sz_add (iov_len (cn_iov0 c)) (iov_len (cn_iov1 c))"

text \<open>The bytes an \<open>iovec\<close> shows to the kernel, given the live mappings.\<close>

definition iov_bytes :: "buffer \<Rightarrow> (nat \<rightharpoonup> string) \<Rightarrow> iovec \<Rightarrow> string outcome" where
  "iov_bytes b maps v =
     (if iov_len v = 0 then Inr []
      else case iov_base v of
        Null \<Rightarrow> Inl Undefined_Behaviour
      | Wbuf i \<Rightarrow>
          if i + iov_len v \<le> length (buf_data b) then Inr (take (iov_len v) (drop i (buf_data b)))
          else Inl Undefined_Behaviour
      | Mapped a i \<Rightarrow>
          (case maps a of
             None \<Rightarrow> Inl Undefined_Behaviour
           | Some s \<Rightarrow>
               if i + iov_len v \<le> length s then Inr (take (iov_len v) (drop i s))
               else Inl Undefined_Behaviour))"

fun gather :: "buffer \<Rightarrow> (nat \<rightharpoonup> string) \<Rightarrow> iovec list \<Rightarrow> string outcome" where
  "gather b maps [] = Inr []"
| "gather b maps (v # vs) =
     and_then (iov_bytes b maps v) (\<lambda>s. and_then (gather b maps vs) (\<lambda>t. Inr (s @ t)))"

definition ptr_add :: "io_ptr \<Rightarrow> nat \<Rightarrow> io_ptr" where
  "ptr_add p n = (case p of Null \<Rightarrow> Null | Wbuf i \<Rightarrow> Wbuf (i + n) | Mapped a i \<Rightarrow> Mapped a (i + n))"

text \<open>The update of the vectors after the kernel took \<open>ret\<close> bytes.\<close>

definition advance_iov :: "conn \<Rightarrow> nat \<Rightarrow> conn outcome" where
  "advance_iov c ret =
     (let v0 = cn_iov0 c; v1 = cn_iov1 c in
      if iov_len v0 < ret then
        let file_written = sz_sub ret (iov_len v0) in
        Inr (c\<lparr>cn_iov1 := \<lparr>iov_base = ptr_add (iov_base v1) file_written,
                           iov_len = sz_sub (iov_len v1) file_written\<rparr>,
               cn_write := retrieve_all (cn_write c), cn_iov0 := no_iov\<rparr>)
      else
        and_then (retrieve (cn_write c) ret) (\<lambda>b.
          Inr (c\<lparr>cn_iov0 := \<lparr>iov_base = ptr_add (iov_base v0) ret, iov_len = sz_sub (iov_len v0) ret\<rparr>,
                 cn_write := b\<rparr>)))"

text \<open>
  \<open>wv k\<close> is the \<open>k\<close>-th call of \<open>writev\<close> during one \<open>Write\<close>. Beside the result, \<open>*saveErrno\<close> and the
  connection, the models give the bytes the kernel took.
\<close>

definition MAX_WRITE_PER_CALL :: int where
  "MAX_WRITE_PER_CALL = 4 * 1024 * 1024"

fun write_loop ::
  "bool \<Rightarrow> (nat \<rightharpoonup> string) \<Rightarrow> (nat \<Rightarrow> string \<Rightarrow> int + nat) \<Rightarrow> nat \<Rightarrow> nat \<Rightarrow> int \<Rightarrow> int \<Rightarrow> conn
     \<Rightarrow> (int \<times> int \<times> conn \<times> string) outcome" where
  "write_loop et maps wv attempt 0 totalLen errno c = Inr (totalLen, errno, c, [])"
| "write_loop et maps wv attempt (Suc left) totalLen errno c =
     and_then (gather (cn_write c) maps (take (cn_iov_cnt c) [cn_iov0 c, cn_iov1 c])) (\<lambda>s.
       case wv attempt s of
         Inl err \<Rightarrow> Inr (if err = EAGAIN then totalLen else -1, err, c, [])
       | Inr n \<Rightarrow>
           and_then (advance_iov c n) (\<lambda>c1.
             if to_write_bytes c1 = 0 \<or> \<not> et \<or> MAX_WRITE_PER_CALL < totalLen + int n
             then Inr (totalLen + int n, errno, c1, take n s)
             else and_then (write_loop et maps wv (attempt + 1) left (totalLen + int n) errno c1)
                    (\<lambda>(r, e, c2, t). Inr (r, e, c2, take n s @ t))))"

definition MAX_ATTEMPTS :: nat where
  "MAX_ATTEMPTS = 2"

definition conn_write ::
  "bool \<Rightarrow> (nat \<rightharpoonup> string) \<Rightarrow> (nat \<Rightarrow> string \<Rightarrow> int + nat) \<Rightarrow> int \<Rightarrow> conn
     \<Rightarrow> (int \<times> int \<times> conn \<times> string) outcome" where
  "conn_write et maps wv errno c =
     (if to_write_bytes c = 0 then Inr (0, errno, c, [])
      else write_loop et maps wv 0 MAX_ATTEMPTS 0 errno c)"

section \<open>Processing\<close>

text \<open>The pointers to what is to be sent, set after a response has been made.\<close>

definition set_iov :: "conn \<Rightarrow> conn" where
  "set_iov c =
     (let r = cn_response c; b = cn_write c;
          c1 = (if 0 < readable_bytes b
                then c\<lparr>cn_iov_cnt := 1, cn_iov0 := \<lparr>iov_base = Wbuf (read_pos b), iov_len = readable_bytes b\<rparr>\<rparr>
                else c\<lparr>cn_iov_cnt := 0\<rparr>)
      in case rs_file r of
           None \<Rightarrow> c1
         | Some a \<Rightarrow>
             if 0 < file_len r
             then c1\<lparr>cn_iov_cnt := 2, cn_iov1 := \<lparr>iov_base = Mapped a 0, iov_len = file_len r\<rparr>\<rparr>
             else c1)"

text \<open>
  What \<open>Process\<close> is given: the pattern matcher, the MySQL library, the largest allocation, the file system,
  the two clock readings of the cache, and \<open>Conn::staticDir\<close>.
\<close>

record 'd process_env =
  pe_regex :: regex_match
  pe_mysql :: "'d mysql_api"
  pe_mem :: nat
  pe_os :: os_files
  pe_now1 :: int
  pe_now2 :: int
  pe_dir :: string

type_synonym 'd process_state = "conn \<times> file_cache \<times> sql_pool \<times> 'd"

definition conn_process ::
  "'d process_env \<Rightarrow> 'd process_state \<Rightarrow> (process_result \<times> 'd process_state) outcome" where
  "conn_process env s = (case s of (c, fc, db) \<Rightarrow>
     if readable_bytes (cn_read c) = 0 then Inr (NEED_MORE_DATA, c, fc, db)
     else
       and_then (request_parse (pe_regex env) (pe_mysql env) request_init (cn_read c) db)
         (\<lambda>(ok, rq, rb, db1).
       and_then
         (if ok then response_init (pe_dir env) (req_path rq) (request_keep_alive rq) 200
                       (unmap_file (cn_response c, fc))
          else response_init (pe_dir env) (req_path rq) False 400 (unmap_file (cn_response c, fc)))
         (\<lambda>(rs, fc1).
       case make_response (pe_mem env) (pe_os env) (pe_now1 env) (pe_now2 env) (rs, fc1, cn_write c) of
         (e, rs2, fc2, wb) \<Rightarrow>
           let c1 = c\<lparr>cn_request := rq, cn_read := rb, cn_response := rs2, cn_write := wb\<rparr> in
           case e of
             Some e \<Rightarrow> if catchable e then Inr (ERROR, c1, fc2, db1) else Inl e
           | None \<Rightarrow>
               if readable_bytes wb = 0 then Inr (ERROR, c1, fc2, db1)
               else Inr (OK, set_iov c1, fc2, db1))))"

section \<open>The bytes that are still to be sent\<close>

text \<open>
  The vectors are in step with the write buffer: the first one shows its unread bytes, the second one a part
  of a live mapping. \<open>pending\<close> is what they show.
\<close>

definition file_part :: "(nat \<rightharpoonup> string) \<Rightarrow> iovec \<Rightarrow> string" where
  "file_part maps v =
     (if iov_len v = 0 then []
      else case iov_base v of Mapped a i \<Rightarrow> take (iov_len v) (drop i (the (maps a))) | _ \<Rightarrow> [])"

definition file_iov_ok :: "(nat \<rightharpoonup> string) \<Rightarrow> iovec \<Rightarrow> bool" where
  "file_iov_ok maps v \<longleftrightarrow> iov_len v = 0
     \<or> (case iov_base v of
          Mapped a i \<Rightarrow> (case maps a of None \<Rightarrow> False | Some s \<Rightarrow> i + iov_len v \<le> length s)
        | _ \<Rightarrow> False)"

definition conn_ready :: "(nat \<rightharpoonup> string) \<Rightarrow> conn \<Rightarrow> bool" where
  "conn_ready maps c \<longleftrightarrow> buf_inv (cn_write c)
     \<and> iov_len (cn_iov0 c) = length (content (cn_write c))
     \<and> (iov_len (cn_iov0 c) = 0 \<or> 1 \<le> cn_iov_cnt c \<and> iov_base (cn_iov0 c) = Wbuf (read_pos (cn_write c)))
     \<and> file_iov_ok maps (cn_iov1 c) \<and> (iov_len (cn_iov1 c) = 0 \<or> cn_iov_cnt c = 2)
     \<and> iov_len (cn_iov0 c) + iov_len (cn_iov1 c) < size_lim"

definition pending :: "(nat \<rightharpoonup> string) \<Rightarrow> conn \<Rightarrow> string" where
  "pending maps c = content (cn_write c) @ file_part maps (cn_iov1 c)"

lemma file_part_length: "file_iov_ok maps v \<Longrightarrow> length (file_part maps v) = iov_len v"
  by (auto simp: file_part_def file_iov_ok_def split: io_ptr.splits option.splits)

lemma file_part_bytes: "file_iov_ok maps v \<Longrightarrow> iov_bytes b maps v = Inr (file_part maps v)"
  by (auto simp: file_part_def file_iov_ok_def iov_bytes_def split: io_ptr.splits option.splits)

lemma pending_length:
  assumes "conn_ready maps c"
  shows "length (pending maps c) = to_write_bytes c"
  using assms by (simp add: conn_ready_def pending_def to_write_bytes_def file_part_length sz_add_exact)

lemma head_bytes:
  assumes "conn_ready maps c"
  shows "iov_bytes (cn_write c) maps (cn_iov0 c) = Inr (content (cn_write c))"
proof (cases "iov_len (cn_iov0 c) = 0")
  case True
  with assms show ?thesis by (simp add: conn_ready_def iov_bytes_def)
next
  case False
  with assms have "iov_base (cn_iov0 c) = Wbuf (read_pos (cn_write c))" "buf_inv (cn_write c)"
    "iov_len (cn_iov0 c) = write_pos (cn_write c) - read_pos (cn_write c)"
    by (auto simp: conn_ready_def length_content)
  with False show ?thesis
    by (auto simp: iov_bytes_def content_def elim!: buf_invE)
qed

lemma gather_pending:
  assumes "conn_ready maps c"
  shows "gather (cn_write c) maps (take (cn_iov_cnt c) [cn_iov0 c, cn_iov1 c]) = Inr (pending maps c)"
proof -
  have f: "file_iov_ok maps (cn_iov1 c)" using assms by (simp add: conn_ready_def)
  consider "cn_iov_cnt c = 0" | "cn_iov_cnt c = 1" | "2 \<le> cn_iov_cnt c" by linarith
  then show ?thesis
  proof cases
    case 1
    with assms show ?thesis by (auto simp: conn_ready_def pending_def file_part_def)
  next
    case 2
    with assms have "iov_len (cn_iov1 c) = 0" by (auto simp: conn_ready_def)
    with 2 head_bytes [OF assms] show ?thesis by (simp add: pending_def file_part_def)
  next
    case 3
    then obtain n where "cn_iov_cnt c = Suc (Suc n)" by (metis add_2_eq_Suc le_Suc_ex)
    with head_bytes [OF assms] file_part_bytes [OF f] show ?thesis by (simp add: pending_def)
  qed
qed

lemma file_part_advance:
  assumes "file_iov_ok maps v" "n \<le> iov_len v"
  shows "file_iov_ok maps \<lparr>iov_base = ptr_add (iov_base v) n, iov_len = iov_len v - n\<rparr>"
    and "file_part maps \<lparr>iov_base = ptr_add (iov_base v) n, iov_len = iov_len v - n\<rparr>
         = drop n (file_part maps v)"
  using assms
  by (auto simp: file_iov_ok_def file_part_def ptr_add_def drop_take add.commute
      split: io_ptr.splits option.splits)

lemma advance_pending:
  assumes ready: "conn_ready maps c" and n: "n \<le> length (pending maps c)"
  shows "\<exists>c'. advance_iov c n = Inr c' \<and> conn_ready maps c' \<and> pending maps c' = drop n (pending maps c)
           \<and> cn_read c' = cn_read c \<and> cn_response c' = cn_response c \<and> cn_request c' = cn_request c
           \<and> cn_fd c' = cn_fd c \<and> cn_closed c' = cn_closed c"
proof -
  let ?v0 = "cn_iov0 c" and ?v1 = "cn_iov1 c"
  have inv: "buf_inv (cn_write c)" and len0: "iov_len ?v0 = length (content (cn_write c))"
    and f: "file_iov_ok maps ?v1" and bound: "iov_len ?v0 + iov_len ?v1 < size_lim"
    using ready by (simp_all add: conn_ready_def)
  have total: "n \<le> iov_len ?v0 + iov_len ?v1"
    using n len0 file_part_length [OF f] by (simp add: pending_def)
  show ?thesis
  proof (cases "iov_len ?v0 < n")
    case True
    let ?k = "n - iov_len ?v0"
    have k: "sz_sub n (iov_len ?v0) = ?k" "sz_sub (iov_len ?v1) ?k = iov_len ?v1 - ?k" "?k \<le> iov_len ?v1"
      using True total bound by (simp_all add: sz_sub_exact)
    note adv = file_part_advance [OF f k(3)]
    have "drop n (pending maps c) = drop ?k (file_part maps ?v1)"
      using True len0 by (simp add: pending_def)
    with True k adv retrieve_all_ok [OF inv] ready show ?thesis
      by (auto simp: advance_iov_def Let_def conn_ready_def no_iov_def pending_def)
  next
    case False
    with len0 have "n \<le> length (content (cn_write c))" by simp
    from retrieve_ok [OF inv this] obtain b where b: "retrieve (cn_write c) n = Inr b" "buf_inv b"
      "content b = drop n (content (cn_write c))" "read_pos b = read_pos (cn_write c) + n" by blast
    have k: "sz_sub (iov_len ?v0) n = iov_len ?v0 - n"
      using False bound by (simp add: sz_sub_exact)
    have "conn_ready maps (c\<lparr>cn_iov0 := \<lparr>iov_base = ptr_add (iov_base ?v0) n, iov_len = iov_len ?v0 - n\<rparr>,
                 cn_write := b\<rparr>)"
      using ready b False by (auto simp: conn_ready_def ptr_add_def)
    with False k b len0 show ?thesis
      by (simp add: advance_iov_def Let_def pending_def)
  qed
qed

section \<open>Sending in rounds\<close>

text \<open>
  What a client of an output queue relies on: a round sends a prefix of what is pending and keeps the
  rest. Then the rounds together send the original bytes in order, and if every round makes progress
  they come to an end.
\<close>

fun send_rounds :: "('k \<Rightarrow> 'q \<Rightarrow> ('q \<times> string) outcome) \<Rightarrow> 'k list \<Rightarrow> 'q \<Rightarrow> ('q \<times> string) outcome" where
  "send_rounds send [] q = Inr (q, [])"
| "send_rounds send (k # ks) q =
     and_then (send k q) (\<lambda>(q1, s). and_then (send_rounds send ks q1) (\<lambda>(q2, t). Inr (q2, s @ t)))"

locale output_queue =
  fixes good :: "'q \<Rightarrow> bool"
    and to_send :: "'q \<Rightarrow> string"
    and kernel_ok :: "'k \<Rightarrow> bool"
    and progress :: "'k \<Rightarrow> bool"
    and send :: "'k \<Rightarrow> 'q \<Rightarrow> ('q \<times> string) outcome"
  assumes send_ok: "good q \<Longrightarrow> kernel_ok k \<Longrightarrow>
      \<exists>q' s. send k q = Inr (q', s) \<and> good q' \<and> to_send q = s @ to_send q'"
    and send_progress: "good q \<Longrightarrow> kernel_ok k \<Longrightarrow> progress k \<Longrightarrow> to_send q \<noteq> [] \<Longrightarrow>
      send k q = Inr (q', s) \<Longrightarrow> s \<noteq> []"
begin

lemma rounds_in_order:
  assumes "good q" "\<forall>k \<in> set ks. kernel_ok k"
  shows "\<exists>q' s. send_rounds send ks q = Inr (q', s) \<and> good q' \<and> to_send q = s @ to_send q'"
  using assms
proof (induction ks arbitrary: q)
  case (Cons k ks)
  from Cons.prems send_ok obtain q1 s where 1: "send k q = Inr (q1, s)" "good q1" "to_send q = s @ to_send q1"
    by (metis list.set_intros(1))
  from Cons.IH [OF 1(2)] Cons.prems obtain q2 t where
    2: "send_rounds send ks q1 = Inr (q2, t)" "good q2" "to_send q1 = t @ to_send q2"
    by auto
  with 1 show ?case by simp
qed simp

lemma rounds_drain:
  assumes "good q" "\<forall>k \<in> set ks. kernel_ok k \<and> progress k" "length (to_send q) \<le> length ks"
  shows "\<exists>q'. send_rounds send ks q = Inr (q', to_send q) \<and> good q' \<and> to_send q' = []"
  using assms
proof (induction ks arbitrary: q)
  case (Cons k ks)
  from Cons.prems send_ok obtain q1 s where 1: "send k q = Inr (q1, s)" "good q1" "to_send q = s @ to_send q1"
    by (metis list.set_intros(1))
  have "length (to_send q1) \<le> length ks"
  proof (cases "to_send q = []")
    case False
    with send_progress [OF Cons.prems(1) _ _ False 1(1)] Cons.prems(2) have "s \<noteq> []" by simp
    with 1(3) Cons.prems(3) show ?thesis by (cases s) auto
  qed (use 1 in simp)
  from Cons.IH [OF 1(2) _ this] Cons.prems obtain q2 where
    2: "send_rounds send ks q1 = Inr (q2, to_send q1)" "good q2" "to_send q2 = []"
    by auto
  with 1 show ?case by simp
qed simp

end

text \<open>A kernel's answers to the \<open>writev\<close> calls of one \<open>Write\<close>.\<close>

definition writev_contract :: "(nat \<Rightarrow> string \<Rightarrow> int + nat) \<Rightarrow> bool" where
  "writev_contract wv \<longleftrightarrow> (\<forall>k s n. wv k s = Inr n \<longrightarrow> n \<le> length s)"

definition writev_progress :: "(nat \<Rightarrow> string \<Rightarrow> int + nat) \<Rightarrow> bool" where
  "writev_progress wv \<longleftrightarrow> (\<forall>s. s \<noteq> [] \<longrightarrow> (\<exists>n. wv 0 s = Inr n \<and> 0 < n))"

text \<open>
  The outcome of \<open>j\<close> successful calls of \<open>writev\<close>: unless the loop stops by itself, the next call was made, was offered
  what is still pending, and failed; its error decides the result.
\<close>

definition write_outcome ::
  "bool \<Rightarrow> (nat \<Rightarrow> string \<Rightarrow> int + nat) \<Rightarrow> nat \<Rightarrow> nat \<Rightarrow> string \<Rightarrow> int \<Rightarrow> int \<Rightarrow> int \<Rightarrow> int \<Rightarrow> bool" where
  "write_outcome et wv k j rest stopped_at total_len e r \<longleftrightarrow>
     (if int j = stopped_at \<or> 0 < j \<and> (rest = [] \<or> \<not> et \<or> MAX_WRITE_PER_CALL < total_len) then r = total_len
      else wv (k + j) rest = Inl e \<and> r = (if e = EAGAIN then total_len else -1))"

lemma write_loop_sends:
  assumes "conn_ready maps c" "writev_contract wv" "0 \<le> totalLen"
  shows "\<exists>r e c' s j. write_loop et maps wv k left totalLen errno c = Inr (r, e, c', s) \<and> conn_ready maps c'
           \<and> pending maps c = s @ pending maps c'
           \<and> j \<le> left \<and> (j = 0 \<longrightarrow> s = [] \<and> c' = c) \<and> (\<forall>i < j. \<exists>t n. wv (k + i) t = Inr n)
           \<and> write_outcome et wv k j (pending maps c') (int left) (totalLen + int (length s)) e r
           \<and> cn_read c' = cn_read c \<and> cn_response c' = cn_response c \<and> cn_request c' = cn_request c
           \<and> cn_fd c' = cn_fd c \<and> cn_closed c' = cn_closed c"
  using assms(1,3)
proof (induction left arbitrary: k totalLen c)
  case 0
  then show ?case by (intro exI [of _ totalLen] exI [of _ errno] exI [of _ c] exI [of _ "[]"] exI [of _ 0]) (simp add: write_outcome_def)
next
  case (Suc left)
  note g = gather_pending [OF Suc.prems(1)]
  show ?case
  proof (cases "wv k (pending maps c)")
    case (Inl err)
    with g Suc.prems show ?thesis
      by (intro exI [of _ "if err = EAGAIN then totalLen else -1"] exI [of _ err] exI [of _ c] exI [of _ "[]"] exI [of _ 0])
        (simp add: write_outcome_def)
  next
    case (Inr n)
    with assms(2) have n: "n \<le> length (pending maps c)" by (simp add: writev_contract_def)
    from advance_pending [OF Suc.prems(1) n] obtain c1 where
      c1: "advance_iov c n = Inr c1" "conn_ready maps c1" "pending maps c1 = drop n (pending maps c)"
        "cn_read c1 = cn_read c" "cn_response c1 = cn_response c" "cn_request c1 = cn_request c"
        "cn_fd c1 = cn_fd c" "cn_closed c1 = cn_closed c" by blast
    have empty: "to_write_bytes c1 = 0 \<longleftrightarrow> pending maps c1 = []"
      using pending_length [OF c1(2)] by (metis length_0_conv)
    show ?thesis
    proof (cases "to_write_bytes c1 = 0 \<or> \<not> et \<or> MAX_WRITE_PER_CALL < totalLen + int n")
      case True
      with g Inr c1 n empty show ?thesis
        by (intro exI [of _ "totalLen + int n"] exI [of _ errno] exI [of _ c1] exI [of _ "take n (pending maps c)"] exI [of _ 1])
          (auto simp: write_outcome_def)
    next
      case False
      from Suc.IH [OF c1(2), of "totalLen + int n" "k + 1"] Suc.prems(2) obtain r e c' s j where
        IH: "write_loop et maps wv (k + 1) left (totalLen + int n) errno c1 = Inr (r, e, c', s)"
          "conn_ready maps c'" "pending maps c1 = s @ pending maps c'"
          "j \<le> left" "j = 0 \<longrightarrow> s = [] \<and> c' = c1" "\<forall>i < j. \<exists>t n. wv (k + 1 + i) t = Inr n"
          "write_outcome et wv (k + 1) j (pending maps c') (int left) (totalLen + int n + int (length s)) e r"
          "cn_read c' = cn_read c1" "cn_response c' = cn_response c1" "cn_request c' = cn_request c1"
          "cn_fd c' = cn_fd c1" "cn_closed c' = cn_closed c1" by auto
      have all: "pending maps c = (take n (pending maps c) @ s) @ pending maps c'"
        using IH(3) c1(3) by (metis append.assoc append_take_drop_id)
      have calls: "\<exists>t n. wv (k + i) t = Inr n" if "i < Suc j" for i
        using that Inr IH(6) by (cases i) auto
      have "int (length (take n (pending maps c) @ s)) = int n + int (length s)" using n by simp
      then have out: "write_outcome et wv k (Suc j) (pending maps c') (int (Suc left))
          (totalLen + int (length (take n (pending maps c) @ s))) e r"
        using IH(5,7) False empty by (cases "j = 0") (auto simp: write_outcome_def add.assoc)
      have run: "write_loop et maps wv k (Suc left) totalLen errno c = Inr (r, e, c', take n (pending maps c) @ s)"
        using False g Inr c1(1) IH(1) by simp
      show ?thesis
        using run all calls out IH(2,4,8-12) c1(4-8)
        by (intro exI [of _ r] exI [of _ e] exI [of _ c'] exI [of _ "take n (pending maps c) @ s"] exI [of _ "Suc j"]) simp
    qed
  qed
qed

lemma conn_write_exact:
  assumes "conn_ready maps c" "writev_contract wv"
  shows "\<exists>r e c' s j. conn_write et maps wv errno c = Inr (r, e, c', s) \<and> conn_ready maps c'
           \<and> pending maps c = s @ pending maps c' \<and> j \<le> 2 \<and> (\<forall>i < j. \<exists>t n. wv i t = Inr n)
           \<and> (if j = 2 \<or> pending maps c' = [] \<or> 0 < j \<and> (\<not> et \<or> MAX_WRITE_PER_CALL < int (length s)) then r = int (length s)
              else wv j (pending maps c') = Inl e \<and> r = (if e = EAGAIN then int (length s) else -1))
           \<and> cn_read c' = cn_read c \<and> cn_response c' = cn_response c \<and> cn_request c' = cn_request c
           \<and> cn_fd c' = cn_fd c \<and> cn_closed c' = cn_closed c"
proof (cases "to_write_bytes c = 0")
  case True
  then have "pending maps c = []" using pending_length [OF assms(1)] by simp
  with True assms(1) show ?thesis
    by (intro exI [of _ 0] exI [of _ errno] exI [of _ c] exI [of _ "[]"]) (simp add: conn_write_def)
next
  case False
  then have ne: "pending maps c \<noteq> []" using pending_length [OF assms(1)] by auto
  from write_loop_sends [OF assms, of 0 et 0 MAX_ATTEMPTS errno] obtain r e c' s j where
    w: "write_loop et maps wv 0 MAX_ATTEMPTS 0 errno c = Inr (r, e, c', s)" "conn_ready maps c'"
      "pending maps c = s @ pending maps c'" "j \<le> MAX_ATTEMPTS" "j = 0 \<longrightarrow> s = [] \<and> c' = c" "\<forall>i < j. \<exists>t n. wv (0 + i) t = Inr n"
      "write_outcome et wv 0 j (pending maps c') (int MAX_ATTEMPTS) (0 + int (length s)) e r"
      "cn_read c' = cn_read c" "cn_response c' = cn_response c" "cn_request c' = cn_request c"
      "cn_fd c' = cn_fd c" "cn_closed c' = cn_closed c" by blast
  have "if j = 2 \<or> pending maps c' = [] \<or> 0 < j \<and> (\<not> et \<or> MAX_WRITE_PER_CALL < int (length s)) then r = int (length s)
              else wv j (pending maps c') = Inl e \<and> r = (if e = EAGAIN then int (length s) else -1)"
    using w(5,7) ne by (cases "j = 0") (auto simp: write_outcome_def MAX_ATTEMPTS_def)
  with w False show ?thesis
    by (intro exI [of _ r] exI [of _ e] exI [of _ c'] exI [of _ s] exI [of _ j]) (simp add: conn_write_def MAX_ATTEMPTS_def)
qed

lemma conn_write_sends:
  assumes "conn_ready maps c" "writev_contract wv"
  shows "\<exists>r e c' s. conn_write et maps wv errno c = Inr (r, e, c', s) \<and> conn_ready maps c'
           \<and> pending maps c = s @ pending maps c' \<and> (r = int (length s) \<or> r = -1)
           \<and> cn_read c' = cn_read c \<and> cn_response c' = cn_response c \<and> cn_request c' = cn_request c
           \<and> cn_fd c' = cn_fd c \<and> cn_closed c' = cn_closed c"
  using conn_write_exact [OF assms, of et errno] by (metis (no_types, lifting))

lemma conn_write_progress:
  assumes "conn_ready maps c" "writev_contract wv" "writev_progress wv" "pending maps c \<noteq> []"
    and "conn_write et maps wv errno c = Inr (r, e, c', s)"
  shows "s \<noteq> []"
proof -
  from assms(3,4) obtain n where n: "wv 0 (pending maps c) = Inr n" "0 < n"
    by (auto simp: writev_progress_def)
  moreover have "to_write_bytes c \<noteq> 0" using pending_length [OF assms(1)] assms(4) by (metis length_0_conv)
  moreover have "take n (pending maps c) \<noteq> []" using n assms(4) by simp
  ultimately show ?thesis
    using assms(5) gather_pending [OF assms(1)]
    by (auto simp: conn_write_def MAX_ATTEMPTS_def numeral_2_eq_2 split: if_splits prod.splits)
qed

definition write_round ::
  "bool \<Rightarrow> (nat \<rightharpoonup> string) \<Rightarrow> (nat \<Rightarrow> string \<Rightarrow> int + nat) \<Rightarrow> conn \<Rightarrow> (conn \<times> string) outcome" where
  "write_round et maps wv c = and_then (conn_write et maps wv 0 c) (\<lambda>(r, e, c', s). Inr (c', s))"

interpretation conn_queue: output_queue "conn_ready maps" "pending maps" writev_contract writev_progress
    "write_round et maps" for et maps
proof
  fix c :: conn and wv
  assume "conn_ready maps c" "writev_contract wv"
  from conn_write_sends [OF this, of et 0]
  show "\<exists>c' s. write_round et maps wv c = Inr (c', s) \<and> conn_ready maps c' \<and> pending maps c = s @ pending maps c'"
    by (auto simp: write_round_def)
next
  fix c c' :: conn and wv s
  assume "conn_ready maps c" "writev_contract wv" "writev_progress wv" "pending maps c \<noteq> []"
    and "write_round et maps wv c = Inr (c', s)"
  then show "s \<noteq> []"
    using conn_write_progress [of maps c wv et 0] by (auto simp: write_round_def)
qed

text \<open>\<open>Buffer::WriteFd\<close> keeps the same contract.\<close>

definition write_fd_round :: "(string \<Rightarrow> int + nat) \<Rightarrow> buffer \<Rightarrow> (buffer \<times> string) outcome" where
  "write_fd_round wr b =
     and_then (write_fd wr 0 b) (\<lambda>(n, e, b'). Inr (b', take (nat n) (content b)))"

definition write_progress :: "(string \<Rightarrow> int + nat) \<Rightarrow> bool" where
  "write_progress wr \<longleftrightarrow> (\<forall>s. s \<noteq> [] \<longrightarrow> (\<exists>n. wr s = Inr n \<and> 0 < n))"

interpretation buffer_queue: output_queue buf_inv content write_contract write_progress write_fd_round
proof
  fix b wr
  assume "buf_inv b" "write_contract wr"
  from write_fd_correct [OF this] \<open>buf_inv b\<close>
  show "\<exists>b' s. write_fd_round wr b = Inr (b', s) \<and> buf_inv b' \<and> content b = s @ content b'"
    by (cases "wr (content b)") (auto simp: write_fd_round_def)
next
  fix b b' wr s
  assume "buf_inv b" "write_contract wr" "write_progress wr" "content b \<noteq> []"
    and run: "write_fd_round wr b = Inr (b', s)"
  then obtain n where "wr (content b) = Inr n" "0 < n" by (auto simp: write_progress_def)
  with run write_fd_correct(1) [OF \<open>buf_inv b\<close> \<open>write_contract wr\<close>] \<open>content b \<noteq> []\<close>
  show "s \<noteq> []" by (auto simp: write_fd_round_def)
qed

section \<open>What \<open>Process\<close> prepares\<close>

lemma set_iov_ready:
  assumes "buf_inv (cn_write c)" "iov_len (cn_iov1 c) = 0"
    and "\<forall>a. rs_file (cn_response c) = Some a \<longrightarrow> 0 < file_len (cn_response c) \<longrightarrow>
           (\<exists>s. maps a = Some s \<and> file_len (cn_response c) \<le> length s)"
    and "length (content (cn_write c)) + file_len (cn_response c) < size_lim"
  shows "conn_ready maps (set_iov c) \<or> content (cn_write c) = []"
    and "content (cn_write c) \<noteq> [] \<Longrightarrow> pending maps (set_iov c) = content (cn_write c) @
           (case rs_file (cn_response c) of
              None \<Rightarrow> []
            | Some a \<Rightarrow> take (file_len (cn_response c)) (the (maps a)))"
  using assms
  by (auto simp: set_iov_def Let_def conn_ready_def readable_bytes_content file_iov_ok_def file_part_def
      pending_def split: option.splits)


text \<open>\<open>Init\<close> sets every field of the response, so nothing of the previous one remains.\<close>

definition fresh_response :: "string \<Rightarrow> string \<Rightarrow> bool \<Rightarrow> int \<Rightarrow> response" where
  "fresh_response dir path keep code =
     \<lparr>rs_code = code, rs_keep_alive = keep, rs_path = path, rs_static_dir = dir, rs_cached_path = [],
      rs_file = None, rs_stat = zero_stat\<rparr>"

lemma unmap_file_idem:
  "rs_file (fst (unmap_file s)) = None" "unmap_file (unmap_file s) = unmap_file s"
  by (auto simp: unmap_file_def split: prod.split option.split)

lemma response_init_fresh:
  "dir \<noteq> [] \<Longrightarrow> response_init dir path keep code (unmap_file s)
     = Inr (fresh_response dir path keep code, snd (unmap_file s))"
  by (simp add: response_init_def unmap_file_idem(2) fresh_response_def split: prod.split)

definition released_cache :: "conn \<Rightarrow> file_cache \<Rightarrow> file_cache" where
  "released_cache c fc = snd (unmap_file (cn_response c, fc))"

lemma released_cache_inv: "cache_inv fc \<Longrightarrow> cache_inv (released_cache c fc)"
  by (auto simp: released_cache_def unmap_file_def file_cache.rel_ok split: option.split)

text \<open>The case distinction of \<open>Process\<close> once the request has been parsed.\<close>

definition status_sent :: "'d process_env \<Rightarrow> bool \<Rightarrow> string \<Rightarrow> int" where
  "status_sent env ok path = status_for (fs_stat (pe_os env) (c_str (pe_dir env @ path))) (if ok then 200 else 400)"

definition response_sent :: "'d process_env \<Rightarrow> bool \<Rightarrow> request \<Rightarrow> response" where
  "response_sent env ok rq =
     fresh_response (pe_dir env) (req_path rq) (ok \<and> request_keep_alive rq) (if ok then 200 else 400)"

lemma conn_process_parsed:
  assumes "content (cn_read c) \<noteq> []" "buf_inv (cn_read c)" "pe_dir env \<noteq> []"
    and "request_parse (pe_regex env) (pe_mysql env) request_init (cn_read c) db = Inr (ok, rq, rb, db1)"
  shows "conn_process env (c, fc, db) =
     (case make_response (pe_mem env) (pe_os env) (pe_now1 env) (pe_now2 env)
            (response_sent env ok rq, released_cache c fc, cn_write c) of
        (Some e, rs2, fc2, wb) \<Rightarrow>
          if catchable e
          then Inr (ERROR, c\<lparr>cn_request := rq, cn_read := rb, cn_response := rs2, cn_write := wb\<rparr>, fc2, db1)
          else Inl e
      | (None, rs2, fc2, wb) \<Rightarrow>
          let c1 = c\<lparr>cn_request := rq, cn_read := rb, cn_response := rs2, cn_write := wb\<rparr> in
          if readable_bytes wb = 0 then Inr (ERROR, c1, fc2, db1) else Inr (OK, set_iov c1, fc2, db1))"
  using assms
  by (cases ok) (auto simp: conn_process_def readable_bytes_content response_init_fresh response_sent_def
      released_cache_def Let_def split: prod.split option.split)

text \<open>
  A connection with nothing left to send, as it is after \<open>Init\<close> and after a response has been written out.
\<close>

definition conn_idle :: "conn \<Rightarrow> bool" where
  "conn_idle c \<longleftrightarrow> buf_inv (cn_read c) \<and> buf_inv (cn_write c) \<and> content (cn_write c) = []
     \<and> iov_len (cn_iov1 c) = 0"

lemma content_short: "buf_inv b \<Longrightarrow> length (content b) \<le> vec_max"
  by (auto simp: length_content elim!: buf_invE)

lemma head_text_nonempty: "head_text code keep ctype len \<noteq> []"
  by (simp add: head_text_def)

text \<open>
  The general form: after a successful \<open>Process\<close> of an idle connection the vectors show the head and the file that
  the status demands.
\<close>

lemma process_file_response:
  assumes idle: "conn_idle c" "content (cn_read c) \<noteq> []" and dir: "pe_dir env \<noteq> []"
    and parsed: "request_parse (pe_regex env) (pe_mysql env) request_init (cn_read c) db = Inr (ok, rq, rb, db1)"
    and code: "code = status_sent env ok (req_path rq)" "page = page_for code (req_path rq)"
    and st: "st = final_stat (pe_os env) (response_sent env ok rq)" "0 < st_size st" "st_size st < 2 ^ 63"
    and get: "get_file_mapping (pe_os env) (pe_now1 env) (pe_now2 env) (pe_dir env @ page) st (released_cache c fc)
              = (Some f, fc1)"
    and bytes: "fc_maps fc1 (cf_data f) = Some body" "length body = nat (st_size st)"
    and run: "conn_process env (c, fc, db) = Inr (OK, c', fc', db')"
  shows "fc' = fc1 \<and> db' = db1 \<and> cn_read c' = rb \<and> cn_request c' = rq \<and> rs_file (cn_response c') = Some (cf_data f)
     \<and> rs_code (cn_response c') = code \<and> conn_ready (fc_maps fc') c'
     \<and> pending (fc_maps fc') c' =
         head_text code (ok \<and> request_keep_alive rq) (get_file_type (fresh_response [] page False 0)) (st_size st) @ body"
proof -
  let ?r = "response_sent env ok rq" and ?fc = "released_cache c fc"
  obtain e rs2 fc2 wb where mr: "make_response (pe_mem env) (pe_os env) (pe_now1 env) (pe_now2 env)
      (?r, ?fc, cn_write c) = (e, rs2, fc2, wb)" by (cases "make_response (pe_mem env) (pe_os env) (pe_now1 env) (pe_now2 env)
      (?r, ?fc, cn_write c)") auto
  let ?c1 = "c\<lparr>cn_request := rq, cn_read := rb, cn_response := rs2, cn_write := wb\<rparr>"
  have inv: "buf_inv (cn_read c)" "buf_inv (cn_write c)" "content (cn_write c) = []" "iov_len (cn_iov1 c) = 0"
    using idle by (simp_all add: conn_idle_def)
  from run conn_process_parsed [OF idle(2) inv(1) dir parsed, of fc] mr
  have e: "e = None" and fin: "c' = set_iov ?c1" "fc' = fc2" "db' = db1"
    by (auto simp: Let_def split: option.splits if_splits)
  have r: "rs_code ?r = (if ok then 200 else 400)" "rs_path ?r = req_path rq" "rs_static_dir ?r = pe_dir env"
    "rs_keep_alive ?r = (ok \<and> request_keep_alive rq)" "rs_file ?r = None"
    by (simp_all add: response_sent_def fresh_response_def)
  have code': "code = status_for (fs_stat (pe_os env) (c_str (rs_static_dir ?r @ rs_path ?r))) (rs_code ?r)"
    unfolding r code(1) status_sent_def ..
  have ctype: "get_file_type (?r\<lparr>rs_path := page\<rparr>) = get_file_type (fresh_response [] page False 0)"
    by (simp add: get_file_type_def fresh_response_def)
  have sz: "st_size (final_stat (pe_os env) ?r) < 2 ^ 63" using st by simp
  have page: "page = page_for code (rs_path ?r)" using code(2) r by simp
  from make_response_wire [OF inv(2) _ sz mr [unfolded e] code' page st(1) refl refl]
  have wire: "rs_code rs2 = code" "rs_stat rs2 = st" "fc2 = fc1" "rs_file rs2 = Some (cf_data f)"
    "content wb = head_text code (ok \<and> request_keep_alive rq) (get_file_type (fresh_response [] page False 0)) (st_size st)"
    using get st(2) inv(3) ctype by (simp_all add: r)
  have "buf_inv wb"
    using make_response_cases [OF inv(2), of ?r, OF _ _ mr] sz by (simp add: r final_stat_eq)
  note wb = this content_short [OF this]
  have len: "file_len rs2 = nat (st_size st)"
    using st(2,3) by (simp add: file_len_def wire size_lim_def)
  have "length (content wb) + nat (st_size st) < size_lim"
    using wb(2) st(2,3) by (simp add: vec_max_def size_lim_def nat_less_iff)
  with set_iov_ready [of ?c1 "fc_maps fc1"] wb inv(4) wire len bytes
  have "conn_ready (fc_maps fc1) (set_iov ?c1) \<or> content wb = []"
    "content wb \<noteq> [] \<Longrightarrow> pending (fc_maps fc1) (set_iov ?c1) = content wb @ body"
    by auto
  moreover have "content wb \<noteq> []" unfolding wire by (rule head_text_nonempty)
  moreover have "cn_read (set_iov ?c1) = rb" "cn_request (set_iov ?c1) = rq" "cn_response (set_iov ?c1) = rs2"
    by (simp_all add: set_iov_def Let_def split: option.split)
  ultimately show ?thesis using fin wire by simp
qed


section \<open>What \<open>Read\<close> delivers\<close>

lemma read_loop_delivers:
  assumes "buf_inv (cn_read c)" "\<forall>k. readv_contract (rv k)" "iterations < 8" "0 \<le> totalLen" "totalLen \<le> 65536"
    and "2 ^ (8 - iterations) * (length (buf_data (cn_read c)) + 8194) \<le> min mem vec_max"
  shows "\<exists>n e c' bs. read_loop et mem rv iterations totalLen errno c = Inr (n, e, c')
     \<and> c' = c\<lparr>cn_read := cn_read c'\<rparr> \<and> buf_inv (cn_read c') \<and> content (cn_read c') = content (cn_read c) @ concat bs
     \<and> iterations + length bs \<le> 8 \<and> (\<forall>i < length bs. \<exists>cap. rv (iterations + i) cap = Inr (bs ! i))
     \<and> (0 < n \<longrightarrow> n = totalLen + int (length (concat bs)))
     \<and> (n = 0 \<longrightarrow> e = ECONNRESET \<and> totalLen = 0 \<and> bs = []) \<and> -1 \<le> n"
  using assms
proof (induction et mem rv iterations totalLen errno c rule: read_loop.induct)
  case (1 et mem rv it tot errno c)
  let ?L = "length (buf_data (cn_read c)) + 8194"
  have two: "(2::nat) ^ (8 - it) = 2 * 2 ^ (8 - (it + 1))"
    using "1.prems"(3) by (simp add: Suc_diff_Suc flip: power_Suc)
  have "2 * ?L \<le> 2 ^ (8 - it) * ?L"
    unfolding two by (intro mult_right_mono) simp_all
  then have mem: "2 * length (buf_data (cn_read c)) + 8194 \<le> min mem vec_max"
    using "1.prems"(6) by simp
  from read_fd_exact [OF "1.prems"(1) spec [OF "1.prems"(2)] mem, of it errno]
  obtain r where r: "read_fd mem (rv it) errno (cn_read c) = Inr r" "read_exactly (rv it) errno (cn_read c) r"
    "length (buf_data (snd (snd r))) \<le> 2 * length (buf_data (cn_read c)) + 8194" by blast
  obtain n e b where "r = (n, e, b)" by (cases r)
  with r have rd: "read_fd mem (rv it) errno (cn_read c) = Inr (n, e, b)" and b: "buf_inv b"
    and res: "n = -1 \<and> content b = content (cn_read c)
       \<or> (\<exists>cap bytes. rv it cap = Inr bytes \<and> n = int (length bytes) \<and> e = errno \<and> content b = content (cn_read c) @ bytes)"
    and len: "length (buf_data b) \<le> 2 * length (buf_data (cn_read c)) + 8194"
    by (simp_all add: read_exactly_def)
  note unf = read_loop.simps [of et mem rv it tot errno c]
  show ?case
  proof (cases "0 < n")
    case False
    then have "n = -1 \<or> n = 0" "content b = content (cn_read c)" using res by auto
    with False rd b "1.prems" show ?thesis
      unfolding unf by - (rule exI [of _ "if n = 0 \<or> e = EAGAIN then (if 0 < tot then tot else n) else n"],
          rule exI [of _ "if n = 0 then ECONNRESET else e"], rule exI [of _ "c\<lparr>cn_read := b\<rparr>"],
          rule exI [of _ "[]"], (auto simp: Let_def))
  next
    case True
    with res obtain cap bytes where got: "rv it cap = Inr bytes" "n = int (length bytes)"
      "content b = content (cn_read c) @ bytes" by auto
    show ?thesis
    proof (cases "tot + n \<le> 65536 \<and> et \<and> it + 1 < 8")
      case False
      have "0 < tot + n" using True "1.prems"(4) by simp
      with False True rd b got "1.prems" show ?thesis
        unfolding unf by - (rule exI [of _ "tot + n"], rule exI [of _ e],
            rule exI [of _ "c\<lparr>cn_read := b\<rparr>"], rule exI [of _ "[bytes]"], (auto simp: Let_def))
    next
      case go: True
      have "2 ^ (8 - (it + 1)) * (length (buf_data b) + 8194) \<le> 2 ^ (8 - (it + 1)) * (2 * ?L)"
        using len by (intro mult_left_mono) auto
      also have "\<dots> \<le> min mem vec_max" using "1.prems"(6) unfolding two by (simp only: mult.assoc mult.left_commute)
      finally have m: "2 ^ (8 - (it + 1)) * (length (buf_data (cn_read (c\<lparr>cn_read := b\<rparr>))) + 8194) \<le> min mem vec_max"
        by simp
      have "\<exists>n' e' c' bs. read_loop et mem rv (it + 1) (tot + n) e (c\<lparr>cn_read := b\<rparr>) = Inr (n', e', c')
     \<and> c' = (c\<lparr>cn_read := b\<rparr>)\<lparr>cn_read := cn_read c'\<rparr> \<and> buf_inv (cn_read c')
     \<and> content (cn_read c') = content (cn_read (c\<lparr>cn_read := b\<rparr>)) @ concat bs
     \<and> it + 1 + length bs \<le> 8 \<and> (\<forall>i < length bs. \<exists>cap. rv (it + 1 + i) cap = Inr (bs ! i))
     \<and> (0 < n' \<longrightarrow> n' = tot + n + int (length (concat bs)))
     \<and> (n' = 0 \<longrightarrow> e' = ECONNRESET \<and> tot + n = 0 \<and> bs = []) \<and> -1 \<le> n'"
        using True go "1.prems" b by (intro "1.IH" [OF rd refl refl refl True] m) auto
      then obtain n' e' c' bs where IH:
        "read_loop et mem rv (it + 1) (tot + n) e (c\<lparr>cn_read := b\<rparr>) = Inr (n', e', c')"
        "c' = c\<lparr>cn_read := cn_read c'\<rparr>" "buf_inv (cn_read c')" "content (cn_read c') = content b @ concat bs"
        "it + 1 + length bs \<le> 8" "\<forall>i < length bs. \<exists>cap. rv (it + 1 + i) cap = Inr (bs ! i)"
        "0 < n' \<longrightarrow> n' = tot + n + int (length (concat bs))" "n' \<noteq> 0" "-1 \<le> n'"
        using True "1.prems"(4) by auto
      have calls: "\<exists>cap. rv (it + i) cap = Inr ((bytes # bs) ! i)" if "i < length (bytes # bs)" for i
        using that got(1) IH(6) by (cases i) auto
      have "read_loop et mem rv it tot errno c = Inr (n', e', c')"
        unfolding unf using rd True go IH(1) by simp
      with IH calls got show ?thesis
        by - (rule exI [of _ n'], rule exI [of _ e'], rule exI [of _ c'], rule exI [of _ "bytes # bs"], auto)
    qed
  qed
qed


section \<open>The life of connections\<close>

text \<open>
  All connections of a process, with the descriptors that were ever given to \<open>Init\<close>. A connection is initialised when
  it is closed, as the server does with a new object, and move construction takes an open connection. What the class
  does in the cases that are left out is in the last section: moving a closed connection reopens it, and move assignment
  closes descriptors twice.
\<close>

definition open_conns :: "(nat \<rightharpoonup> conn) \<Rightarrow> nat set" where
  "open_conns cs = {i. \<exists>c. cs i = Some c \<and> \<not> cn_closed c}"

inductive life_step ::
  "(nat \<rightharpoonup> conn) \<times> conn_world \<times> int list \<Rightarrow> (nat \<rightharpoonup> conn) \<times> conn_world \<times> int list \<Rightarrow> bool" where
  created: "cs i = None \<Longrightarrow> new_conn mem = Inr c \<Longrightarrow> life_step (cs, w, fds) (cs(i \<mapsto> c), w, fds)"
| opened: "cs i = Some c \<Longrightarrow> cn_closed c \<Longrightarrow> conn_init fd addr (c, w) = Inr (c', w')
    \<Longrightarrow> life_step (cs, w, fds) (cs(i \<mapsto> c'), w', fd # fds)"
| closed: "cs i = Some c \<Longrightarrow> conn_close (c, w) = Inr (c', w')
    \<Longrightarrow> life_step (cs, w, fds) (cs(i \<mapsto> c'), w', fds)"
| destroyed: "cs i = Some c \<Longrightarrow> conn_destroy (c, w) = Inr w'
    \<Longrightarrow> life_step (cs, w, fds) (cs(i := None), w', fds)"
| moved: "cs i = Some c \<Longrightarrow> \<not> cn_closed c \<Longrightarrow> cs j = None \<Longrightarrow> move_conn c = (c', other)
    \<Longrightarrow> life_step (cs, w, fds) (cs(i \<mapsto> other, j \<mapsto> c'), w, fds)"

inductive_cases life_stepE: "life_step (cs, w, fds) s"

definition open_fds :: "(nat \<rightharpoonup> conn) \<Rightarrow> int multiset" where
  "open_fds cs = image_mset (\<lambda>i. cn_fd (the (cs i))) (mset_set (open_conns cs))"

definition life_inv :: "(nat \<rightharpoonup> conn) \<times> conn_world \<times> int list \<Rightarrow> bool" where
  "life_inv s = (case s of (cs, w, fds) \<Rightarrow> finite (open_conns cs)
     \<and> (\<forall>i \<in> open_conns cs. 0 < cn_fd (the (cs i)))
     \<and> cw_users w = int (card (open_conns cs))
     \<and> mset fds = mset (cw_closed w) + open_fds cs)"

lemma conn_unmap_simps [simp]:
  "cn_fd (fst (conn_unmap s)) = cn_fd (fst s)" "cn_closed (fst (conn_unmap s)) = cn_closed (fst s)"
  "cw_users (snd (conn_unmap s)) = cw_users (snd s)" "cw_closed (snd (conn_unmap s)) = cw_closed (snd s)"
  by (simp_all add: conn_unmap_def split: prod.split)

lemma conn_close_cases:
  assumes "conn_close (c, w) = Inr (c', w')"
  shows "0 < cn_fd c \<and> cn_fd c' = cn_fd c \<and> cn_closed c'
    \<and> (if cn_closed c then cw_users w' = cw_users w \<and> cw_closed w' = cw_closed w
       else cw_users w' = cw_users w - 1 \<and> cw_closed w' = cn_fd c # cw_closed w)"
proof -
  obtain c1 w1 where u: "conn_unmap (c, w) = (c1, w1)" by fastforce
  with conn_unmap_simps [of "(c, w)"] have "cn_fd c1 = cn_fd c" "cn_closed c1 = cn_closed c"
    "cw_users w1 = cw_users w" "cw_closed w1 = cw_closed w" by simp_all
  with assms u show ?thesis by (auto simp: conn_close_def Let_def split: if_splits)
qed

lemma conn_destroy_cases:
  assumes "conn_destroy (c, w) = Inr w'"
  shows "if cn_closed c then cw_users w' = cw_users w \<and> cw_closed w' = cw_closed w
       else cw_users w' = cw_users w - 1 \<and> cw_closed w' = cn_fd c # cw_closed w"
  using assms conn_close_cases [of c w] by (auto simp: conn_destroy_def split: if_splits)

lemma open_conns_upd:
  "open_conns (cs(i \<mapsto> c)) = (if cn_closed c then open_conns cs - {i} else insert i (open_conns cs))"
  "open_conns (cs(i := None)) = open_conns cs - {i}"
  by (auto simp: open_conns_def)

lemma open_fds_other:
  assumes "i \<notin> A"
  shows "image_mset (\<lambda>j. cn_fd (the ((cs(i := x)) j))) (mset_set A) = image_mset (\<lambda>j. cn_fd (the (cs j))) (mset_set A)"
  using assms by (cases "finite A") (auto intro: image_mset_cong)

lemma open_fds_upd:
  "open_conns (cs(i := x)) = open_conns cs - {i} \<Longrightarrow> i \<notin> open_conns cs \<Longrightarrow> open_fds (cs(i := x)) = open_fds cs"
  "open_conns (cs(i := x)) = open_conns cs - {i} \<Longrightarrow> finite (open_conns cs) \<Longrightarrow> i \<in> open_conns cs \<Longrightarrow>
     open_fds cs = add_mset (cn_fd (the (cs i))) (open_fds (cs(i := x)))"
proof -
  assume "open_conns (cs(i := x)) = open_conns cs - {i}" "i \<notin> open_conns cs"
  then show "open_fds (cs(i := x)) = open_fds cs"
    unfolding open_fds_def by (simp only: Diff_insert0 Diff_empty open_fds_other not_False_eq_True)
next
  assume x: "open_conns (cs(i := x)) = open_conns cs - {i}" and i: "finite (open_conns cs)" "i \<in> open_conns cs"
  have n: "i \<notin> open_conns cs - {i}" by simp
  show "open_fds cs = add_mset (cn_fd (the (cs i))) (open_fds (cs(i := x)))"
    unfolding open_fds_def x by (simp only: open_fds_other [OF n] mset_set.remove [OF i] image_mset_add_mset)
qed

lemma open_fds_new:
  assumes "finite (open_conns cs)" "i \<notin> open_conns cs" "\<not> cn_closed c"
  shows "open_fds (cs(i \<mapsto> c)) = add_mset (cn_fd c) (open_fds cs)"
proof -
  have "open_conns (cs(i \<mapsto> c)) = insert i (open_conns cs)" using assms(3) by (simp add: open_conns_upd)
  then show ?thesis
    unfolding open_fds_def using open_fds_other [OF assms(2), of cs "Some c"] assms by (simp del: fun_upd_apply) simp
qed

text \<open>Closing or destroying the connection \<open>i\<close>: what the counters must do.\<close>

lemma life_inv_remove:
  assumes inv: "life_inv (cs, w, fds)" and i: "cs i = Some c" and op: "open_conns (cs(i := x)) = open_conns cs - {i}"
    and w': "if cn_closed c then cw_users w' = cw_users w \<and> cw_closed w' = cw_closed w
       else cw_users w' = cw_users w - 1 \<and> cw_closed w' = cn_fd c # cw_closed w"
  shows "life_inv (cs(i := x), w', fds)"
proof -
  have fin: "finite (open_conns cs)" and pos: "\<forall>i \<in> open_conns cs. 0 < cn_fd (the (cs i))"
    and users: "cw_users w = int (card (open_conns cs))" and bag: "mset fds = mset (cw_closed w) + open_fds cs"
    using inv by (simp_all add: life_inv_def)
  have pos': "\<forall>j \<in> open_conns cs - {i}. 0 < cn_fd (the ((cs(i := x)) j))" using pos by simp
  have "cw_users w' = int (card (open_conns cs - {i})) \<and> mset fds = mset (cw_closed w') + open_fds (cs(i := x))"
  proof (cases "cn_closed c")
    case True
    then have "i \<notin> open_conns cs" using i by (simp add: open_conns_def)
    with open_fds_upd(1) [OF op this] w' True users bag show ?thesis by simp
  next
    case False
    then have o: "i \<in> open_conns cs" using i by (simp add: open_conns_def)
    have "int (card (open_conns cs)) = int (card (open_conns cs - {i})) + 1"
      using card.remove [OF fin o] by simp
    with open_fds_upd(2) [OF op fin o] w' False users bag i show ?thesis by simp
  qed
  with fin pos' op show ?thesis by (simp only: life_inv_def prod.case finite_Diff)
qed

lemma life_inv_step:
  assumes "life_inv s" "life_step s t"
  shows "life_inv t"
  using assms(2,1)
proof cases
  case (created cs i mem c w fds)
  then have "i \<notin> open_conns cs" "cn_closed c" by (auto simp: open_conns_def new_conn_def)
  with created assms(1) open_fds_upd(1) [of cs i "Some c"] show ?thesis
    by (auto simp: life_inv_def open_conns_upd)
next
  case (opened cs i c fd addr w c' w' fds)
  then have "i \<notin> open_conns cs" by (simp add: open_conns_def)
  moreover have "\<not> cn_closed c'" "cn_fd c' = fd" "0 < fd" "cw_users w' = cw_users w + 1" "cw_closed w' = cw_closed w"
    using opened by (auto simp: conn_init_def)
  ultimately show ?thesis using opened assms(1) open_fds_new [of cs i c']
    by (auto simp: life_inv_def open_conns_upd)
next
  case (closed cs i c w c' w' fds)
  from conn_close_cases [OF closed(4)] closed assms(1) show ?thesis
    by (auto intro!: life_inv_remove simp: open_conns_upd)
next
  case (destroyed cs i c w w' fds)
  from conn_destroy_cases [OF destroyed(4)] destroyed assms(1) show ?thesis
    by (auto intro!: life_inv_remove simp: open_conns_upd)
next
  case (moved cs i c j c' other w fds)
  then have m: "cn_closed other" "\<not> cn_closed c'" "cn_fd c' = cn_fd c" by (auto simp: move_conn_def)
  let ?cs = "cs(i \<mapsto> other)"
  have fin: "finite (open_conns cs)" and pos: "\<forall>k \<in> open_conns cs. 0 < cn_fd (the (cs k))"
    and users: "cw_users w = int (card (open_conns cs))" and bag: "mset fds = mset (cw_closed w) + open_fds cs"
    using assms(1) moved(1) by (simp_all add: life_inv_def)
  have i: "i \<in> open_conns cs" and j: "j \<notin> open_conns cs" "i \<noteq> j" using moved(3-5) by (auto simp: open_conns_def)
  have op: "open_conns ?cs = open_conns cs - {i}" using m(1) by (simp add: open_conns_upd)
  have j': "j \<notin> open_conns ?cs" using j op by simp
  have "open_fds (?cs(j \<mapsto> c')) = add_mset (cn_fd c) (open_fds ?cs)"
    using open_fds_new [OF _ j' m(2)] fin op m(3) by simp
  also have "\<dots> = open_fds cs" using open_fds_upd(2) [OF op fin i] moved(3) by simp
  finally have "mset fds = mset (cw_closed w) + open_fds (?cs(j \<mapsto> c'))" using bag by simp
  moreover have dom: "open_conns (?cs(j \<mapsto> c')) = insert j (open_conns cs - {i})"
    using m(2) op by (simp add: open_conns_upd(1) [of ?cs])
  moreover have "card (insert j (open_conns cs - {i})) = card (open_conns cs)"
    using fin i j card.remove [OF fin i] by simp
  moreover have "\<forall>k \<in> insert j (open_conns cs - {i}). 0 < cn_fd (the ((?cs(j \<mapsto> c')) k))"
    using pos i m(3) moved(3) j by auto
  ultimately show ?thesis using fin users moved(2) by (simp only: life_inv_def prod.case finite_insert finite_Diff)
qed

text \<open>
  C12: descriptors and the user count. However connections are created, initialised while closed, closed (also repeatedly),
  destroyed and moved while open into new objects, \<open>userCount\<close> is the number of open connections, and the descriptors that were
  handed over are, with multiplicity, those that were closed by a connection and those of the open ones: none is leaked and
  \<open>Conn\<close> closes none twice. Outside of this are the move of a closed connection and move assignment, which do close twice
  (\<open>moving_closed_closes_twice\<close>, \<open>move_assignment_breaks\<close>), and the \<open>close\<close> calls of the server itself
  (\<open>refused_client_closed_twice\<close>).
\<close>

theorem descriptors_closed_once:
  assumes "life_step\<^sup>*\<^sup>* (Map.empty, \<lparr>cw_users = 0, cw_closed = [], cw_cache = fc\<rparr>, []) (cs, w, fds)"
  shows "cw_users w = int (card (open_conns cs))
     \<and> mset fds = mset (cw_closed w) + open_fds cs"
proof -
  have "life_inv (Map.empty, \<lparr>cw_users = 0, cw_closed = [], cw_cache = fc\<rparr>, [])"
    by (simp add: life_inv_def open_conns_def open_fds_def)
  with assms have "life_inv (cs, w, fds)"
    by (induction rule: rtranclp_induct) (auto intro: life_inv_step)
  then show ?thesis by (simp add: life_inv_def)
qed


theorem descriptors_closed_once_witness:
  "\<exists>cs w. life_step\<^sup>*\<^sup>* (Map.empty, \<lparr>cw_users = 0, cw_closed = [], cw_cache = new_cache\<rparr>, []) (cs, w, [5])
     \<and> cw_closed w = [5] \<and> cw_users w = int (card (open_conns cs)) \<and> open_fds cs = {#}"
proof -
  define b where "b = roomy 1024"
  define c0 where "c0 = \<lparr>cn_fd = -1, cn_addr = (0, 0), cn_id = 0, cn_closed = True, cn_iov_cnt = 0,
          cn_iov0 = no_iov, cn_iov1 = no_iov, cn_read = b, cn_write = b,
          cn_request = request_init, cn_response = new_response\<rparr>"
  define c1 where "c1 = c0\<lparr>cn_addr := (0, 0), cn_fd := 5, cn_write := retrieve_all b, cn_read := retrieve_all b,
               cn_closed := False\<rparr>"
  let ?w = "\<lambda>n xs. \<lparr>cw_users = n, cw_closed = xs, cw_cache = new_cache\<rparr>"
  let ?c2 = "c1\<lparr>cn_closed := True\<rparr>"
  have "new_conn 1024 = Inr c0"
    by (simp add: new_conn_def make_buffer_def vec_resize_def vec_max_def INIT_BUFFER_SIZE_def c0_def b_def roomy_def)
  then have 1: "life_step (Map.empty, ?w 0 [], []) ([0 \<mapsto> c0], ?w 0 [], [])"
    by (intro created) simp_all
  have "life_step ([0 \<mapsto> c0], ?w 0 [], []) ([0 \<mapsto> c0, 0 \<mapsto> c1], ?w 1 [], [5])"
    by (rule opened [of _ _ c0 5 "(0, 0)"]) (simp_all add: conn_init_def c1_def c0_def)
  then have 2: "life_step ([0 \<mapsto> c0], ?w 0 [], []) ([0 \<mapsto> c1], ?w 1 [], [5])" by simp
  have "life_step ([0 \<mapsto> c1], ?w 1 [], [5]) ([0 \<mapsto> c1, 0 \<mapsto> ?c2], ?w 0 [5], [5])"
    by (rule closed [of _ _ c1])
       (simp_all add: conn_close_def conn_unmap_def unmap_file_def c1_def c0_def new_response_def)
  then have 3: "life_step ([0 \<mapsto> c1], ?w 1 [], [5]) ([0 \<mapsto> ?c2], ?w 0 [5], [5])" by simp
  have run: "life_step\<^sup>*\<^sup>* (Map.empty, ?w 0 [], []) ([0 \<mapsto> ?c2], ?w 0 [5], [5])"
    by (rule converse_rtranclp_into_rtranclp [of life_step, OF 1
          converse_rtranclp_into_rtranclp [of life_step, OF 2 r_into_rtranclp [of life_step, OF 3]]])
  from descriptors_closed_once [OF run] run show ?thesis
    by - (rule exI [of _ "[0 \<mapsto> ?c2]"], rule exI [of _ "?w 0 [5]"], simp)
qed

section \<open>Properties of reading and writing\<close>

text \<open>
  C15: a \<open>Write\<close> sends the pending bytes in order and says how far it came. When the vectors are in step with the buffer
  and the mapping, and the kernel takes no more than it is offered, \<open>Write\<close> makes at most two successful calls of
  \<open>writev\<close>, sends a prefix of what is pending and keeps exactly the rest. It stops after two calls, when nothing is left, and
  after the first call without edge triggering or beyond 4 MB; then it returns the number of bytes sent. Otherwise
  the next call, which was offered the rest, has failed: with \<open>EAGAIN\<close> the result is still the number of bytes sent, with any
  other error it is -1, and \<open>*saveErrno\<close> holds the error.
\<close>

theorem write_sends_in_order:
  assumes "conn_ready maps c" "writev_contract wv"
  shows "\<exists>r e c' s j. conn_write et maps wv errno c = Inr (r, e, c', s) \<and> conn_ready maps c'
     \<and> pending maps c = s @ pending maps c' \<and> to_write_bytes c' = length (pending maps c')
     \<and> j \<le> 2 \<and> (\<forall>i < j. \<exists>t n. wv i t = Inr n)
     \<and> (if j = 2 \<or> pending maps c' = [] \<or> 0 < j \<and> (\<not> et \<or> MAX_WRITE_PER_CALL < int (length s)) then r = int (length s)
        else wv j (pending maps c') = Inl e \<and> r = (if e = EAGAIN then int (length s) else -1))"
proof -
  from conn_write_exact [OF assms, of et errno] obtain r e c' s j where
    w: "conn_write et maps wv errno c = Inr (r, e, c', s)" "conn_ready maps c'" "pending maps c = s @ pending maps c'"
      "j \<le> 2" "\<forall>i < j. \<exists>t n. wv i t = Inr n"
      "if j = 2 \<or> pending maps c' = [] \<or> 0 < j \<and> (\<not> et \<or> MAX_WRITE_PER_CALL < int (length s)) then r = int (length s)
        else wv j (pending maps c') = Inl e \<and> r = (if e = EAGAIN then int (length s) else -1)" by blast
  with pending_length [OF w(2)] show ?thesis
    by (intro exI [of _ r] exI [of _ e] exI [of _ c'] exI [of _ s] exI [of _ j]) simp
qed

text \<open>A connection with a head of four bytes and a file of six.\<close>

definition half_sent :: conn where
  "half_sent = \<lparr>cn_fd = 5, cn_addr = (0, 0), cn_id = 1, cn_closed = False, cn_iov_cnt = 2,
     cn_iov0 = \<lparr>iov_base = Wbuf 2, iov_len = 4\<rparr>, cn_iov1 = \<lparr>iov_base = Mapped 1 0, iov_len = 6\<rparr>,
     cn_read = sample_buffer, cn_write = sample_buffer, cn_request = request_init,
     cn_response = new_response\<rparr>"

definition one_map :: "nat \<rightharpoonup> string" where
  "one_map = [1 \<mapsto> ''FILE..'']"

lemma half_sent_facts:
  "conn_ready one_map half_sent" "pending one_map half_sent = ''abcdFILE..''"
  by (simp_all add: conn_ready_def half_sent_def one_map_def file_iov_ok_def pending_def file_part_def size_lim_def)
     (simp add: sample_buffer_def)

lemma stingy_kernel:
  "0 < n \<Longrightarrow> writev_contract (\<lambda>k s. Inr (min n (length s)))" "0 < n \<Longrightarrow> writev_progress (\<lambda>k s. Inr (min n (length s)))"
  by (simp_all add: writev_contract_def writev_progress_def)

theorem write_sends_in_order_witness:
  "\<exists>e c' s. conn_write True one_map (\<lambda>k s. if k = 0 then Inr (min 3 (length s)) else Inl EAGAIN) 0 half_sent
      = Inr (int (length s), e, c', s) \<and> conn_ready one_map c' \<and> ''abcdFILE..'' = s @ pending one_map c'"
proof -
  let ?wv = "\<lambda>k s. if k = 0 then Inr (min 3 (length s)) else Inl EAGAIN :: int + nat"
  have "writev_contract ?wv" by (simp add: writev_contract_def)
  from write_sends_in_order [OF half_sent_facts(1) this, of True 0] obtain r e c' s j where
    w: "conn_write True one_map ?wv 0 half_sent = Inr (r, e, c', s)" "conn_ready one_map c'" "''abcdFILE..'' = s @ pending one_map c'"
    and r: "if j = (2::nat) \<or> pending one_map c' = [] \<or> 0 < j \<and> (\<not> True \<or> MAX_WRITE_PER_CALL < int (length s)) then r = int (length s)
        else ?wv j (pending one_map c') = Inl e \<and> r = (if e = EAGAIN then int (length s) else -1)"
    unfolding half_sent_facts(2) by blast
  have "r = int (length s)" using r by (auto split: if_splits)
  with w show ?thesis by blast
qed

text \<open>
  C14: writing ends. If every \<open>Write\<close> finds a kernel that takes at least one byte, then after as many rounds as there
  are pending bytes everything has been sent, each byte once and in order.
\<close>

theorem write_rounds_drain:
  assumes "conn_ready maps c" "\<forall>wv \<in> set wvs. writev_contract wv \<and> writev_progress wv"
    and "length (pending maps c) \<le> length wvs"
  shows "\<exists>c'. send_rounds (write_round et maps) wvs c = Inr (c', pending maps c) \<and> pending maps c' = []"
  using conn_queue.rounds_drain [OF assms] by blast

theorem write_rounds_drain_witness:
  "\<exists>c'. send_rounds (write_round False one_map) (replicate 10 (\<lambda>k s. Inr (min 1 (length s)))) half_sent
      = Inr (c', ''abcdFILE..'') \<and> pending one_map c' = []"
proof -
  have one: "0 < (1::nat)" by simp
  have ok: "\<forall>wv \<in> set (replicate 10 (\<lambda>k s. Inr (min 1 (length s)))). writev_contract wv \<and> writev_progress wv"
    using stingy_kernel [OF one] by (simp del: One_nat_def)
  have len: "length (pending one_map half_sent) \<le> length (replicate 10 (\<lambda>(k::nat) s. Inr (min 1 (length s)) :: int + nat))"
    by (simp add: half_sent_facts(2))
  from write_rounds_drain [OF half_sent_facts(1) ok len, of False] show ?thesis
    unfolding half_sent_facts(2) .
qed

text \<open>
  C24: what \<open>Read\<close> delivers. If the read buffer can grow to 256 times its size plus 2 MB, then \<open>Read\<close> makes at most
  eight successful calls of \<open>readv\<close>, appends all they delivered to the buffer and nothing else, and returns
  their number of bytes, 0 with \<open>ECONNRESET\<close> only when the peer closed before anything arrived, or -1.
\<close>

theorem read_delivers:
  assumes "buf_inv (cn_read c)" "\<forall>k. readv_contract (rv k)"
    and "256 * (length (buf_data (cn_read c)) + 8194) \<le> min mem vec_max"
  shows "\<exists>n e c' bs. conn_read et mem rv errno c = Inr (n, e, c')
     \<and> c' = c\<lparr>cn_read := cn_read c'\<rparr> \<and> buf_inv (cn_read c') \<and> content (cn_read c') = content (cn_read c) @ concat bs
     \<and> length bs \<le> 8 \<and> (\<forall>i < length bs. \<exists>cap. rv i cap = Inr (bs ! i))
     \<and> (0 < n \<longrightarrow> n = int (length (concat bs))) \<and> (n = 0 \<longrightarrow> e = ECONNRESET \<and> bs = []) \<and> -1 \<le> n"
proof -
  have "2 ^ (8 - 0) * (length (buf_data (cn_read c)) + 8194) \<le> min mem vec_max" using assms(3) by simp
  from read_loop_delivers [OF assms(1,2) _ _ _ this, of 0 et errno] show ?thesis
    by (simp add: conn_read_def)
qed

theorem read_delivers_witness:
  "\<exists>n e c'. conn_read True 3000000 (\<lambda>k cap. if k = 0 then Inr (take cap ''hello'') else Inl EAGAIN) 0 half_sent
      = Inr (n, e, c') \<and> (0 < n \<longrightarrow> (\<exists>s. content (cn_read c') = ''abcd'' @ s))"
proof -
  let ?rv = "\<lambda>(k::nat) cap. if k = 0 then Inr (take cap ''hello'') else Inl EAGAIN"
  have rv: "\<forall>k. readv_contract (?rv k)" by (simp add: readv_contract_def)
  have rd: "cn_read half_sent = sample_buffer" by (simp add: half_sent_def)
  have "256 * (length (buf_data (cn_read half_sent)) + 8194) \<le> min 3000000 vec_max"
    by (simp add: half_sent_def sample_buffer_def vec_max_def)
  from read_delivers [OF _ rv this, of True 0] rd show ?thesis by auto
qed


section \<open>Properties of \<open>Process\<close>\<close>

lemma keep_alive_state: "request_keep_alive (r\<lparr>req_state := x\<rparr>) = request_keep_alive r"
  by (simp add: request_keep_alive_def split: option.split)

lemma parse_rendered:
  assumes "boost_regex rx" "buf_inv b" "content b = render_request m p v hs []"
    and "request_line_ok m p v" "\<forall>kv \<in> set hs. header_ok kv"
  shows "\<exists>b'. request_parse rx my request_init b w
     = Inr (True, (request_of m p v hs request_init)\<lparr>req_state := FINISH\<rparr>, b', w) \<and> buf_inv b' \<and> content b' = []"
  by (rule request_parse_text)
     (use assms boost_regex.parse_text_no_body [OF assms(1,4,5), of request_init my w]
      in \<open>simp_all add: request_init_def render_request_nonempty\<close>)

text \<open>
  C8: a request for a file is answered with the file. Let an idle connection hold one rendered request for a path that
  is a readable, non-empty regular file, mapped by the cache. If \<open>Process\<close> succeeds, the request has been consumed and
  the database not touched, and enough rounds of \<open>Write\<close> that make progress send exactly the head with
  status 200, the connection line of the request, the type and length of the file, and then the
  bytes of the file.
\<close>

theorem get_delivers_file:
  assumes "boost_regex (pe_regex env)" "conn_idle c" "content (cn_read c) = render_request m p v hs []"
    and "request_line_ok m p v" "\<forall>kv \<in> set hs. header_ok kv" "pe_dir env \<noteq> []"
    and "rq = request_of m p v hs request_init" "path = req_path rq"
    and "fs_stat (pe_os env) (c_str (pe_dir env @ path)) = Some st" "\<not> S_ISDIR (st_mode st)"
    and "and (st_mode st) S_IROTH \<noteq> 0" "0 < st_size st" "st_size st < 2 ^ 63"
    and "get_file_mapping (pe_os env) (pe_now1 env) (pe_now2 env) (pe_dir env @ path) st (released_cache c fc) = (Some f, fc1)"
    and "fc_maps fc1 (cf_data f) = Some body" "length body = nat (st_size st)"
    and "conn_process env (c, fc, db) = Inr (OK, c', fc', db')"
    and "response = head_text 200 (request_keep_alive rq) (get_file_type (fresh_response [] path False 0)) (st_size st) @ body"
    and "\<forall>wv \<in> set wvs. writev_contract wv \<and> writev_progress wv" "length response \<le> length wvs"
  shows "content (cn_read c') = [] \<and> db' = db
     \<and> (\<exists>c''. send_rounds (write_round et (fc_maps fc')) wvs c' = Inr (c'', response) \<and> pending (fc_maps fc') c'' = [])"
proof -
  let ?rq = "rq\<lparr>req_state := FINISH\<rparr>"
  from assms(2) have "buf_inv (cn_read c)" by (simp add: conn_idle_def)
  from parse_rendered [OF assms(1) this assms(3-5), of "pe_mysql env" db] obtain rb where
    parsed: "request_parse (pe_regex env) (pe_mysql env) request_init (cn_read c) db = Inr (True, ?rq, rb, db)"
    and rb: "content rb = []" unfolding assms(7) by blast
  have ne: "content (cn_read c) \<noteq> []" unfolding assms(3) by (rule render_request_nonempty)
  have p: "req_path ?rq = path" by (simp add: assms(8))
  have code: "status_sent env True (req_path ?rq) = 200"
    unfolding p status_sent_def status_for_def using assms(9-11) by simp
  have page: "page_for 200 (req_path ?rq) = path" unfolding p by (simp add: page_for_def CODE_PATH_def)
  have st: "final_stat (pe_os env) (response_sent env True ?rq) = st"
    using assms(9-11) p by (simp add: final_stat_def response_sent_def fresh_response_def status_for_def CODE_PATH_def)
  from process_file_response [OF assms(2) ne assms(6) parsed refl refl refl, unfolded code page st, OF assms(12-17)]
  have res: "fc' = fc1" "db' = db" "cn_read c' = rb" "conn_ready (fc_maps fc') c'"
    "pending (fc_maps fc') c' = response"
    unfolding assms(18) by (auto simp: keep_alive_state)
  have "length (pending (fc_maps fc') c') \<le> length wvs" unfolding res(5) by (rule assms(20))
  from conn_queue.rounds_drain [OF res(4) assms(19) this] res rb show ?thesis by auto
qed

text \<open>\<open>Process\<close> succeeds when \<open>MakeResponse\<close> does not throw.\<close>

lemma process_runs:
  assumes idle: "conn_idle c" "content (cn_read c) \<noteq> []" and dir: "pe_dir env \<noteq> []"
    and parsed: "request_parse (pe_regex env) (pe_mysql env) request_init (cn_read c) db = Inr (ok, rq, rb, db1)"
    and sz: "st_size (final_stat (pe_os env) (response_sent env ok rq)) < 2 ^ 63"
    and mr: "make_response (pe_mem env) (pe_os env) (pe_now1 env) (pe_now2 env)
      (response_sent env ok rq, released_cache c fc, cn_write c) = (None, r', c1, wb)"
  shows "\<exists>c' fc'. conn_process env (c, fc, db) = Inr (OK, c', fc', db1)"
proof -
  let ?r = "response_sent env ok rq"
  have inv: "buf_inv (cn_read c)" "buf_inv (cn_write c)" using idle by (simp_all add: conn_idle_def)
  have code: "rs_code ?r \<in> {-1, 200, 400, 403, 404}" by (simp add: response_sent_def fresh_response_def)
  from make_response_cases [OF inv(2) code _ mr] sz
  have wb: "buf_inv wb" "content wb = content (cn_write c)
       @ concat (snd (state_line (error_html (pe_os env) (choose_code (pe_os env) ?r))))
       @ concat (header_lines (error_html (pe_os env) (choose_code (pe_os env) ?r)))
       @ concat (snd (content_lines (pe_os env) (pe_now1 env) (pe_now2 env)
           (error_html (pe_os env) (choose_code (pe_os env) ?r), released_cache c fc)))"
    by (simp_all add: final_stat_eq)
  have "content wb \<noteq> []" unfolding wb(2) header_lines_text by simp
  with wb(1) have "readable_bytes wb \<noteq> 0" by (simp add: readable_bytes_content)
  with conn_process_parsed [OF idle(2) inv(1) dir parsed, of fc] mr show ?thesis by (simp add: Let_def)
qed

text \<open>The example: \<open>GET /a\<close> to the site with the one file \<open>/s/a\<close>.\<close>

definition asking :: "string \<Rightarrow> conn" where
  "asking text = \<lparr>cn_fd = 5, cn_addr = (0, 0), cn_id = 1, cn_closed = False, cn_iov_cnt = 0,
     cn_iov0 = no_iov, cn_iov1 = no_iov, cn_read = buffer_of text, cn_write = roomy 500,
     cn_request = request_init, cn_response = new_response\<rparr>"

definition site_env :: "unit process_env" where
  "site_env = \<lparr>pe_regex = perl_match, pe_mysql = constant_db False [], pe_mem = 0, pe_os = one_site,
     pe_now1 = 0, pe_now2 = 0, pe_dir = ''/s''\<rparr>"

lemma asking_simps [simp]:
  "cn_read (asking s) = buffer_of s" "cn_write (asking s) = roomy 500" "iov_len (cn_iov1 (asking s)) = 0"
  "released_cache (asking s) fc = fc"
  by (simp_all add: asking_def no_iov_def released_cache_def unmap_file_def new_response_def)

lemma asking_idle: "length s \<le> 1000000 \<Longrightarrow> conn_idle (asking s)"
  by (simp add: conn_idle_def vec_max_def)

lemma site_env_simps [simp]:
  "pe_regex site_env = perl_match" "pe_mysql site_env = constant_db False []" "pe_mem site_env = 0"
  "pe_os site_env = one_site" "pe_now1 site_env = 0" "pe_now2 site_env = 0" "pe_dir site_env = ''/s''"
  by (simp_all add: site_env_def)

abbreviation get_a :: string where
  "get_a \<equiv> render_request ''GET'' ''/a'' ''1.0'' [] []"

lemma get_a_ok: "request_line_ok ''GET'' ''/a'' ''1.0''"
  by (simp add: request_line_ok_def no_crlf_def)

lemma get_a_request:
  "req_path (request_of ''GET'' ''/a'' ''1.0'' [] request_init) = ''/a''"
  "request_keep_alive (request_of ''GET'' ''/a'' ''1.0'' [] request_init) = False"
  by (simp_all add: request_of_def parse_path_def DEFAULT_HTML_def request_init_def request_keep_alive_def)

lemma get_a_runs: "\<exists>c' fc'. conn_process site_env (asking get_a, new_cache, (one_conn, ()))
    = Inr (OK, c', fc', (one_conn, ()))"
proof -
  let ?rq = "(request_of ''GET'' ''/a'' ''1.0'' [] request_init)\<lparr>req_state := FINISH\<rparr>"
  have len: "length get_a \<le> 1000000" by (simp add: render_request_def crlf_def)
  from parse_rendered [OF perl.boost_regex_axioms buf_inv_buffer_of [OF len] content_buffer_of get_a_ok,
      of "constant_db False []" "(one_conn, ())"] obtain rb where
    parsed: "request_parse perl_match (constant_db False []) request_init (buffer_of get_a) (one_conn, ())
      = Inr (True, ?rq, rb, (one_conn, ()))" by auto
  have rs: "response_sent site_env True ?rq = request_for ''/a'' 200"
    by (simp add: response_sent_def fresh_response_def get_a_request keep_alive_state request_for_def new_response_def)
  obtain r' c1 b' where mr: "make_response 0 one_site 0 0 (request_for ''/a'' 200, new_cache, roomy 500) = (None, r', c1, b')"
    using make_response_on_wire_example by blast
  have sz: "st_size (final_stat one_site (request_for ''/a'' 200)) = 2"
    by (simp add: final_stat_def request_for_def one_site_def c_str_def status_for_def S_ISDIR_def S_IROTH_def
        CODE_PATH_def Let_def)
  from process_runs [OF asking_idle [OF len], of site_env "(one_conn, ())" True ?rq rb "(one_conn, ())" new_cache r' c1 b']
  show ?thesis
    unfolding site_env_simps asking_simps rs content_buffer_of using parsed mr sz by (simp add: render_request_nonempty)
qed

theorem get_delivers_file_witness:
  "\<exists>c' fc' c''. conn_process site_env (asking get_a, new_cache, (one_conn, ())) = Inr (OK, c', fc', (one_conn, ()))
     \<and> send_rounds (write_round True (fc_maps fc')) (replicate 1000 (\<lambda>k s. Inr (min 1 (length s)))) c'
         = Inr (c'', head_text 200 False ''text/plain'' 2 @ ''hi'')"
proof -
  let ?st = "\<lparr>st_size = 2, st_mode = 0x81A4, st_mtime = 5\<rparr>"
  let ?wvs = "replicate 1000 (\<lambda>(k::nat) s. Inr (min 1 (length s)) :: int + nat)"
  obtain c' fc' where run: "conn_process site_env (asking get_a, new_cache, (one_conn, ()))
      = Inr (OK, c', fc', (one_conn, ()))" using get_a_runs by blast
  obtain f fc1 where get: "get_file_mapping one_site 0 0 ''/s/a'' ?st new_cache = (Some f, fc1)"
    and f: "fc_maps fc1 (cf_data f) = Some ''hi''"
    by (simp add: get_file_mapping_def get_exclusive_def cache_hit_def find_file_def new_cache_def load_file_def
        one_site_def Let_def size_lim_def c_str_def)
  have type: "get_file_type (fresh_response [] ''/a'' False 0) = ''text/plain''"
    by (simp add: get_file_type_def fresh_response_def)
  have stat: "fs_stat one_site (c_str ''/s/a'') = Some ?st" by (simp add: one_site_def c_str_def)
  have mode: "\<not> S_ISDIR (st_mode ?st)" "and (st_mode ?st) S_IROTH \<noteq> 0" by (simp_all add: S_ISDIR_def S_IROTH_def)
  have one: "0 < (1::nat)" by simp
  have wvs: "\<forall>wv \<in> set ?wvs. writev_contract wv \<and> writev_progress wv"
    using stingy_kernel [OF one] by (simp del: One_nat_def)
  have idle: "conn_idle (asking get_a)" by (rule asking_idle) (simp add: render_request_def crlf_def)
  have len: "length (head_text 200 False ''text/plain'' 2 @ ''hi'') \<le> length ?wvs"
    using to_string_int_length [of 200] to_string_int_length [of 2]
    by (simp add: head_text_def CODE_STATUS_def crlf_def)
  let ?rq = "request_of ''GET'' ''/a'' ''1.0'' [] request_init"
  have "content (cn_read c') = [] \<and> (one_conn, ()) = (one_conn, ())
     \<and> (\<exists>c''. send_rounds (write_round True (fc_maps fc')) ?wvs c'
            = Inr (c'', head_text 200 False ''text/plain'' 2 @ ''hi'') \<and> pending (fc_maps fc') c'' = [])"
    by (rule get_delivers_file [where env = site_env and c = "asking get_a" and m = "''GET''" and p = "''/a''"
          and v = "''1.0''" and hs = "[]" and rq = ?rq and path = "''/a''" and st = ?st and fc = new_cache and f = f
          and body = "''hi''" and db = "(one_conn, ())"])
       (use perl.boost_regex_axioms idle get_a_ok stat get f run wvs len mode in
        \<open>simp_all add: get_a_request type\<close>)
  with run
  show ?thesis by auto
qed

lemma process_code:
  assumes idle: "conn_idle c" "content (cn_read c) \<noteq> []" and dir: "pe_dir env \<noteq> []"
    and parsed: "request_parse (pe_regex env) (pe_mysql env) request_init (cn_read c) db = Inr (ok, rq, rb, db1)"
    and sz: "st_size (final_stat (pe_os env) (response_sent env ok rq)) < 2 ^ 63"
    and run: "conn_process env (c, fc, db) = Inr (OK, c', fc', db')"
  shows "rs_code (cn_response c') = status_sent env ok (req_path rq) \<and> cn_read c' = rb \<and> cn_request c' = rq"
proof -
  let ?r = "response_sent env ok rq" and ?fc = "released_cache c fc"
  obtain e rs2 fc2 wb where mr: "make_response (pe_mem env) (pe_os env) (pe_now1 env) (pe_now2 env)
      (?r, ?fc, cn_write c) = (e, rs2, fc2, wb)" by (metis prod_cases4)
  have inv: "buf_inv (cn_read c)" "buf_inv (cn_write c)"
    using idle by (simp_all add: conn_idle_def)
  from run conn_process_parsed [OF idle(2) inv(1) dir parsed, of fc] mr
  have e: "e = None" and fin: "c' = set_iov (c\<lparr>cn_request := rq, cn_read := rb, cn_response := rs2, cn_write := wb\<rparr>)"
    by (auto simp: Let_def split: option.splits if_splits)
  have r: "rs_code ?r \<in> {-1, 200, 400, 403, 404}"
    "status_for (fs_stat (pe_os env) (c_str (rs_static_dir ?r @ rs_path ?r))) (rs_code ?r) = status_sent env ok (req_path rq)"
    by (simp_all add: response_sent_def fresh_response_def status_sent_def)
  from make_response_wire [OF inv(2) r(1) sz mr [unfolded e] r(2) [symmetric] refl refl refl refl]
  show ?thesis unfolding fin by (simp add: set_iov_def Let_def split: option.split)
qed

text \<open>
  A malformed request gets 404, not 400. When the first line is not a request line and the static
  directory is a directory, a successful \<open>Process\<close> answers with status 404 although it asked
  for 400, and the malformed bytes stay at the front of the read buffer.
\<close>

theorem malformed_request_gets_404:
  assumes "conn_idle c" "content (cn_read c) = s" "s \<noteq> []" "pe_dir env \<noteq> []"
    and "pe_regex env REQUEST_LINE_RE (take (line_end s) s) = None"
    and "fs_stat (pe_os env) (c_str (pe_dir env)) = Some st" "S_ISDIR (st_mode st)"
    and "\<forall>p st. fs_stat (pe_os env) p = Some st \<longrightarrow> st_size st < 2 ^ 63"
    and "conn_process env (c, fc, db) = Inr (OK, c', fc', db')"
  shows "rs_code (cn_response c') = 404 \<and> content (cn_read c') = s \<and> \<not> request_keep_alive (cn_request c')"
proof -
  have inv: "buf_inv (cn_read c)" using assms(1) by (simp add: conn_idle_def)
  have "parse_text (pe_regex env) (pe_mysql env) s request_init db = Inr (False, request_init, s, db)"
    using assms(3,5) by (simp add: parse_text.simps parse_line_def parse_request_line_def request_init_def)
  with request_parse_text [OF inv, of "pe_regex env" "pe_mysql env" request_init db] assms(2,3) obtain rb where
    parsed: "request_parse (pe_regex env) (pe_mysql env) request_init (cn_read c) db
        = Inr (False, request_init, rb, db)" and rb: "content rb = s" by auto
  have "st_size (final_stat (pe_os env) (response_sent env False request_init)) < 2 ^ 63"
    using assms(8) by (auto simp: final_stat_def Let_def response_sent_def fresh_response_def zero_stat_def
        split: option.split)
  from process_code [OF assms(1) _ assms(4) parsed this assms(9)] assms(2,3)
  show ?thesis
    using assms(6,7) rb by (simp add: status_sent_def status_for_def request_init_def request_keep_alive_def)
qed

text \<open>
  Pipelined requests are lost. When a second request follows the first one in the buffer, its request line is taken
  for the body of the first one: \<open>parse\<close> succeeds with the first request, and what is left in the buffer is the
  second request without its first line.
\<close>

theorem pipelined_request_swallowed:
  assumes "boost_regex rx" "buf_inv b" "content b = render_request m p v hs [] @ render_request m2 p2 v2 hs2 body"
    and "request_line_ok m p v" "\<forall>kv \<in> set hs. header_ok kv" "m \<noteq> ''POST''" "request_line_ok m2 p2 v2"
  shows "\<exists>r' b'. request_parse rx my request_init b w = Inr (True, r', b', w)
     \<and> req_path r' = req_path (request_of m p v hs request_init)
     \<and> req_body r' = m2 @ '' '' @ p2 @ '' HTTP/'' @ v2
     \<and> content b' = concat (map render_header hs2) @ crlf @ body"
proof -
  let ?line = "m2 @ '' '' @ p2 @ '' HTTP/'' @ v2" and ?rest = "concat (map render_header hs2) @ crlf @ body"
  let ?second = "?line @ crlf @ ?rest"
  let ?r = "(request_of m p v hs request_init)\<lparr>req_state := BODY\<rparr>"
  have bytes: "content b = render_request m p v hs ?second"
    unfolding assms(3) by (simp add: render_request_def)
  have ne: "?second \<noteq> []" by (simp add: crlf_def)
  have meth: "req_method ?r = m" by (simp add: request_of_def parse_path_def)
  have "parse_text rx my (content b) request_init w = parse_text rx my ?second ?r w"
    using boost_regex.parse_text_head [OF assms(1,4,5), of request_init my ?second w] ne
    unfolding bytes by (simp add: request_init_def)
  also have "\<dots> = Inr (True, ?r\<lparr>req_body := ?line, req_state := FINISH\<rparr>, ?rest, w)"
    using parse_text_line [of ?line ?r rx my ?rest w] assms(6,7) meth
    by (simp add: request_line_ok_def parse_line_def parse_body_def parse_post_def parse_text.simps)
  finally have pt: "parse_text rx my (content b) request_init w
      = Inr (True, ?r\<lparr>req_body := ?line, req_state := FINISH\<rparr>, ?rest, w)" .
  have "content b \<noteq> []" unfolding bytes by (rule render_request_nonempty)
  from request_parse_text [OF assms(2) this pt] show ?thesis by auto
qed

theorem pipelined_request_swallowed_witness:
  "\<exists>r' b'. request_parse perl_match (constant_db False []) request_init (buffer_of (get_a @ get_a)) (one_conn, ())
       = Inr (True, r', b', (one_conn, ()))
     \<and> req_path r' = ''/a'' \<and> req_body r' = ''GET /a HTTP/1.0'' \<and> content b' = crlf"
proof -
  have "buf_inv (buffer_of (get_a @ get_a))"
    by (rule buf_inv_buffer_of) (simp add: render_request_def crlf_def)
  from pipelined_request_swallowed [OF perl.boost_regex_axioms this content_buffer_of get_a_ok _ _ get_a_ok,
      of "constant_db False []" "(one_conn, ())"]
  show ?thesis by (simp add: get_a_request)
qed

theorem malformed_request_gets_404_witness:
  "\<exists>c' fc'. conn_process site_env (asking (''x'' @ crlf), new_cache, (one_conn, ())) = Inr (OK, c', fc', (one_conn, ()))
     \<and> rs_code (cn_response c') = 404 \<and> content (cn_read c') = ''x'' @ crlf"
proof -
  let ?s = "''x'' @ crlf"
  have miss: "perl_match REQUEST_LINE_RE ''x'' = None" by code_simp
  have "\<exists>rb. request_parse perl_match (constant_db False []) request_init (buffer_of ?s) (one_conn, ())
      = Inr (False, request_init, rb, (one_conn, ()))"
  proof -
    have "parse_text perl_match (constant_db False []) ?s request_init (one_conn, ()) = Inr (False, request_init, ?s, (one_conn, ()))"
      by (simp add: parse_text.simps parse_line_def parse_request_line_def request_init_def crlf_def miss)
    with request_parse_text [of "buffer_of ?s" perl_match "constant_db False []" request_init "(one_conn, ())"]
    show ?thesis by (auto simp: crlf_def)
  qed
  then obtain rb where parsed: "request_parse perl_match (constant_db False []) request_init (buffer_of ?s) (one_conn, ())
      = Inr (False, request_init, rb, (one_conn, ()))" by blast
  let ?r = "response_sent site_env False request_init"
  have r: "?r = fresh_response ''/s'' [] False 400"
    by (simp add: response_sent_def request_init_def)
  have fin: "error_html one_site (choose_code one_site ?r) = (fresh_response ''/s'' ''/404.html'' False 404)
      \<lparr>rs_stat := \<lparr>st_size = 4096, st_mode = 0x41ED, st_mtime = 5\<rparr>\<rparr>"
    unfolding r by (simp add: one_site_def c_str_def choose_code_def stat_path_def error_html_def S_ISDIR_def
        CODE_PATH_def fresh_response_def)
  have sz: "st_size (final_stat one_site ?r) = 4096"
    unfolding final_stat_eq [symmetric] fin by simp
  have "\<exists>r' c1 wb. make_response 0 one_site 0 0 (?r, new_cache, roomy 500) = (None, r', c1, wb)"
  proof (rule make_response_in_place)
    show "buf_inv (roomy 500)" by (simp add: vec_max_def)
    show "rs_code ?r \<in> {- 1, 200, 400, 403, 404}" unfolding r by (simp add: fresh_response_def)
    show "write_pos (roomy 500) + length (concat (snd (state_line (error_html one_site (choose_code one_site ?r)))
        @ header_lines (error_html one_site (choose_code one_site ?r))
        @ snd (content_lines one_site 0 0 (error_html one_site (choose_code one_site ?r), new_cache))))
      \<le> length (buf_data (roomy 500))"
      unfolding fin by (simp add: fresh_response_def state_line_def header_lines_def content_lines_def
          get_file_mapping_def get_exclusive_def cache_hit_def find_file_def new_cache_def load_file_def one_site_def
          c_str_def error_content_def error_body_def get_file_type_def SUFFIX_TYPE_def CODE_STATUS_def crlf_def Let_def
          to_string_int_def dec_nat.simps)
  qed
  then obtain r' c1 wb where mr: "make_response 0 one_site 0 0 (?r, new_cache, roomy 500) = (None, r', c1, wb)"
    by blast
  have idle: "conn_idle (asking ?s)" by (rule asking_idle) (simp add: crlf_def)
  from process_runs [OF idle, of site_env "(one_conn, ())" False request_init rb "(one_conn, ())" new_cache r' c1 wb]
  obtain c' fc' where run: "conn_process site_env (asking ?s, new_cache, (one_conn, ())) = Inr (OK, c', fc', (one_conn, ()))"
    unfolding site_env_simps asking_simps content_buffer_of using parsed mr sz by auto
  have stat: "fs_stat one_site (c_str ''/s'') = Some \<lparr>st_size = 4096, st_mode = 0x41ED, st_mtime = 5\<rparr>"
    by (simp add: one_site_def c_str_def)
  have small: "\<forall>p st. fs_stat one_site p = Some st \<longrightarrow> st_size st < 2 ^ 63"
    by (simp add: one_site_def)
  have rx: "perl_match REQUEST_LINE_RE (take (line_end ?s) ?s) = None"
    by (simp add: crlf_def miss)
  from malformed_request_gets_404 [of "asking ?s" ?s site_env, OF idle _ _ _ _ _ _ _ run] stat small rx run
  show ?thesis by (auto simp: S_ISDIR_def)
qed

section \<open>Moved connections\<close>

text \<open>
  Move construction hands the lease of the file over. The moved-from response keeps the address but not the path, so it
  releases nothing: when both objects have been destroyed, the reference count of the file has dropped by one.
\<close>

theorem move_hands_over_lease:
  assumes "cache_inv (cw_cache w)" "rs_file (cn_response c) = Some a" "rs_cached_path (cn_response c) = p" "p \<noteq> []"
    and "find_file (cw_cache w) p = Some f" "0 < cf_refs f" "0 < cn_fd c"
    and "move_conn c = (moved, other)"
  shows "\<exists>w1 w2. conn_destroy (other, w) = Inr w1 \<and> conn_destroy (moved, w1) = Inr w2
     \<and> map_option cf_refs (find_file (cw_cache w2) p) = Some (cf_refs f - 1)"
proof -
  have m: "cn_response moved = cn_response c" "cn_response other = (cn_response c)\<lparr>rs_path := [], rs_static_dir := [], rs_cached_path := []\<rparr>"
    "cn_closed moved = False" "cn_closed other = True" "cn_fd moved = cn_fd c"
    using assms(8) by (auto simp: move_conn_def move_response_def)
  let ?w2 = "w\<lparr>cw_users := cw_users w - 1, cw_closed := cn_fd c # cw_closed w, cw_cache := release_file_mapping p (cw_cache w)\<rparr>"
  have "conn_destroy (other, w) = Inr w"
    using m assms(2-4) by (simp add: conn_destroy_def conn_unmap_def unmap_file_def)
  moreover have "conn_destroy (moved, w) = Inr ?w2"
    using m assms(2-4,7) by (simp add: conn_destroy_def conn_close_def conn_unmap_def unmap_file_def)
  moreover have "map_option cf_refs (find_file (release_file_mapping p (cw_cache w)) p) = Some (cf_refs f - 1)"
    using release_ok(2) [OF assms(1)] assms(5,6) by (simp add: drop_ref_def size_simps)
  ultimately show ?thesis by (intro exI conjI) (assumption | simp)+
qed

definition leased_cache :: file_cache where
  "leased_cache = \<lparr>fc_files = [(''/s/a'', \<lparr>cf_data = 1, cf_size = 2, cf_refs = 2, cf_mtime = 5, cf_access = 0\<rparr>)],
     fc_total = 1, fc_maps = [1 \<mapsto> ''hi''], fc_next = 2, fc_fds = 0\<rparr>"

definition leasing_conn :: conn where
  "leasing_conn = half_sent\<lparr>cn_response := new_response\<lparr>rs_file := Some 1, rs_cached_path := ''/s/a''\<rparr>\<rparr>"

lemma leased_facts:
  "cache_inv leased_cache" "find_file leased_cache ''/s/a'' = Some \<lparr>cf_data = 1, cf_size = 2, cf_refs = 2, cf_mtime = 5, cf_access = 0\<rparr>"
  "rs_file (cn_response leasing_conn) = Some 1" "rs_cached_path (cn_response leasing_conn) = ''/s/a''" "cn_fd leasing_conn = 5"
  by (simp_all add: cache_inv_def leased_cache_def find_file_def leasing_conn_def half_sent_def)

theorem move_hands_over_lease_witness:
  "\<exists>w w1 w2 moved other. map_option cf_refs (find_file (cw_cache w) ''/s/a'') = Some 2 \<and> move_conn leasing_conn = (moved, other)
     \<and> conn_destroy (other, w) = Inr w1 \<and> conn_destroy (moved, w1) = Inr w2
     \<and> map_option cf_refs (find_file (cw_cache w2) ''/s/a'') = Some 1"
proof -
  let ?w = "\<lparr>cw_users = 1, cw_closed = [], cw_cache = leased_cache\<rparr>"
  obtain moved other where m: "move_conn leasing_conn = (moved, other)" by (metis surj_pair)
  from move_hands_over_lease [OF _ leased_facts(3) leased_facts(4) _ _ _ _ m, of ?w] leased_facts
  obtain w1 w2 where "conn_destroy (other, ?w) = Inr w1" "conn_destroy (moved, w1) = Inr w2"
    "map_option cf_refs (find_file (cw_cache w2) ''/s/a'') = Some 1" by auto
  with m leased_facts(2) show ?thesis
    by (intro exI [of _ ?w] exI [of _ w1] exI [of _ w2] exI [of _ moved] exI [of _ other]) simp
qed

text \<open>
  Moving a closed connection reopens it: the new object is marked open and still has the old descriptor, which its
  destruction closes a second time; the user count drops once more.
\<close>

theorem moving_closed_closes_twice:
  assumes "cn_closed c" "0 < cn_fd c" "move_conn c = (moved, other)"
  shows "\<exists>w'. conn_destroy (moved, w) = Inr w' \<and> cw_closed w' = cn_fd c # cw_closed w \<and> cw_users w' = cw_users w - 1"
  using assms by (auto simp: move_conn_def conn_destroy_def conn_close_def Let_def conn_unmap_def split: prod.split)

theorem moving_closed_closes_twice_witness:
  "\<exists>moved other w'. move_conn (half_sent\<lparr>cn_closed := True\<rparr>) = (moved, other)
     \<and> conn_destroy (moved, \<lparr>cw_users = 0, cw_closed = [5], cw_cache = new_cache\<rparr>) = Inr w' \<and> cw_closed w' = [5, 5] \<and> cw_users w' = -1"
proof -
  obtain moved other where m: "move_conn (half_sent\<lparr>cn_closed := True\<rparr>) = (moved, other)" by (metis surj_pair)
  from moving_closed_closes_twice [OF _ _ m, of "\<lparr>cw_users = 0, cw_closed = [5], cw_cache = new_cache\<rparr>"] m show ?thesis
    by (auto simp: half_sent_def)
qed

text \<open>
  Move assignment loses the lease of the target: \<open>Response\<close> is assigned member by member without \<open>UnmapFile\<close>, so the reference
  that the target held is never given back and the file can never be cleaned up.
\<close>

theorem move_assignment_loses_lease:
  assumes "cache_inv (cw_cache w)" "find_file (cw_cache w) p = Some f"
    and "rs_file (cn_response this) = Some a" "rs_cached_path (cn_response this) = p"
    and "rs_file (cn_response other) = None" "0 < cn_fd other" "\<not> cn_closed this"
    and "move_assign_conn this other w = (this', other', w')"
  shows "\<exists>w1. conn_destroy (this', w') = Inr w1 \<and> find_file (cw_cache w1) p = Some f"
proof -
  have this': "cn_response this' = cn_response other" "cn_fd this' = cn_fd other" "\<not> cn_closed this'" "cw_cache w' = cw_cache w"
    using assms(7,8) by (auto simp: move_assign_conn_def move_response_def)
  let ?w1 = "w'\<lparr>cw_users := cw_users w' - 1, cw_closed := cn_fd this' # cw_closed w'\<rparr>"
  have "conn_destroy (this', w') = Inr ?w1"
    using this' assms(5,6) by (simp add: conn_destroy_def conn_close_def Let_def conn_unmap_def unmap_file_def)
  with this' assms(2) show ?thesis by auto
qed

theorem move_assignment_loses_lease_witness:
  "\<exists>this' other' w' w1. move_assign_conn leasing_conn (half_sent\<lparr>cn_fd := 6\<rparr>) \<lparr>cw_users = 2, cw_closed = [], cw_cache = leased_cache\<rparr>
       = (this', other', w')
     \<and> conn_destroy (this', w') = Inr w1 \<and> map_option cf_refs (find_file (cw_cache w1) ''/s/a'') = Some 2"
proof -
  let ?w = "\<lparr>cw_users = 2, cw_closed = [], cw_cache = leased_cache\<rparr>"
  obtain this' other' w' where m: "move_assign_conn leasing_conn (half_sent\<lparr>cn_fd := 6\<rparr>) ?w = (this', other', w')"
    by (metis prod_cases3)
  have "cache_inv (cw_cache ?w)" "find_file (cw_cache ?w) ''/s/a'' = Some \<lparr>cf_data = 1, cf_size = 2, cf_refs = 2, cf_mtime = 5, cf_access = 0\<rparr>"
    using leased_facts(1,2) by simp_all
  from move_assignment_loses_lease [OF this leased_facts(3,4) _ _ _ m] m show ?thesis
    by (auto simp: half_sent_def new_response_def leasing_conn_def)
qed

text \<open>
  Assigning from an open connection breaks both objects. \<open>operator=\<close> leaves \<open>_isClose\<close> of the source false and
  sets its descriptor to -1, so destroying the source runs into the assertion of \<open>Close\<close>; and it closes the
  descriptor of the target even if the target had closed it before.
\<close>

theorem move_assignment_breaks:
  assumes "\<not> cn_closed other" "cn_fd this \<noteq> -1" "move_assign_conn this other w = (this', other', w')"
  shows "conn_destroy (other', w') = Inl Assertion_Failed
     \<and> cw_closed w' = cn_fd this # cw_closed w \<and> cn_closed this' = cn_closed this"
  using assms by (auto simp: move_assign_conn_def conn_destroy_def conn_close_def)

theorem move_assignment_breaks_witness:
  "\<exists>this' other' w'. move_assign_conn (half_sent\<lparr>cn_closed := True\<rparr>) half_sent
       \<lparr>cw_users = 1, cw_closed = [5], cw_cache = new_cache\<rparr> = (this', other', w')
     \<and> conn_destroy (other', w') = Inl Assertion_Failed \<and> cw_closed w' = [5, 5]"
proof -
  let ?w = "\<lparr>cw_users = 1, cw_closed = [5], cw_cache = new_cache\<rparr>"
  obtain this' other' w' where m: "move_assign_conn (half_sent\<lparr>cn_closed := True\<rparr>) half_sent ?w = (this', other', w')"
    by (metis prod_cases3)
  from move_assignment_breaks [OF _ _ m] m show ?thesis by (simp add: half_sent_def)
qed

end
