(* ===== verification/Web_Server.thy ===== *)
theory Web_Server
  imports Http_Conn Timer_Manager Thread_Pool Spd_Logger Config_Reader Event_Poll
begin

text \<open>
  The server, \<open>src/core/server.cpp\<close> and \<open>include/core/server.h\<close> (class \<open>v0::Server\<close>): the reactor loop, the table of
  connections, the handlers that the thread pool runs, and the idle time-outs. Connections are heap objects behind
  raw pointers that tasks keep; a pointer to a destroyed connection is undefined behaviour. A handler is one function here;
  \<open>Handler_Phases\<close> takes it apart.
\<close>

unbundle bit_operations_syntax

section \<open>State\<close>

text \<open>The closures given to the timer manager: the one of \<open>addClient\<close> and the one of \<open>extentTime\<close>.\<close>

datatype sv_timeout = On_add int nat | On_extend int nat

text \<open>What the pool is given: the pointer to the connection; the task of \<open>closeConnAsync\<close> owns what was in the table entry.\<close>

datatype sv_task = Read_task nat | Write_task nat | Close_task int "nat option"

text \<open>\<open>ConnInfo\<close>: the pointer (or null) and the id, where 0 is invalid.\<close>

record conn_info =
  ci_conn :: "nat option"
  ci_id :: nat
  ci_active :: bool

definition default_info :: conn_info where
  "default_info = \<lparr>ci_conn = None, ci_id = 0, ci_active = True\<rparr>"

text \<open>
  The server extends the timer manager. \<open>sv_conns\<close> holds the live connection objects by address and \<open>sv_fresh\<close> is the
  next address; \<open>sv_kernel\<close> is the kernel's epoll instance; \<open>sv_fault\<close> is the fault of a time-out that ran inside \<open>GetNextTick\<close>.
\<close>

record ('k, 'd) server = "sv_timeout timer_manager" +
  sv_timeout_ms :: int
  sv_closed :: bool
  sv_listen_fd :: int
  sv_listen_event :: "32 word"
  sv_conn_event :: "32 word"
  sv_et :: bool
  sv_next_id :: nat
  sv_users :: "int \<rightharpoonup> conn_info"
  sv_conns :: "nat \<rightharpoonup> conn"
  sv_fresh :: nat
  sv_world :: conn_world
  sv_epoller :: epoller
  sv_kernel :: 'k
  sv_pool :: "sv_task pool"
  sv_db :: "sql_pool \<times> 'd"
  sv_fault :: "fault option"

text \<open>
  What a step is given: \<open>epoll_ctl\<close>, \<open>fcntl\<close> (with \<open>F_GETFL\<close> and \<open>F_SETFL\<close>), the largest allocation, what \<open>Process\<close>
  needs, and the clock when a time-out is set.
\<close>

record ('k, 'd) sys =
  sy_ctl :: "'k epoll_ctl"
  sy_getfl :: "int \<Rightarrow> int"
  sy_setfl :: "int \<Rightarrow> int \<Rightarrow> int"
  sy_mem :: nat
  sy_env :: "'d process_env"
  sy_now :: int

definition MAX_FD :: int where
  "MAX_FD = 65536"

definition O_NONBLOCK :: int where
  "O_NONBLOCK = 0x800"

section \<open>Closing\<close>

text \<open>Dereferencing a connection pointer.\<close>

definition deref :: "nat \<Rightarrow> ('k, 'd) server \<Rightarrow> (conn \<Rightarrow> 'r outcome) \<Rightarrow> 'r outcome" where
  "deref a s f = (case sv_conns s a of None \<Rightarrow> Inl Undefined_Behaviour | Some c \<Rightarrow> f c)"

definition store_conn :: "nat \<Rightarrow> conn \<Rightarrow> ('k, 'd) server \<Rightarrow> ('k, 'd) server" where
  "store_conn a c s = s\<lparr>sv_conns := (sv_conns s)(a \<mapsto> c)\<rparr>"

definition close_fd :: "int \<Rightarrow> ('k, 'd) server \<Rightarrow> ('k, 'd) server" where
  "close_fd fd s = s\<lparr>sv_world := (sv_world s)\<lparr>cw_closed := fd # cw_closed (sv_world s)\<rparr>\<rparr>"

text \<open>\<open>_users.erase(fd)\<close> destroys the entry, which destroys the connection.\<close>

definition erase_user :: "int \<Rightarrow> ('k, 'd) server \<Rightarrow> ('k, 'd) server outcome" where
  "erase_user fd s =
     (case sv_users s fd of
        None \<Rightarrow> Inr s
      | Some info \<Rightarrow>
          (case ci_conn info of
             None \<Rightarrow> Inr (s\<lparr>sv_users := (sv_users s)(fd := None)\<rparr>)
           | Some a \<Rightarrow> deref a s (\<lambda>c. and_then (conn_destroy (c, sv_world s)) (\<lambda>w.
               Inr (s\<lparr>sv_users := (sv_users s)(fd := None), sv_conns := (sv_conns s)(a := None), sv_world := w\<rparr>)))))"

definition close_conn :: "('k, 'd) sys \<Rightarrow> nat \<Rightarrow> ('k, 'd) server \<Rightarrow> ('k, 'd) server outcome" where
  "close_conn sys a s = deref a s (\<lambda>c.
     let fd = cn_fd c; connId = cn_id c in
     cpp_assert (0 < fd)
       (if fd \<le> 0 \<or> MAX_FD < fd \<or> connId = 0 then erase_user fd s
        else and_then (del_fd (sy_ctl sys) fd (sv_kernel s)) (\<lambda>(ok, k).
          let s1 = s\<lparr>sv_kernel := k\<rparr> in
          case sv_users s1 fd of
            None \<Rightarrow> Inr s1
          | Some info \<Rightarrow> erase_user fd (s1\<lparr>sv_users := (sv_users s1)(fd \<mapsto> info\<lparr>ci_active := False, ci_id := 0\<rparr>)\<rparr>))))"

section \<open>Time-outs\<close>

text \<open>\<open>_users[fd]\<close> inserts a default entry if there is none.\<close>

definition user_entry :: "int \<Rightarrow> ('k, 'd) server \<Rightarrow> conn_info \<times> ('k, 'd) server" where
  "user_entry fd s =
     (case sv_users s fd of
        Some info \<Rightarrow> (info, s)
      | None \<Rightarrow> (default_info, s\<lparr>sv_users := (sv_users s)(fd \<mapsto> default_info)\<rparr>))"

text \<open>The closure of \<open>addClient\<close>: close the connection if the entry is still the one it was set for.\<close>

definition added_timeout :: "('k, 'd) sys \<Rightarrow> int \<Rightarrow> nat \<Rightarrow> ('k, 'd) server \<Rightarrow> ('k, 'd) server outcome" where
  "added_timeout sys fd connId s =
     cpp_assert (0 < fd) (cpp_assert (0 < connId)
       (case sv_users s fd of
          None \<Rightarrow> Inr s
        | Some info \<Rightarrow>
            if \<not> sv_closed s \<and> ci_id info = connId
            then (case ci_conn info of None \<Rightarrow> Inr s | Some a \<Rightarrow> close_conn sys a s)
            else Inr s))"

text \<open>The closure of \<open>extentTime\<close>: close the connection if the entry is still the one and the connection is closed.\<close>

definition extended_timeout :: "('k, 'd) sys \<Rightarrow> int \<Rightarrow> nat \<Rightarrow> ('k, 'd) server \<Rightarrow> ('k, 'd) server outcome" where
  "extended_timeout sys fd connId s =
     (if sv_closed s then Inr s
      else case user_entry fd s of
        (info, s1) \<Rightarrow>
          if ci_id info \<noteq> connId then Inr s1
          else case ci_conn info of
            None \<Rightarrow> Inr s1
          | Some a \<Rightarrow> deref a s1 (\<lambda>c. if cn_closed c then close_conn sys a s1 else Inr s1))"

fun timeout_body :: "('k, 'd) sys \<Rightarrow> sv_timeout \<Rightarrow> ('k, 'd) server \<Rightarrow> ('k, 'd) server outcome" where
  "timeout_body sys (On_add fd connId) s = added_timeout sys fd connId s"
| "timeout_body sys (On_extend fd connId) s = extended_timeout sys fd connId s"

lemmas timeout_closures [simp] = added_timeout_def extended_timeout_def

text \<open>
  The callback as the timer manager runs it. A fault ends the program: the first one is kept and nothing runs after it.
\<close>

definition run_timeout :: "('k, 'd) sys \<Rightarrow> sv_timeout \<Rightarrow> ('k, 'd) server \<Rightarrow> bool \<times> ('k, 'd) server" where
  "run_timeout sys t s =
     (if sv_fault s \<noteq> None then (True, s)
      else case timeout_body sys t s of
        Inl e \<Rightarrow> (True, s\<lparr>sv_fault := Some e\<rparr>)
      | Inr s1 \<Rightarrow> (True, s1))"

definition extent_time :: "('k, 'd) sys \<Rightarrow> nat \<Rightarrow> ('k, 'd) server \<Rightarrow> ('k, 'd) server outcome" where
  "extent_time sys a s =
     (if sv_timeout_ms s \<le> 0 then Inr s
      else deref a s (\<lambda>c.
        let fd = cn_fd c in
        if fd \<le> 0 then Inr s
        else case sv_users s fd of
          None \<Rightarrow> Inr s
        | Some info \<Rightarrow> schedule_with_key (sy_now sys) fd (sv_timeout_ms s) 0 (On_extend fd (ci_id info)) s))"

section \<open>Accepting\<close>

definition set_fd_non_block :: "('k, 'd) sys \<Rightarrow> int \<Rightarrow> int outcome" where
  "set_fd_non_block sys fd =
     cpp_assert (0 < fd)
       (Inr (let flags = sy_getfl sys fd in if flags = -1 then -1 else sy_setfl sys fd (or flags O_NONBLOCK)))"

text \<open>
  The block in which \<open>addClient\<close> makes the connection: whether the lock is still held (an exception leaves it so) and the state.
\<close>

definition make_client :: "('k, 'd) sys \<Rightarrow> int \<Rightarrow> 32 word \<times> 16 word \<Rightarrow> nat \<Rightarrow> ('k, 'd) server \<Rightarrow> (bool \<times> ('k, 'd) server) outcome" where
  "make_client sys fd addr connId s =
     cpp_assert (sv_users s fd = None)
       (let s1 = s\<lparr>sv_users := (sv_users s)(fd \<mapsto> default_info)\<rparr> in
        case new_conn (sy_mem sys) of
          Inl e \<Rightarrow> if catchable e then Inr (True, s1) else Inl e
        | Inr c0 \<Rightarrow> and_then (conn_init fd addr (set_conn_id connId c0, sv_world s1)) (\<lambda>(c, w).
            let a = sv_fresh s1 in
            Inr (False, s1\<lparr>sv_world := w, sv_fresh := a + 1, sv_conns := (sv_conns s1)(a \<mapsto> c),
                          sv_users := (sv_users s1)(fd \<mapsto> default_info\<lparr>ci_conn := Some a, ci_id := connId\<rparr>)\<rparr>)))"

text \<open>Locking the mutex again while \<open>writeLock\<close> owns it throws \<open>std::system_error\<close>.\<close>

definition drop_client :: "bool \<Rightarrow> int \<Rightarrow> ('k, 'd) server \<Rightarrow> ('k, 'd) server outcome" where
  "drop_client held fd s =
     (if held then Inl System_Error else and_then (erase_user fd s) (\<lambda>s1. Inr (close_fd fd s1)))"

text \<open>What \<open>setNoDelay\<close> returns only decides whether a line is logged, so it is left out.\<close>

definition add_client :: "('k, 'd) sys \<Rightarrow> int \<Rightarrow> 32 word \<times> 16 word \<Rightarrow> ('k, 'd) server \<Rightarrow> ('k, 'd) server outcome" where
  "add_client sys fd addr s =
     cpp_assert (0 < fd)
       (let connId = sv_next_id s; s0 = s\<lparr>sv_next_id := sz_add connId 1\<rparr> in
        and_then (make_client sys fd addr connId s0) (\<lambda>(held, s1).
        and_then
          (if 0 < sv_timeout_ms s1
           then schedule_with_key (sy_now sys) fd (sv_timeout_ms s1) 0 (On_add fd connId) s1 else Inr s1) (\<lambda>s2.
        and_then (set_fd_non_block sys fd) (\<lambda>r.
        if r = -1 then drop_client held fd s2
        else case add_fd (sy_ctl sys) (sv_epoller s2) fd (EPOLLIN OR sv_conn_event s2) (sv_kernel s2) of
          (ok, k) \<Rightarrow>
            let s3 = s2\<lparr>sv_kernel := k\<rparr> in
            if \<not> ok then drop_client held fd s3 else Inr s3))))"

definition send_error :: "int \<Rightarrow> ('k, 'd) server \<Rightarrow> ('k, 'd) server outcome" where
  "send_error fd s = cpp_assert (0 < fd) (Inr (close_fd fd s))"

definition check_server_not_full :: "int \<Rightarrow> ('k, 'd) server \<Rightarrow> (bool \<times> ('k, 'd) server) outcome" where
  "check_server_not_full fd s =
     (if MAX_FD \<le> cw_users (sv_world s) then and_then (send_error fd s) (\<lambda>s1. Inr (False, s1)) else Inr (True, s))"

text \<open>
  The loop over the answers of \<open>accept\<close>; a descriptor that is not positive ends it. \<open>et\<close> is the edge-triggered
  loop, which looks at \<open>_isClose\<close> (no step of the reactor changes it in between).
\<close>

fun accept_loop ::
  "('k, 'd) sys \<Rightarrow> bool \<Rightarrow> (int \<times> (32 word \<times> 16 word)) list \<Rightarrow> ('k, 'd) server \<Rightarrow> ('k, 'd) server outcome" where
  "accept_loop sys et [] s = Inr s"
| "accept_loop sys et ((fd, addr) # fds) s =
     (if et \<and> sv_closed s then Inr s
      else if fd \<le> 0 then Inr s
      else and_then (check_server_not_full fd s) (\<lambda>(ok, s1).
        and_then (if ok then add_client sys fd addr s1 else Inr s1) (accept_loop sys et fds)))"

definition deal_listen ::
  "('k, 'd) sys \<Rightarrow> (int \<times> (32 word \<times> 16 word)) list \<Rightarrow> ('k, 'd) server \<Rightarrow> ('k, 'd) server outcome" where
  "deal_listen sys fds s =
     (if sv_listen_event s AND EPOLLET \<noteq> 0 then accept_loop sys True fds s
      else accept_loop sys False (take (nat (min 50 (MAX_FD - cw_users (sv_world s)))) fds) s)"

section \<open>The handlers of the thread pool\<close>

definition check_fd_and_match_id :: "nat \<Rightarrow> ('k, 'd) server \<Rightarrow> bool outcome" where
  "check_fd_and_match_id a s = deref a s (\<lambda>c.
     let fd = cn_fd c in
     cpp_assert (0 < fd)
       (Inr (if fd \<le> 0 \<or> MAX_FD < fd then False
             else if cn_closed c then False
             else case sv_users s fd of
               None \<Rightarrow> False
             | Some info \<Rightarrow> \<not> (cn_id c = 0 \<or> ci_id info \<noteq> cn_id c))))"

text \<open>\<open>ModFd\<close>, and closing the connection if it fails.\<close>

definition rearm :: "('k, 'd) sys \<Rightarrow> nat \<Rightarrow> int \<Rightarrow> 32 word \<Rightarrow> bool \<Rightarrow> ('k, 'd) server \<Rightarrow> ('k, 'd) server outcome" where
  "rearm sys a fd events closing s =
     (case mod_fd (sy_ctl sys) fd events (sv_kernel s) of
        (ok, k) \<Rightarrow> let s1 = s\<lparr>sv_kernel := k\<rparr> in
          if \<not> ok \<and> closing then close_conn sys a s1 else Inr s1)"

definition handle_read_error :: "('k, 'd) sys \<Rightarrow> nat \<Rightarrow> ('k, 'd) server \<Rightarrow> ('k, 'd) server outcome" where
  "handle_read_error sys a s = deref a s (\<lambda>c. close_conn sys a s)"

definition on_process :: "('k, 'd) sys \<Rightarrow> nat \<Rightarrow> ('k, 'd) server \<Rightarrow> ('k, 'd) server outcome" where
  "on_process sys a s =
     and_then (check_fd_and_match_id a s) (\<lambda>ok.
       if \<not> ok then Inr s
       else deref a s (\<lambda>c.
         let fd = cn_fd c in
         and_then (conn_process (sy_env sys) (c, cw_cache (sv_world s), sv_db s)) (\<lambda>(r, c1, fc, db).
           let s1 = store_conn a c1 (s\<lparr>sv_world := (sv_world s)\<lparr>cw_cache := fc\<rparr>, sv_db := db\<rparr>) in
           case r of
             NEED_MORE_DATA \<Rightarrow> rearm sys a fd (sv_conn_event s1 OR EPOLLIN) True s1
           | OK \<Rightarrow> rearm sys a fd (sv_conn_event s1 OR EPOLLOUT) True s1
           | RETRY_LATER \<Rightarrow> Inr s1
           | ERROR \<Rightarrow> close_conn sys a s1)))"

definition on_read ::
  "('k, 'd) sys \<Rightarrow> (nat \<Rightarrow> nat \<Rightarrow> int + string) \<Rightarrow> nat \<Rightarrow> ('k, 'd) server \<Rightarrow> ('k, 'd) server outcome" where
  "on_read sys rv a s = deref a s (\<lambda>c.
     let fd = cn_fd c in
     and_then (check_fd_and_match_id a s) (\<lambda>ok.
       if \<not> ok then Inr s
       else and_then (conn_read (sv_et s) (sy_mem sys) rv 0 c) (\<lambda>(ret, err, c1).
         let s1 = store_conn a c1 s in
         if ret = 0 then close_conn sys a s1
         else if ret < 0 then
           and_then (if err = EAGAIN then rearm sys a fd EPOLLIN True s1 else Inr s1) (handle_read_error sys a)
         else on_process sys a s1)))"

definition on_write ::
  "('k, 'd) sys \<Rightarrow> (nat \<Rightarrow> string \<Rightarrow> int + nat) \<Rightarrow> nat \<Rightarrow> ('k, 'd) server \<Rightarrow> (('k, 'd) server \<times> string) outcome" where
  "on_write sys wv a s = deref a s (\<lambda>c.
     let fd = cn_fd c in
     and_then (check_fd_and_match_id a s) (\<lambda>ok.
       if \<not> ok then Inr (s, [])
       else and_then (conn_write (sv_et s) (fc_maps (cw_cache (sv_world s))) wv 0 c) (\<lambda>(r, err, c1, sent).
         let ret = to_int32 r in
         and_then (extent_time sys a (store_conn a c1 s)) (\<lambda>s1.
         and_then
           (if to_write_bytes c1 = 0 then (if request_keep_alive (cn_request c1) then on_process sys a s1 else close_conn sys a s1)
            else if ret < 0 then
              (if err = EAGAIN then rearm sys a fd (sv_conn_event s1 OR EPOLLOUT) False s1 else close_conn sys a s1)
            else if 0 < to_write_bytes c1 then rearm sys a fd (sv_conn_event s1 OR EPOLLOUT) False s1
            else Inr s1) (\<lambda>s2. Inr (s2, sent))))))"

section \<open>The reactor\<close>

definition queue_task :: "sv_task \<Rightarrow> ('k, 'd) server \<Rightarrow> ('k, 'd) server" where
  "queue_task t s = s\<lparr>sv_pool := add_task t (sv_pool s)\<rparr>"

definition deal_read :: "('k, 'd) sys \<Rightarrow> nat \<Rightarrow> ('k, 'd) server \<Rightarrow> ('k, 'd) server outcome" where
  "deal_read sys a s = deref a s (\<lambda>c.
     cpp_assert (0 < cn_fd c)
       (if cn_fd c \<le> 0 then Inr s
        else if sv_users s (cn_fd c) = None then Inr s
        else and_then (extent_time sys a s) (\<lambda>s1. Inr (queue_task (Read_task a) s1))))"

definition deal_write :: "('k, 'd) sys \<Rightarrow> nat \<Rightarrow> ('k, 'd) server \<Rightarrow> ('k, 'd) server outcome" where
  "deal_write sys a s = deref a s (\<lambda>c.
     if cn_fd c \<le> 0 then Inr s
     else if sv_users s (cn_fd c) = None then Inr s
     else and_then (extent_time sys a s) (\<lambda>s1. Inr (queue_task (Write_task a) s1)))"

text \<open>One event of the loop of \<open>Run\<close>; the table is read with \<open>_users[fd]\<close> and a null pointer fails the assertion.\<close>

definition handle_event ::
  "('k, 'd) sys \<Rightarrow> (int \<times> (32 word \<times> 16 word)) list \<Rightarrow> int \<times> 32 word \<Rightarrow> ('k, 'd) server \<Rightarrow> ('k, 'd) server outcome" where
  "handle_event sys fds e s = (case e of (fd, events) \<Rightarrow>
     if fd \<le> 0 \<or> MAX_FD < fd then Inr s
     else if fd = sv_listen_fd s then deal_listen sys fds s
     else
       let lookup = (\<lambda>f. case user_entry fd s of (info, s1) \<Rightarrow>
             (case ci_conn info of None \<Rightarrow> Inl Assertion_Failed | Some a \<Rightarrow> f a s1)) in
       if events AND (EPOLLRDHUP OR EPOLLHUP OR EPOLLERR) \<noteq> 0 then lookup (close_conn sys)
       else if events AND EPOLLIN \<noteq> 0 then lookup (deal_read sys)
       else if events AND EPOLLOUT \<noteq> 0 then lookup (deal_write sys)
       else Inr s)"

fun handle_events ::
  "('k, 'd) sys \<Rightarrow> (int \<times> (32 word \<times> 16 word)) list \<Rightarrow> (int \<times> 32 word) list \<Rightarrow> ('k, 'd) server \<Rightarrow> ('k, 'd) server outcome" where
  "handle_events sys fds [] s = Inr s"
| "handle_events sys fds (e # es) s = and_then (handle_event sys fds e s) (handle_events sys fds es)"

text \<open>
  One round of \<open>Run\<close>: the time to wait, which runs the due time-outs (\<open>clock\<close>, \<open>now'\<close> are the clock readings of the
  timer), then \<open>epoll_wait\<close> and its events. The first result is the time-out given to \<open>epoll_wait\<close>.
\<close>

definition run_round ::
  "('k, 'd) sys \<Rightarrow> (nat \<Rightarrow> int) \<Rightarrow> int \<Rightarrow> (nat \<Rightarrow> int + (int \<times> 32 word) list) \<Rightarrow> (int \<times> (32 word \<times> 16 word)) list
     \<Rightarrow> ('k, 'd) server \<Rightarrow> (int \<times> ('k, 'd) server) outcome" where
  "run_round sys clock now' answer fds s =
     (let (ms, s1) = (if 0 < sv_timeout_ms s then manager_next_tick clock now' (\<lambda>p. sy_now sys) (run_timeout sys) s else (-1, s)) in
      case sv_fault s1 of
        Some e \<Rightarrow> Inl e
      | None \<Rightarrow>
          (case epoll_wait answer (sv_epoller s1) of
             (n, e) \<Rightarrow>
               let s2 = s1\<lparr>sv_epoller := e\<rparr> in
               if n = 0 then Inr (ms, s2)
               else and_then (handle_events sys fds (take (nat n) (el_events e)) s2) (\<lambda>s3. Inr (ms, s3))))"

section \<open>Closing in the background\<close>

text \<open>
  \<open>closeConnAsync\<close> moves the entry out: \<open>ConnInfo\<close>'s assignment leaves a null pointer and the id \<open>-1\<close>. The body of
  \<open>_closeConnInternal\<close> gets a reference, so the connection dies with the task.
\<close>

definition close_conn_async :: "int \<Rightarrow> ('k, 'd) server \<Rightarrow> ('k, 'd) server" where
  "close_conn_async fd s =
     (case sv_users s fd of
        None \<Rightarrow> s
      | Some info \<Rightarrow> queue_task (Close_task fd (ci_conn info))
          (s\<lparr>sv_users := (sv_users s)(fd \<mapsto> info\<lparr>ci_conn := None, ci_id := size_lim - 1\<rparr>)\<rparr>))"

definition close_conn_internal :: "('k, 'd) sys \<Rightarrow> conn \<Rightarrow> ('k, 'd) server \<Rightarrow> ('k, 'd) server outcome" where
  "close_conn_internal sys c s =
     cpp_assert (0 < cn_fd c)
       (cpp_assert (0 < cn_id c)
         (let s1 = (if 0 < sv_timeout_ms s then cancel_by_key (to_int32 (int (cn_id c))) s else s) in
          and_then (del_fd (sy_ctl sys) (cn_fd c) (sv_kernel s1)) (\<lambda>(ok, k).
            Inr (close_fd (cn_fd c) (s1\<lparr>sv_kernel := k\<rparr>)))))"

definition run_close_task :: "('k, 'd) sys \<Rightarrow> int \<Rightarrow> nat option \<Rightarrow> ('k, 'd) server \<Rightarrow> ('k, 'd) server outcome" where
  "run_close_task sys fd p s =
     (case p of
        None \<Rightarrow> Inl Undefined_Behaviour
      | Some a \<Rightarrow> deref a s (\<lambda>c.
          and_then (close_conn_internal sys c s) (\<lambda>s1.
          and_then (erase_user fd s1) (\<lambda>s2.
          and_then (conn_destroy (c, sv_world s2)) (\<lambda>w.
            Inr (s2\<lparr>sv_conns := (sv_conns s2)(a := None), sv_world := w\<rparr>))))))"

text \<open>A task of the pool; \<open>rv\<close> and \<open>wv\<close> are the kernel's answers to \<open>readv\<close> and \<open>writev\<close>.\<close>

fun run_pool_task ::
  "('k, 'd) sys \<Rightarrow> (nat \<Rightarrow> nat \<Rightarrow> int + string) \<Rightarrow> (nat \<Rightarrow> string \<Rightarrow> int + nat) \<Rightarrow> sv_task \<Rightarrow> ('k, 'd) server
     \<Rightarrow> (('k, 'd) server \<times> string) outcome" where
  "run_pool_task sys rv wv (Read_task a) s = and_then (on_read sys rv a s) (\<lambda>s1. Inr (s1, []))"
| "run_pool_task sys rv wv (Write_task a) s = on_write sys wv a s"
| "run_pool_task sys rv wv (Close_task fd p) s = and_then (run_close_task sys fd p s) (\<lambda>s1. Inr (s1, []))"

section \<open>Construction and shutdown\<close>

text \<open>What the socket calls of \<open>initSocket\<close> answer.\<close>

record socket_api =
  so_socket :: int
  so_linger :: "int \<times> int \<Rightarrow> bool"
  so_reuse :: bool
  so_bind :: "int \<Rightarrow> bool"
  so_listen :: bool

definition init_socket ::
  "('k, 'd) sys \<Rightarrow> socket_api \<Rightarrow> int \<Rightarrow> bool \<Rightarrow> ('k, 'd) server \<Rightarrow> (bool \<times> ('k, 'd) server) outcome" where
  "init_socket sys api port open_linger s =
     (if 65535 < port \<or> port < 1024 then Inr (False, s)
      else
        let fd = so_socket api; s1 = s\<lparr>sv_listen_fd := fd\<rparr>; linger = (if open_linger then (1, 1) else (0, 0)) in
        if fd < 0 then Inr (False, s1)
        else if \<not> so_linger api linger then Inr (False, close_fd fd s1)
        else if \<not> so_reuse api then Inr (False, close_fd fd s1)
        else if \<not> so_bind api port then Inr (False, close_fd fd s1)
        else if \<not> so_listen api then Inr (False, close_fd fd s1)
        else case add_fd (sy_ctl sys) (sv_epoller s1) fd (sv_listen_event s1 OR EPOLLIN) (sv_kernel s1) of
          (ok, k) \<Rightarrow>
            let s2 = s1\<lparr>sv_kernel := k\<rparr> in
            if \<not> ok then Inr (False, close_fd fd s2)
            else and_then (set_fd_non_block sys fd) (\<lambda>r. Inr (True, s2)))"

text \<open>
  What the constructor uses besides: \<open>epoll_create\<close>, the MySQL client, \<open>getcwd\<close>, the logger and the configuration.
\<close>

record server_setup =
  su_epoll_fd :: int
  su_sockets :: socket_api
  su_minit :: "nat \<Rightarrow> nat option"
  su_mconn :: "nat \<Rightarrow> nat option"
  su_cwd :: "string option"
  su_log :: log_env
  su_config :: config

definition blank_server :: "int \<Rightarrow> sv_task pool \<Rightarrow> epoller \<Rightarrow> 'k \<Rightarrow> sql_pool \<times> 'd \<Rightarrow> ('k, 'd) server" where
  "blank_server timeout p e k db =
     timer_manager.extend new_manager
       \<lparr>sv_timeout_ms = timeout, sv_closed = False, sv_listen_fd = 0, sv_listen_event = 0, sv_conn_event = 0, sv_et = False,
        sv_next_id = 1, sv_users = Map.empty, sv_conns = Map.empty, sv_fresh = 0,
        sv_world = \<lparr>cw_users = 0, cw_closed = [], cw_cache = new_cache\<rparr>, sv_epoller = e, sv_kernel = k,
        sv_pool = p, sv_db = db, sv_fault = None\<rparr>"

text \<open>
  The constructor; its results are the server, the logger and \<open>Conn::staticDir\<close>. Its \<open>std::runtime_error\<close> is
  \<open>System_Error\<close>; when \<open>getcwd\<close> fails, the uninitialised buffer is read.
\<close>

definition new_server ::
  "('k, 'd) sys \<Rightarrow> server_setup \<Rightarrow> int \<Rightarrow> int \<Rightarrow> int \<Rightarrow> bool \<Rightarrow> int \<Rightarrow> nat \<Rightarrow> 'k \<Rightarrow> sql_pool \<times> 'd \<Rightarrow> logger
     \<Rightarrow> (('k, 'd) server \<times> logger \<times> string) outcome" where
  "new_server sys su port trig timeout linger conn_pool_num thread_num k db lg =
     and_then (new_pool thread_num) (\<lambda>p.
     and_then (new_epoller (su_epoll_fd su) N_MAX_EVENT True) (\<lambda>e.
     and_then (log_init (su_log su) False lg) (\<lambda>lg1.
     case su_cwd su of
       None \<Rightarrow> Inl Undefined_Behaviour
     | Some cwd \<Rightarrow>
         (case init_event_mode trig of (listen, conn, et) \<Rightarrow>
            let s = (blank_server timeout p e k db)\<lparr>sv_listen_event := listen, sv_conn_event := conn, sv_et := et\<rparr> in
            and_then (init_socket sys (su_sockets su) port linger s) (\<lambda>(ok, s1).
              if \<not> ok then Inl System_Error
              else
                and_then (sql_init (su_minit su) (su_mconn su) conn_pool_num (fst (sv_db s1))) (\<lambda>pool.
                and_then (write_to_dir (su_log su) False (cwd @ ''/'' @ get_config (su_config su) ''log.dir'') lg1) (\<lambda>(wrote, lg2).
                  Inr (s1\<lparr>sv_db := (pool, snd (sv_db s1))\<rparr>, lg2, cwd @ ''/static''))))))))"

text \<open>
  \<open>NewServerFromConfig\<close>: \<open>None\<close> is the null pointer. \<open>int\<close> to \<open>size_t\<close> for the number of threads wraps.
\<close>

definition server_from_config ::
  "('k, 'd) sys \<Rightarrow> server_setup \<Rightarrow> (string \<Rightarrow> config_file) \<Rightarrow> string \<Rightarrow> config \<Rightarrow> 'k \<Rightarrow> sql_pool \<times> 'd \<Rightarrow> logger
     \<Rightarrow> (('k, 'd) server \<times> logger \<times> string) option outcome" where
  "server_from_config sys su fs path cfg k db lg =
     (case config_init fs path cfg of
        (ok, cfg1) \<Rightarrow>
          if \<not> ok then Inr None
          else
            let num = (\<lambda>key. to_int32 (atoi (get_config cfg1 key))) in
            and_then (new_server sys (su\<lparr>su_config := cfg1\<rparr>) (num ''app.port'') (num ''app.trig'') (num ''app.timeout'') False
                        (num ''mysql.poolSize'') (nat (num ''thread.poolSize'' mod int size_lim)) k db lg)
              (\<lambda>r. Inr (Some r)))"

text \<open>\<open>main\<close> calls \<open>Run\<close> through the pointer without looking at it.\<close>

definition main_prologue ::
  "('k, 'd) sys \<Rightarrow> server_setup \<Rightarrow> (string \<Rightarrow> config_file) \<Rightarrow> 'k \<Rightarrow> sql_pool \<times> 'd \<Rightarrow> logger
     \<Rightarrow> (('k, 'd) server \<times> logger \<times> string) outcome" where
  "main_prologue sys su fs k db lg =
     and_then (log_init (su_log su) False lg) (\<lambda>lg1.
     and_then (server_from_config sys su fs ''config.toml'' new_config k db lg1) (\<lambda>p.
       case p of None \<Rightarrow> Inl Undefined_Behaviour | Some r \<Rightarrow> Inr r))"

text \<open>What \<open>Stop\<close> has done when it comes to the logger.\<close>

definition halt_server :: "bool \<Rightarrow> ('k, 'd) server \<Rightarrow> ('k, 'd) server" where
  "halt_server close_ok s =
     (let s1 = close_fd (sv_listen_fd s) s;
          s2 = (if close_ok then s1 else s1\<lparr>sv_listen_fd := -1\<rparr>)
      in s2\<lparr>sv_db := (close_pool (fst (sv_db s2)), snd (sv_db s2)), sv_closed := True\<rparr>)"

definition stop_server :: "bool \<Rightarrow> ('k, 'd) server \<Rightarrow> logger \<Rightarrow> (('k, 'd) server \<times> logger) outcome" where
  "stop_server close_ok s lg =
     and_then (log_flush False lg) (\<lambda>lg1.
     and_then (log_shutdown False lg1) (\<lambda>lg2. Inr (halt_server close_ok s, lg2)))"

definition destroy_server :: "('k, 'd) server \<Rightarrow> logger \<Rightarrow> (('k, 'd) server \<times> logger) outcome" where
  "destroy_server s lg =
     (let s1 = (close_fd (sv_listen_fd s) s)\<lparr>sv_closed := True\<rparr>;
          s2 = s1\<lparr>sv_db := (close_pool (fst (sv_db s1)), snd (sv_db s1))\<rparr>
      in and_then (log_flush False lg) (\<lambda>lg1.
         and_then (log_shutdown False lg1) (\<lambda>lg2. Inr (s2, lg2))))"

end
