(* ===== verification/Server_Facts.thy ===== *)
theory Server_Facts
  imports Web_Server
begin

text \<open>
  What the server keeps: its table of connections is consistent after every history of reactor rounds and worker
  tasks. The first section says what the timers leave alone.
\<close>

section \<open>Framing of the timers\<close>

lemma sift_up_loop_more: "timer.more (sift_up_loop t i) = timer.more t"
proof (induction t i rule: sift_up_loop.induct)
  case (1 t i)
  then show ?case by (subst sift_up_loop.simps) (simp add: Let_def)
qed

lemma sift_down_loop_more: "timer.more (fst (sift_down_loop t i n)) = timer.more t"
proof (induction t i n rule: sift_down_loop.induct)
  case (1 t i n)
  then show ?case by (subst sift_down_loop.simps) (simp add: Let_def)
qed

lemma sift_up_more [simp]: "timer.more (sift_up t i) = timer.more t"
  by (simp add: sift_up_def sift_up_loop_more)

lemma sift_down_more: "sift_down t i n = (moved, t') \<Longrightarrow> timer.more t' = timer.more t"
  using sift_down_loop_more [of t i n] by (auto simp: sift_down_def split: prod.splits if_splits)

lemma sift_more [simp]: "timer.more (sift t i n) = timer.more t"
  by (auto simp: sift_def sift_down_more split: prod.split)

lemma del_at_more [simp]: "timer.more (del_at i t) = timer.more t"
  by (simp add: del_at_def Let_def)

lemma pop_timer_more [simp]: "timer.more (pop_timer t) = timer.more t"
  by (simp add: pop_timer_def)

lemma add_node_more: "add_node now i ms cb t = Inr t' \<Longrightarrow> timer.more t' = timer.more t"
  by (auto simp: add_node_def push_node_def Let_def split: option.splits if_splits)

text \<open>The part of the state that belongs to the server.\<close>

lemma more_of_more:
  fixes m m' :: "('u, 'z) timer_manager_scheme"
  assumes "timer.more m' = timer.more m"
  shows "timer_manager.more m' = timer_manager.more m"
  using same_more [OF assms] by simp

lemma pop_manager_more [simp]:
  fixes m :: "('u, 'z) timer_manager_scheme"
  shows "timer_manager.more (pop_timer m) = timer_manager.more m"
  by (rule more_of_more) simp

lemma cancel_by_key_more [simp]:
  fixes m :: "('u, 'z) timer_manager_scheme"
  shows "timer_manager.more (cancel_by_key k m) = timer_manager.more m"
proof -
  have "timer_manager.more (del_at i m) = timer_manager.more m" for i
    by (rule more_of_more) simp
  then show ?thesis by (simp add: cancel_by_key_def Let_def split: option.split)
qed

lemma add_node_manager_more:
  fixes m :: "('u, 'z) timer_manager_scheme"
  shows "add_node now i ms cb m = Inr m' \<Longrightarrow> timer_manager.more m' = timer_manager.more m"
  by (rule more_of_more) (rule add_node_more)

lemma schedule_with_key_more:
  fixes m :: "('u, 'z) timer_manager_scheme"
  assumes "schedule_with_key now k ms repeats u m = Inr m'"
  shows "timer_manager.more m' = timer_manager.more m"
  using assms
  by (auto simp: schedule_with_key_def do_schedule_with_key_def next_timer_id_def note_repeat_def
      dest!: add_node_manager_more split: if_splits)

lemma add_again_more [simp]:
  fixes m :: "('u, 'z) timer_manager_scheme"
  shows "timer_manager.more (add_again now i ms c m) = timer_manager.more m"
  by (auto simp: add_again_def dest: add_node_manager_more split: sum.split)

lemma repeat_task_more:
  fixes m :: "('u, 'z) timer_manager_scheme"
  assumes "\<And>m :: ('u, 'z) timer_manager_scheme. timer_manager.more (finish m) = timer_manager.more m"
  shows "timer_manager.more (repeat_task now i c m finish) = timer_manager.more m"
  by (simp add: repeat_task_def assms split: option.split prod.split)

lemma run_task_more:
  fixes m :: "('u, 'z) timer_manager_scheme"
  assumes "\<And>u m. P (timer_manager.more m) \<Longrightarrow> P (timer_manager.more (snd (user u m)))" "P (timer_manager.more m)"
  shows "P (timer_manager.more (run_task now user c m))"
  using assms
proof (cases c)
  case (Task i u)
  with assms(1) [of m u] assms(2) show ?thesis
    by (auto simp: repeat_task_more Let_def split: prod.split)
next
  case (Keyed_task i k u)
  obtain ok m1 where m1: "(if mg_key_id m k \<noteq> None then user u m else (True, m)) = (ok, m1)" by fastforce
  then have "P (timer_manager.more m1)" using assms(1) [of m u] assms(2) by (auto split: if_splits)
  with Keyed_task m1 show ?thesis by (auto simp: repeat_task_more Let_def)
qed

text \<open>What holds of the server's part before \<open>GetNextTick\<close> and is kept by the callbacks holds after it.\<close>

lemma tick_loop_more:
  fixes t :: "('u, 'z) timer_manager_scheme"
  assumes "\<And>u m. P (timer_manager.more m) \<Longrightarrow> P (timer_manager.more (snd (user u m)))" "P (timer_manager.more t)"
  shows "P (timer_manager.more (tick_loop clock (\<lambda>p. run_task (now p) user) p t))"
  using assms(2)
proof (induction clock "\<lambda>p. run_task (now p) user" p t rule: tick_loop.induct)
  case (1 clock p t)
  show ?case
  proof (cases "tm_heap t")
    case Nil
    with 1 show ?thesis by (subst tick_loop.simps) simp
  next
    case (Cons node ns)
    let ?t1 = "pop_timer t"
    let ?t2 = "case tn_callback node of None \<Rightarrow> ?t1 | Some c \<Rightarrow> run_task (now p) user c ?t1"
    have "P (timer_manager.more ?t1)" using "1.prems" by simp
    then have 2: "P (timer_manager.more ?t2)"
      using run_task_more [of P user ?t1, OF assms(1)] by (auto split: option.split)
    with 1 Cons show ?thesis by (subst tick_loop.simps) (simp add: Let_def)
  qed
qed

lemma next_tick_more:
  fixes m :: "('u, 'z) timer_manager_scheme"
  assumes "\<And>u m. P (timer_manager.more m) \<Longrightarrow> P (timer_manager.more (snd (user u m)))" "P (timer_manager.more m)"
    and "manager_next_tick clock now' now user m = (ms, m')"
  shows "P (timer_manager.more m')"
proof -
  have "m' = tick_loop clock (\<lambda>p. run_task (now p) user) 0 m"
    using assms(3) by (auto simp: manager_next_tick_def get_next_tick_def tick_def Let_def split: list.splits)
  with tick_loop_more [of P user, OF assms(1,2)] show ?thesis by simp
qed

section \<open>The table\<close>

text \<open>A connection in use: its entry, its object and its id agree.\<close>

definition live :: "(int \<rightharpoonup> conn_info) \<Rightarrow> (nat \<rightharpoonup> conn) \<Rightarrow> nat \<Rightarrow> int \<Rightarrow> nat \<Rightarrow> conn \<Rightarrow> bool" where
  "live users conns next_id fd a c \<longleftrightarrow>
     (\<exists>info. users fd = Some info \<and> ci_conn info = Some a \<and> conns a = Some c \<and> cn_id c = ci_id info)
     \<and> cn_fd c = fd \<and> 0 < fd \<and> 0 < cn_id c \<and> cn_id c < next_id \<and> \<not> cn_closed c"

definition table_inv :: "(int \<rightharpoonup> conn_info) \<Rightarrow> (nat \<rightharpoonup> conn) \<Rightarrow> nat \<Rightarrow> nat \<Rightarrow> int \<Rightarrow> bool" where
  "table_inv users conns fresh next_id number \<longleftrightarrow>
     (\<forall>fd info a. users fd = Some info \<longrightarrow> ci_conn info = Some a \<longrightarrow> (\<exists>c. live users conns next_id fd a c))
     \<and> (\<forall>a c. conns a = Some c \<longrightarrow> a < fresh \<and> live users conns next_id (cn_fd c) a c)
     \<and> (\<forall>a a' c c'. conns a = Some c \<longrightarrow> conns a' = Some c' \<longrightarrow> cn_id c = cn_id c' \<longrightarrow> a = a')
     \<and> finite (dom conns) \<and> number = int (card (dom conns)) \<and> 0 < next_id"

lemma table_invI:
  assumes "\<And>fd info a. users fd = Some info \<Longrightarrow> ci_conn info = Some a \<Longrightarrow> \<exists>c. live users conns next_id fd a c"
    and "\<And>a c. conns a = Some c \<Longrightarrow> a < fresh \<and> live users conns next_id (cn_fd c) a c"
    and "\<And>a a' c c'. conns a = Some c \<Longrightarrow> conns a' = Some c' \<Longrightarrow> cn_id c = cn_id c' \<Longrightarrow> a = a'"
    and "finite (dom conns)" "number = int (card (dom conns))" "0 < next_id"
  shows "table_inv users conns fresh next_id number"
  using assms unfolding table_inv_def by blast

lemma table_invD:
  assumes "table_inv users conns fresh next_id number"
  shows "users fd = Some info \<Longrightarrow> ci_conn info = Some a \<Longrightarrow> \<exists>c. live users conns next_id fd a c"
    and "conns a = Some c \<Longrightarrow> a < fresh \<and> live users conns next_id (cn_fd c) a c"
    and "conns a = Some c \<Longrightarrow> conns a' = Some c' \<Longrightarrow> cn_id c = cn_id c' \<Longrightarrow> a = a'"
    and "finite (dom conns)" "number = int (card (dom conns))" "0 < next_id"
proof -
  note T = assms [unfolded table_inv_def]
  note 1 = conjunct1 [OF T] and 2 = conjunct2 [OF T, THEN conjunct1]
    and 3 = conjunct2 [OF T, THEN conjunct2, THEN conjunct1]
    and 4 = conjunct2 [OF T, THEN conjunct2, THEN conjunct2]
  show "users fd = Some info \<Longrightarrow> ci_conn info = Some a \<Longrightarrow> \<exists>c. live users conns next_id fd a c"
    using 1 by iprover
  show "conns a = Some c \<Longrightarrow> a < fresh \<and> live users conns next_id (cn_fd c) a c"
    using 2 by iprover
  show "conns a = Some c \<Longrightarrow> conns a' = Some c' \<Longrightarrow> cn_id c = cn_id c' \<Longrightarrow> a = a'"
    using 3 by iprover
  show "finite (dom conns)" "number = int (card (dom conns))" "0 < next_id"
    by (rule conjunct1 [OF 4], rule conjunct2 [OF 4, THEN conjunct1], rule conjunct2 [OF 4, THEN conjunct2])
qed

lemma table_store:
  assumes T: "table_inv users conns fresh n k" and c: "conns a = Some c"
    and same: "cn_fd c1 = cn_fd c" "cn_id c1 = cn_id c" "cn_closed c1 = cn_closed c"
  shows "table_inv users (conns(a \<mapsto> c1)) fresh n k"
proof (rule table_invI)
  note D = table_invD [OF T]
  have dom: "dom (conns(a \<mapsto> c1)) = dom conns" using c by auto
  show "finite (dom (conns(a \<mapsto> c1)))" "k = int (card (dom (conns(a \<mapsto> c1))))" "0 < n"
    using D(4-6) unfolding dom by auto
  show "\<exists>c. live users (conns(a \<mapsto> c1)) n fd b c" if "users fd = Some info" "ci_conn info = Some b" for fd info b
    using D(1) [OF that] c same by (auto simp: live_def)
  show "b < fresh \<and> live users (conns(a \<mapsto> c1)) n (cn_fd d) b d" if "(conns(a \<mapsto> c1)) b = Some d" for b d
  proof (cases "b = a")
    case True
    with that D(2) [OF c] c same show ?thesis by (auto simp: live_def)
  next
    case False
    with that have "conns b = Some d" by simp
    from D(2) [OF this] False show ?thesis by (simp add: live_def)
  qed
  show "b = b'" if "(conns(a \<mapsto> c1)) b = Some d" "(conns(a \<mapsto> c1)) b' = Some d'" "cn_id d = cn_id d'" for b b' d d'
    using that D(3) c same by (auto split: if_splits)
qed

lemma table_erase:
  assumes T: "table_inv users conns fresh n k" and u: "users fd = Some info" "ci_conn info = Some a"
  shows "table_inv (users(fd := None)) (conns(a := None)) fresh n (k - 1)"
proof (rule table_invI)
  note D = table_invD [OF T]
  from D(1) [OF u] obtain c where c: "live users conns n fd a c" by blast
  with u have ca: "conns a = Some c" "cn_fd c = fd" by (auto simp: live_def)
  show "finite (dom (conns(a := None)))" using D(4) by simp
  show "k - 1 = int (card (dom (conns(a := None))))"
    using D(4,5) ca(1) by (simp add: card_Diff_singleton domI) (metis card_0_eq domIff empty_iff
      of_nat_diff of_nat_1 One_nat_def Suc_leI neq0_conv option.distinct(1))
  show "0 < n" by (rule D(6))
  show "\<exists>c. live (users(fd := None)) (conns(a := None)) n fd' b c"
    if h: "(users(fd := None)) fd' = Some info'" "ci_conn info' = Some b" for fd' info' b
  proof -
    from h have "users fd' = Some info'" "fd' \<noteq> fd" by (auto split: if_splits)
    with D(1) [OF this(1) h(2)] ca show ?thesis by (auto simp: live_def)
  qed
  show "b < fresh \<and> live (users(fd := None)) (conns(a := None)) n (cn_fd d) b d" if h: "(conns(a := None)) b = Some d" for b d
  proof -
    from h have b: "conns b = Some d" "b \<noteq> a" by (auto split: if_splits)
    with D(2) [OF b(1)] u show ?thesis by (auto simp: live_def)
  qed
  show "b = b'" if "(conns(a := None)) b = Some d" "(conns(a := None)) b' = Some d'" "cn_id d = cn_id d'" for b b' d d'
    using that D(3) by (auto split: if_splits)
qed

lemma table_null:
  assumes T: "table_inv users conns fresh n k" and u: "\<And>info. users fd = Some info \<Longrightarrow> ci_conn info = None"
    and v: "\<And>info. v = Some info \<Longrightarrow> ci_conn info = None"
  shows "table_inv (users(fd := v)) conns fresh n k"
proof (rule table_invI)
  note D = table_invD [OF T]
  show "\<exists>c. live (users(fd := v)) conns n fd' b c" if "(users(fd := v)) fd' = Some info" "ci_conn info = Some b" for fd' info b
    using that D(1) [of fd' info b] v by (auto simp: live_def split: if_splits)
  show "b < fresh \<and> live (users(fd := v)) conns n (cn_fd d) b d" if "conns b = Some d" for b d
    using D(2) [OF that] u by (auto simp: live_def)
qed (use table_invD [OF T] in blast)+

lemma table_new:
  assumes T: "table_inv users conns fresh n k" and u: "\<And>info. users fd = Some info \<Longrightarrow> ci_conn info = None"
    and c: "cn_fd c = fd" "cn_id c = n" "\<not> cn_closed c" "0 < fd"
  shows "table_inv (users(fd \<mapsto> \<lparr>ci_conn = Some fresh, ci_id = n, ci_active = b\<rparr>)) (conns(fresh \<mapsto> c)) (fresh + 1) (n + 1) (k + 1)"
proof (rule table_invI)
  note D = table_invD [OF T]
  have new: "conns fresh = None" using D(2) [of fresh] by (cases "conns fresh") auto
  have small: "cn_id d < n" if "conns x = Some d" for x d using D(2) [OF that] by (auto simp: live_def)
  let ?u = "users(fd \<mapsto> \<lparr>ci_conn = Some fresh, ci_id = n, ci_active = b\<rparr>)" and ?c = "conns(fresh \<mapsto> c)"
  show "finite (dom ?c)" "0 < n + 1" using D(4) by simp_all
  show "k + 1 = int (card (dom ?c))" using D(4,5) new by (simp add: card_insert_disjoint domIff)
  show "\<exists>d. live ?u ?c (n + 1) fd' x d" if h: "?u fd' = Some info" "ci_conn info = Some x" for fd' info x
  proof (cases "fd' = fd")
    case True
    with h c D(6) show ?thesis by (auto simp: live_def)
  next
    case False
    with h D(1) [of fd' info x] new show ?thesis by (auto simp: live_def)
  qed
  show "x < fresh + 1 \<and> live ?u ?c (n + 1) (cn_fd d) x d" if h: "?c x = Some d" for x d
  proof (cases "x = fresh")
    case True
    with h c D(6) show ?thesis by (auto simp: live_def)
  next
    case False
    with h D(2) [of x d] u show ?thesis by (auto simp: live_def)
  qed
  show "x = x'" if "?c x = Some d" "?c x' = Some d'" "cn_id d = cn_id d'" for x x' d d'
    using that D(3) [of x d x' d'] small c by (fastforce split: if_splits)
qed

lemma table_mono:
  assumes T: "table_inv users conns fresh n k" and le: "n \<le> n'"
  shows "table_inv users conns fresh n' k"
proof (rule table_invI)
  note D = table_invD [OF T]
  have live: "live users conns n' fd a c" if "live users conns n fd a c" for fd a c
    using that le by (auto simp: live_def)
  show "\<exists>c. live users conns n' fd a c" if "users fd = Some info" "ci_conn info = Some a" for fd info a
    using D(1) [OF that] live by blast
  show "a < fresh \<and> live users conns n' (cn_fd c) a c" if "conns a = Some c" for a c
    using D(2) [OF that] live by blast
  show "0 < n'" using D(6) le by simp
qed (use table_invD [OF T] in blast)+

section \<open>Handlers keep the table\<close>

definition server_inv :: "('k, 'd) server \<Rightarrow> bool" where
  "server_inv s \<longleftrightarrow> table_inv (sv_users s) (sv_conns s) (sv_fresh s) (sv_next_id s) (cw_users (sv_world s))"

lemma server_fields:
  fixes s s' :: "('k, 'd) server"
  assumes "timer_manager.more s' = timer_manager.more s"
  shows "sv_timeout_ms s' = sv_timeout_ms s" "sv_closed s' = sv_closed s" "sv_listen_fd s' = sv_listen_fd s"
    "sv_listen_event s' = sv_listen_event s" "sv_conn_event s' = sv_conn_event s" "sv_et s' = sv_et s"
    "sv_next_id s' = sv_next_id s" "sv_users s' = sv_users s" "sv_conns s' = sv_conns s" "sv_fresh s' = sv_fresh s"
    "sv_world s' = sv_world s" "sv_epoller s' = sv_epoller s" "sv_kernel s' = sv_kernel s" "sv_pool s' = sv_pool s"
    "sv_db s' = sv_db s" "sv_fault s' = sv_fault s"
  using assms by (cases s; cases s'; simp)+

lemma server_inv_more:
  fixes s s' :: "('k, 'd) server"
  shows "timer_manager.more s' = timer_manager.more s \<Longrightarrow> server_inv s' = server_inv s"
  using server_fields [of s' s] by (simp add: server_inv_def)

lemma server_inv_fields [simp]:
  "server_inv (s\<lparr>sv_kernel := k\<rparr>) = server_inv s" "server_inv (s\<lparr>sv_fault := e\<rparr>) = server_inv s"
  "server_inv (s\<lparr>sv_epoller := ep\<rparr>) = server_inv s" "server_inv (queue_task t s) = server_inv s"
  "server_inv (close_fd fd s) = server_inv s" "server_inv (s\<lparr>sv_pool := p\<rparr>) = server_inv s"
  by (simp_all add: server_inv_def queue_task_def close_fd_def)

lemma deref_Inr [simp]: "deref a s f = Inr r \<longleftrightarrow> (\<exists>c. sv_conns s a = Some c \<and> f c = Inr r)"
  by (auto simp: deref_def split: option.split)

lemma server_inv_live:
  assumes "server_inv s" "sv_conns s a = Some c"
  shows "live (sv_users s) (sv_conns s) (sv_next_id s) (cn_fd c) a c"
  using table_invD(2) [OF assms(1) [unfolded server_inv_def] assms(2)] by simp

lemma store_conn_inv:
  assumes "server_inv s" "sv_conns s a = Some c" "cn_fd c1 = cn_fd c" "cn_id c1 = cn_id c" "cn_closed c1 = cn_closed c"
  shows "server_inv (store_conn a c1 s)"
  using table_store [OF assms(1) [unfolded server_inv_def] assms(2-5)] by (simp add: server_inv_def store_conn_def)

text \<open>Erasing an entry: the object dies with it, and the count goes down.\<close>

lemma erase_user_cases:
  assumes "server_inv s" "erase_user fd s = Inr s'"
  shows "server_inv s' \<and> sv_users s' = (sv_users s)(fd := None) \<and> timer_manager.truncate s' = timer_manager.truncate s
     \<and> (case sv_users s fd of
          None \<Rightarrow> s' = s
        | Some info \<Rightarrow> (case ci_conn info of
            None \<Rightarrow> sv_conns s' = sv_conns s \<and> sv_world s' = sv_world s
          | Some a \<Rightarrow> sv_conns s' = (sv_conns s)(a := None)
              \<and> cw_users (sv_world s') = cw_users (sv_world s) - 1
              \<and> cw_closed (sv_world s') = fd # cw_closed (sv_world s)))"
proof (cases "sv_users s fd")
  case None
  with assms show ?thesis by (auto simp: erase_user_def)
next
  case (Some info)
  show ?thesis
  proof (cases "ci_conn info")
    case None
    with assms Some table_null [OF assms(1) [unfolded server_inv_def], of fd None] show ?thesis
      by (auto simp: erase_user_def server_inv_def timer_manager.truncate_def)
  next
    case (Some a)
    note inv = assms(1) [unfolded server_inv_def]
    from table_invD(1) [OF inv \<open>sv_users s fd = Some info\<close> Some] obtain c where
      "live (sv_users s) (sv_conns s) (sv_next_id s) fd a c" by blast
    with \<open>sv_users s fd = Some info\<close> Some have c: "sv_conns s a = Some c" "cn_fd c = fd" "\<not> cn_closed c"
      by (auto simp: live_def)
    from assms(2) \<open>sv_users s fd = Some info\<close> Some c obtain w where
      w: "conn_destroy (c, sv_world s) = Inr w"
        "s' = s\<lparr>sv_users := (sv_users s)(fd := None), sv_conns := (sv_conns s)(a := None), sv_world := w\<rparr>"
      by (auto simp: erase_user_def deref_def)
    from conn_destroy_cases [OF w(1)] c have
      "cw_users w = cw_users (sv_world s) - 1" "cw_closed w = fd # cw_closed (sv_world s)" by simp_all
    with table_erase [OF inv \<open>sv_users s fd = Some info\<close> Some] Some w(2) \<open>sv_users s fd = Some info\<close> show ?thesis
      by (simp add: server_inv_def timer_manager.truncate_def)
  qed
qed

lemma erase_user_marked:
  "sv_users s fd = Some info \<Longrightarrow>
   erase_user fd (s\<lparr>sv_users := (sv_users s)(fd \<mapsto> info\<lparr>ci_active := False, ci_id := 0\<rparr>)\<rparr>) = erase_user fd s"
  by (simp add: erase_user_def deref_def split: option.split)

lemma del_fd_ok: "0 \<le> fd \<Longrightarrow> del_fd ctl fd k = Inr (ctl CTL_DEL fd 0 k)"
  by (simp add: del_fd_def)

text \<open>\<open>closeConn\<close> on a live pointer removes the connection and takes it out of epoll.\<close>

lemma close_conn_erases:
  assumes "server_inv s" "sv_conns s a = Some c"
  shows "close_conn sys a s =
    (if MAX_FD < cn_fd c then erase_user (cn_fd c) s
     else erase_user (cn_fd c) (s\<lparr>sv_kernel := snd (sy_ctl sys CTL_DEL (cn_fd c) 0 (sv_kernel s))\<rparr>))"
proof -
  from server_inv_live [OF assms] obtain info where
    l: "sv_users s (cn_fd c) = Some info" "0 < cn_fd c" "0 < cn_id c" by (auto simp: live_def)
  let ?s = "s\<lparr>sv_kernel := snd (sy_ctl sys CTL_DEL (cn_fd c) 0 (sv_kernel s))\<rparr>"
  from erase_user_marked [of ?s "cn_fd c" info] l assms(2) show ?thesis
    by (cases "sy_ctl sys CTL_DEL (cn_fd c) 0 (sv_kernel s)") (simp add: close_conn_def deref_def del_fd_ok Let_def)
qed

lemma close_conn_inv:
  assumes "close_conn sys a s = Inr s'" "server_inv s"
  shows "server_inv s'"
proof -
  from assms(1) obtain c where c: "sv_conns s a = Some c" by (auto simp: close_conn_def)
  from assms(1) show ?thesis
    unfolding close_conn_erases [OF assms(2) c]
    using erase_user_cases [of s "cn_fd c" s'] assms(2)
      erase_user_cases [of "s\<lparr>sv_kernel := snd (sy_ctl sys CTL_DEL (cn_fd c) 0 (sv_kernel s))\<rparr>" "cn_fd c" s']
    by (simp split: if_splits)
qed

lemma user_entry_inv:
  assumes "user_entry fd s = (info, s')" "server_inv s"
  shows "server_inv s' \<and> sv_conns s' = sv_conns s \<and> sv_users s' fd = Some info"
  using assms table_null [OF assms(2) [unfolded server_inv_def], of fd "Some default_info"]
  by (auto simp: user_entry_def server_inv_def default_info_def split: option.splits)

lemma timeout_body_inv:
  assumes "timeout_body sys t s = Inr s'" "server_inv s"
  shows "server_inv s'"
proof (cases t)
  case (On_add fd i)
  with assms show ?thesis by (auto dest: close_conn_inv split: option.splits if_splits)
next
  case (On_extend fd i)
  obtain info s1 where e: "user_entry fd s = (info, s1)" by fastforce
  from user_entry_inv [OF e assms(2)] assms On_extend e show ?thesis
    by (auto dest: close_conn_inv split: option.splits if_splits)
qed

lemma run_timeout_inv: "server_inv s \<Longrightarrow> server_inv (snd (run_timeout sys t s))"
  by (auto simp: run_timeout_def dest: timeout_body_inv split: sum.split)

lemma extent_time_inv:
  assumes "extent_time sys a s = Inr s'" "server_inv s"
  shows "server_inv s' \<and> sv_conns s' = sv_conns s \<and> sv_users s' = sv_users s"
proof -
  have "timer_manager.more s' = timer_manager.more s"
    using assms(1) by (auto simp: extent_time_def Let_def dest: schedule_with_key_more split: option.splits if_splits)
  from server_inv_more [OF this] server_fields [OF this] assms(2) show ?thesis by simp
qed

lemma make_client_inv:
  assumes "make_client sys fd addr (sv_next_id s) (s\<lparr>sv_next_id := sv_next_id s + 1\<rparr>) = Inr (held, s')"
    and "server_inv s" "0 < fd"
  shows "server_inv s'"
proof -
  note inv = assms(2) [unfolded server_inv_def]
  have free: "sv_users s fd = None" using assms(1) by (simp add: make_client_def)
  have zombie: "table_inv ((sv_users s)(fd \<mapsto> default_info)) (sv_conns s) (sv_fresh s) (sv_next_id s + 1) (cw_users (sv_world s))"
    by (rule table_mono [OF table_null [OF inv]]) (simp_all add: free default_info_def)
  show ?thesis
  proof (cases "new_conn (sy_mem sys)")
    case (Inl e)
    with assms(1) zombie free show ?thesis
      by (auto simp: make_client_def server_inv_def Let_def split: if_splits)
  next
    case (Inr c0)
    then have c0: "cn_closed c0" by (auto simp: new_conn_def)
    let ?c = "(set_conn_id (sv_next_id s) c0)\<lparr>cn_addr := addr, cn_fd := fd, cn_write := retrieve_all (cn_write c0),
               cn_read := retrieve_all (cn_read c0), cn_closed := False\<rparr>"
    have new: "table_inv ((sv_users s)(fd \<mapsto> \<lparr>ci_conn = Some (sv_fresh s), ci_id = sv_next_id s, ci_active = True\<rparr>))
        ((sv_conns s)(sv_fresh s \<mapsto> ?c)) (sv_fresh s + 1) (sv_next_id s + 1) (cw_users (sv_world s) + 1)"
      by (rule table_new [OF inv]) (simp_all add: free set_conn_id_def assms(3))
    from assms(1) Inr free assms(3) have "s' = s\<lparr>sv_next_id := sv_next_id s + 1,
        sv_world := (sv_world s)\<lparr>cw_users := cw_users (sv_world s) + 1\<rparr>, sv_fresh := sv_fresh s + 1,
        sv_conns := (sv_conns s)(sv_fresh s \<mapsto> ?c),
        sv_users := (sv_users s)(fd \<mapsto> \<lparr>ci_conn = Some (sv_fresh s), ci_id = sv_next_id s, ci_active = True\<rparr>)\<rparr>"
      by (simp add: make_client_def conn_init_def default_info_def set_conn_id_def Let_def)
    with new show ?thesis by (simp add: server_inv_def)
  qed
qed

lemma drop_client_inv:
  "drop_client held fd s = Inr s' \<Longrightarrow> server_inv s \<Longrightarrow> server_inv s'"
  by (auto simp: drop_client_def dest: erase_user_cases split: if_splits)

section \<open>The connection functions keep the identity\<close>

definition same_conn :: "conn \<Rightarrow> conn \<Rightarrow> bool" where
  "same_conn c c1 \<longleftrightarrow> cn_fd c1 = cn_fd c \<and> cn_id c1 = cn_id c \<and> cn_closed c1 = cn_closed c"

lemma set_iov_same [simp]:
  "cn_fd (set_iov c) = cn_fd c" "cn_id (set_iov c) = cn_id c" "cn_closed (set_iov c) = cn_closed c"
  "cn_read (set_iov c) = cn_read c" "cn_request (set_iov c) = cn_request c" "cn_response (set_iov c) = cn_response c"
  "cn_write (set_iov c) = cn_write c"
  by (simp_all add: set_iov_def Let_def split: option.split)

lemma conn_process_same:
  "conn_process env (c, fc, db) = Inr (r, c1, fc1, db1) \<Longrightarrow> same_conn c c1"
proof -
  assume run: "conn_process env (c, fc, db) = Inr (r, c1, fc1, db1)"
  show ?thesis
  proof (cases "readable_bytes (cn_read c) = 0")
    case True
    with run show ?thesis by (simp add: conn_process_def same_conn_def)
  next
    case False
    with run obtain ok rq rb db2 rs fc2 where
      p: "request_parse (pe_regex env) (pe_mysql env) request_init (cn_read c) db = Inr (ok, rq, rb, db2)"
      and i: "(if ok then response_init (pe_dir env) (req_path rq) (request_keep_alive rq) 200 (unmap_file (cn_response c, fc))
          else response_init (pe_dir env) (req_path rq) False 400 (unmap_file (cn_response c, fc))) = Inr (rs, fc2)"
      by (simp add: conn_process_def) fastforce
    obtain e rs2 fc3 wb where mr: "make_response (pe_mem env) (pe_os env) (pe_now1 env) (pe_now2 env) (rs, fc2, cn_write c)
        = (e, rs2, fc3, wb)" by (metis prod_cases4)
    have "c1 = c\<lparr>cn_request := rq, cn_read := rb, cn_response := rs2, cn_write := wb\<rparr>
        \<or> c1 = set_iov (c\<lparr>cn_request := rq, cn_read := rb, cn_response := rs2, cn_write := wb\<rparr>)"
      using run False unfolding conn_process_def
      by (simp add: p i mr Let_def split: option.splits if_splits)
    then show ?thesis by (auto simp: same_conn_def)
  qed
qed

lemma read_loop_same: "read_loop et mem rv it n e c = Inr (r, e', c1) \<Longrightarrow> same_conn c c1"
proof (induction et mem rv it n e c rule: read_loop.induct)
  case (1 et mem rv it n e c)
  show ?case
  proof (cases "read_fd mem (rv it) e (cn_read c)")
    case (Inl err)
    with "1.prems" show ?thesis by (subst (asm) read_loop.simps) simp
  next
    case (Inr res)
    obtain len err b where res: "res = (len, err, b)" by (cases res)
    from "1.prems" show ?thesis
      using "1.IH" [OF Inr, of len "(err, b)" err b "c\<lparr>cn_read := b\<rparr>"]
      by (subst (asm) read_loop.simps) (auto simp: Inr res Let_def same_conn_def split: if_splits)
  qed
qed

lemma advance_iov_same: "advance_iov c n = Inr c1 \<Longrightarrow> same_conn c c1"
  by (auto simp: advance_iov_def Let_def same_conn_def split: if_splits)

lemma write_loop_same: "write_loop et maps wv k left n e c = Inr (r, e', c1, t) \<Longrightarrow> same_conn c c1"
proof (induction left arbitrary: k n e c t r e' c1)
  case (Suc left)
  from Suc.prems obtain s where g: "gather (cn_write c) maps (take (cn_iov_cnt c) [cn_iov0 c, cn_iov1 c]) = Inr s"
    by (cases "gather (cn_write c) maps (take (cn_iov_cnt c) [cn_iov0 c, cn_iov1 c])") simp_all
  show ?case
  proof (cases "wv k s")
    case (Inl err)
    with Suc.prems g show ?thesis by (auto simp: same_conn_def split: if_splits)
  next
    case (Inr m)
    with Suc.prems g obtain c2 where c2: "advance_iov c m = Inr c2" by auto
    note adv = advance_iov_same [OF c2]
    show ?thesis
    proof (cases "to_write_bytes c2 = 0 \<or> \<not> et \<or> MAX_WRITE_PER_CALL < n + int m")
      case True
      with Suc.prems g Inr c2 adv show ?thesis by auto
    next
      case False
      with Suc.prems g Inr c2 obtain r2 e2 c3 t2 where
        "write_loop et maps wv (k + 1) left (n + int m) e c2 = Inr (r2, e2, c3, t2)" "c1 = c3"
        by (auto split: prod.splits)
      with Suc.IH adv show ?thesis by (auto simp: same_conn_def)
    qed
  qed
qed (simp add: same_conn_def)

lemma conn_write_same: "conn_write et maps wv e c = Inr (r, e', c1, t) \<Longrightarrow> same_conn c c1"
  by (auto simp: conn_write_def same_conn_def dest: write_loop_same [unfolded same_conn_def] split: if_splits)

lemma store_same_inv:
  assumes "server_inv s" "sv_conns s a = Some c" "same_conn c c1"
  shows "server_inv (store_conn a c1 s)"
  using store_conn_inv [OF assms(1,2)] assms(3) by (simp add: same_conn_def)

section \<open>The handlers of the pool\<close>

text \<open>
  A handler is made of a few steps on one connection \<open>a\<close>: storing it, telling the kernel, the cache and the database, setting
  its time-out and closing it. A relation that holds along each of them holds along the handler.
\<close>

locale handler_steps =
  fixes sys :: "('k, 'd) sys" and a :: nat and R :: "('k, 'd) server \<Rightarrow> ('k, 'd) server \<Rightarrow> bool"
  assumes same: "R s s"
    and chain: "R s s1 \<Longrightarrow> R s1 s2 \<Longrightarrow> R s s2"
    and store: "sv_conns s a = Some c \<Longrightarrow> same_conn c c1 \<Longrightarrow> R s (store_conn a c1 s)"
    and kernel: "mod_fd (sy_ctl sys) fd ev (sv_kernel s) = (ok, k) \<Longrightarrow> R s (s\<lparr>sv_kernel := k\<rparr>)"
    and shared: "R s (s\<lparr>sv_world := (sv_world s)\<lparr>cw_cache := fc\<rparr>, sv_db := db\<rparr>)"
    and close: "close_conn sys a s = Inr s' \<Longrightarrow> R s s'"
    and extend: "extent_time sys a s = Inr s' \<Longrightarrow> R s s'"
begin

lemma rearm_step: "rearm sys a fd ev closing s = Inr s' \<Longrightarrow> R s s'"
proof -
  assume r: "rearm sys a fd ev closing s = Inr s'"
  obtain ok k where k: "mod_fd (sy_ctl sys) fd ev (sv_kernel s) = (ok, k)" by fastforce
  with r have "s' = s\<lparr>sv_kernel := k\<rparr> \<or> close_conn sys a (s\<lparr>sv_kernel := k\<rparr>) = Inr s'"
    by (auto simp: rearm_def Let_def split: if_splits)
  with kernel [OF k] close chain show ?thesis by blast
qed

lemma on_process_step:
  assumes "on_process sys a s = Inr s'"
  shows "R s s'"
proof -
  from assms obtain ok where ok: "check_fd_and_match_id a s = Inr ok" by (auto simp: on_process_def)
  show ?thesis
  proof (cases ok)
    case False
    with assms ok same show ?thesis by (simp add: on_process_def)
  next
    case True
    with assms ok obtain c r c1 fc db where c: "sv_conns s a = Some c"
      and pr: "conn_process (sy_env sys) (c, cw_cache (sv_world s), sv_db s) = Inr (r, c1, fc, db)"
      by (auto simp: on_process_def Let_def)
    let ?s = "s\<lparr>sv_world := (sv_world s)\<lparr>cw_cache := fc\<rparr>, sv_db := db\<rparr>"
    have st: "R s (store_conn a c1 ?s)"
      using chain [OF shared store [OF _ conn_process_same [OF pr]]] c by simp
    have "R (store_conn a c1 ?s) s'"
      using assms ok True c pr by (cases r) (auto simp: on_process_def Let_def same intro: rearm_step close)
    with st show ?thesis by (rule chain)
  qed
qed

lemma on_read_step:
  assumes "on_read sys rv a s = Inr s'"
  shows "R s s'"
proof -
  from assms obtain c ok where c: "sv_conns s a = Some c" and ok: "check_fd_and_match_id a s = Inr ok"
    by (auto simp: on_read_def Let_def)
  show ?thesis
  proof (cases ok)
    case False
    with assms c ok same show ?thesis by (simp add: on_read_def)
  next
    case True
    with assms c ok obtain ret err c1 where rd: "conn_read (sv_et s) (sy_mem sys) rv 0 c = Inr (ret, err, c1)"
      by (auto simp: on_read_def Let_def)
    have "same_conn c c1" using read_loop_same rd by (auto simp: conn_read_def)
    note st = store [OF c this]
    have "R (store_conn a c1 s) s'"
      using assms c ok True rd
      by (auto simp: on_read_def Let_def handle_read_error_def split: if_splits
          intro: on_process_step close dest: chain [OF rearm_step close])
    with st show ?thesis by (rule chain)
  qed
qed

lemma on_write_step:
  assumes "on_write sys wv a s = Inr (s', sent)"
  shows "R s s'"
proof -
  from assms obtain c ok where c: "sv_conns s a = Some c" and ok: "check_fd_and_match_id a s = Inr ok"
    by (auto simp: on_write_def Let_def)
  show ?thesis
  proof (cases ok)
    case False
    with assms c ok same show ?thesis by (simp add: on_write_def)
  next
    case True
    with assms c ok obtain r err c1 t where
      wr: "conn_write (sv_et s) (fc_maps (cw_cache (sv_world s))) wv 0 c = Inr (r, err, c1, t)"
      by (auto simp: on_write_def Let_def)
    with assms c ok True obtain s1 where ex: "extent_time sys a (store_conn a c1 s) = Inr s1"
      by (auto simp: on_write_def Let_def)
    have st: "R s s1" by (rule chain [OF store [OF c conn_write_same [OF wr]] extend [OF ex]])
    have "R s1 s'"
      using assms c ok True wr ex
      by (auto simp: on_write_def Let_def same split: if_splits intro: on_process_step close rearm_step)
    with st show ?thesis by (rule chain)
  qed
qed

lemma run_client_task_step:
  assumes "t = Read_task a \<or> t = Write_task a" "run_pool_task sys rv wv t s = Inr (s', sent)"
  shows "R s s'"
  using assms by (auto intro: on_read_step on_write_step)

end

interpretation table_steps: handler_steps sys a "\<lambda>s s'. server_inv s \<longrightarrow> server_inv s'" for sys a
proof (unfold_locales, goal_cases)
  case (5 s fc db)
  then show ?case by (simp add: server_inv_def)
qed (auto intro: store_same_inv close_conn_inv simp: extent_time_inv)

lemma on_read_inv: "on_read sys rv a s = Inr s' \<Longrightarrow> server_inv s \<Longrightarrow> server_inv s'"
  using table_steps.on_read_step by blast

lemma on_write_inv: "on_write sys wv a s = Inr (s', sent) \<Longrightarrow> server_inv s \<Longrightarrow> server_inv s'"
  using table_steps.on_write_step by blast

section \<open>The reactor\<close>

text \<open>The stages of \<open>addClient\<close>.\<close>

lemma add_client_stages:
  assumes "add_client sys fd addr s = Inr s'"
  obtains held s1 s2 r where "0 < fd"
    "make_client sys fd addr (sv_next_id s) (s\<lparr>sv_next_id := sz_add (sv_next_id s) 1\<rparr>) = Inr (held, s1)"
    "(if 0 < sv_timeout_ms s1 then schedule_with_key (sy_now sys) fd (sv_timeout_ms s1) 0 (On_add fd (sv_next_id s)) s1
      else Inr s1) = Inr s2"
    "set_fd_non_block sys fd = Inr r"
    "(if r = -1 then drop_client held fd s2
      else case add_fd (sy_ctl sys) (sv_epoller s2) fd (EPOLLIN OR sv_conn_event s2) (sv_kernel s2) of
        (ok, k) \<Rightarrow> let s3 = s2\<lparr>sv_kernel := k\<rparr> in if \<not> ok then drop_client held fd s3 else Inr s3) = Inr s'"
  using assms by (simp add: add_client_def Let_def) blast

lemma add_client_run:
  assumes "0 < fd" "make_client sys fd addr (sv_next_id s) (s\<lparr>sv_next_id := sz_add (sv_next_id s) 1\<rparr>) = Inr (held, s1)"
    and "(if 0 < sv_timeout_ms s1 then schedule_with_key (sy_now sys) fd (sv_timeout_ms s1) 0 (On_add fd (sv_next_id s)) s1
      else Inr s1) = Inr s2"
    and "set_fd_non_block sys fd = Inr r"
  shows "add_client sys fd addr s = (if r = -1 then drop_client held fd s2
      else case add_fd (sy_ctl sys) (sv_epoller s2) fd (EPOLLIN OR sv_conn_event s2) (sv_kernel s2) of
        (ok, k) \<Rightarrow> let s3 = s2\<lparr>sv_kernel := k\<rparr> in if \<not> ok then drop_client held fd s3 else Inr s3)"
  using assms by (simp add: add_client_def Let_def)

lemma add_client_inv:
  assumes "add_client sys fd addr s = Inr s'" "server_inv s" "sv_next_id s + 1 < size_lim"
  shows "server_inv s'"
proof (rule add_client_stages [OF assms(1)])
  fix held s1 s2 r
  assume fd: "0 < fd"
    and m: "make_client sys fd addr (sv_next_id s) (s\<lparr>sv_next_id := sz_add (sv_next_id s) 1\<rparr>) = Inr (held, s1)"
    and t: "(if 0 < sv_timeout_ms s1 then schedule_with_key (sy_now sys) fd (sv_timeout_ms s1) 0 (On_add fd (sv_next_id s)) s1
      else Inr s1) = Inr s2"
    and rest: "(if r = -1 then drop_client held fd s2
      else case add_fd (sy_ctl sys) (sv_epoller s2) fd (EPOLLIN OR sv_conn_event s2) (sv_kernel s2) of
        (ok, k) \<Rightarrow> let s3 = s2\<lparr>sv_kernel := k\<rparr> in if \<not> ok then drop_client held fd s3 else Inr s3) = Inr s'"
  have "server_inv s1" by (rule make_client_inv [OF m [unfolded sz_add_exact [OF assms(3)]] assms(2) fd])
  moreover have "timer_manager.more s2 = timer_manager.more s1"
    using t by (auto dest: schedule_with_key_more split: if_splits)
  ultimately have inv: "server_inv s2" using server_inv_more by blast
  from rest inv show ?thesis
    by (auto simp: Let_def dest!: drop_client_inv split: prod.splits if_splits)
qed

lemma deal_inv:
  "deal_read sys a s = Inr s' \<Longrightarrow> server_inv s \<Longrightarrow> server_inv s'"
  "deal_write sys a s = Inr s' \<Longrightarrow> server_inv s \<Longrightarrow> server_inv s'"
  by (auto simp: deal_read_def deal_write_def dest: extent_time_inv split: if_splits)

section \<open>Rounds of the reactor\<close>

lemma erase_user_next: "erase_user fd s = Inr s' \<Longrightarrow> sv_next_id s' = sv_next_id s"
  by (auto simp: erase_user_def split: option.splits)

lemma close_conn_next: "close_conn sys a s = Inr s' \<Longrightarrow> sv_next_id s' = sv_next_id s"
  by (auto simp: close_conn_def Let_def dest!: erase_user_next split: if_splits prod.splits option.splits)

lemma extent_time_next: "extent_time sys a s = Inr s' \<Longrightarrow> sv_next_id s' = sv_next_id s"
  by (auto simp: extent_time_def Let_def dest!: schedule_with_key_more server_fields(7) split: if_splits option.splits)

lemma deal_next:
  "deal_read sys a s = Inr s' \<Longrightarrow> sv_next_id s' = sv_next_id s"
  "deal_write sys a s = Inr s' \<Longrightarrow> sv_next_id s' = sv_next_id s"
  by (auto simp: deal_read_def deal_write_def queue_task_def dest: extent_time_next split: if_splits)

lemma user_entry_next: "user_entry fd s = (info, s') \<Longrightarrow> sv_next_id s' = sv_next_id s"
  by (auto simp: user_entry_def split: option.splits)

lemma make_client_next: "make_client sys fd addr i s = Inr (held, s') \<Longrightarrow> sv_next_id s' = sv_next_id s"
  by (auto simp: make_client_def Let_def split: sum.splits if_splits)

lemma add_client_next:
  assumes "add_client sys fd addr s = Inr s'"
  shows "sv_next_id s' = sz_add (sv_next_id s) 1"
proof (rule add_client_stages [OF assms])
  fix held s1 s2 r
  assume m: "make_client sys fd addr (sv_next_id s) (s\<lparr>sv_next_id := sz_add (sv_next_id s) 1\<rparr>) = Inr (held, s1)"
    and t: "(if 0 < sv_timeout_ms s1 then schedule_with_key (sy_now sys) fd (sv_timeout_ms s1) 0 (On_add fd (sv_next_id s)) s1
      else Inr s1) = Inr s2"
    and rest: "(if r = -1 then drop_client held fd s2
      else case add_fd (sy_ctl sys) (sv_epoller s2) fd (EPOLLIN OR sv_conn_event s2) (sv_kernel s2) of
        (ok, k) \<Rightarrow> let s3 = s2\<lparr>sv_kernel := k\<rparr> in if \<not> ok then drop_client held fd s3 else Inr s3) = Inr s'"
  have "sv_next_id s2 = sv_next_id s1"
    using t by (auto dest!: schedule_with_key_more server_fields(7) split: if_splits)
  with make_client_next [OF m] rest show ?thesis
    by (auto simp: Let_def drop_client_def close_fd_def dest: erase_user_next split: prod.splits if_splits)
qed

lemma handle_event_cases:
  fixes s :: "('k, 'd) server"
  assumes "handle_event sys fds e s = Inr s'" "user_entry (fst e) s = (info, s1)"
  shows "s' = s \<or> deal_listen sys fds s = Inr s'
    \<or> (\<exists>a. ci_conn info = Some a \<and> (close_conn sys a s1 = Inr s' \<or> deal_read sys a s1 = Inr s' \<or> deal_write sys a s1 = Inr s'))"
proof -
  obtain fd events where e: "e = (fd, events)" by fastforce
  define f :: "(nat \<Rightarrow> ('k, 'd) server \<Rightarrow> ('k, 'd) server outcome) \<Rightarrow> ('k, 'd) server outcome" where "f = (\<lambda>g. case ci_conn info of None \<Rightarrow> Inl Assertion_Failed | Some a \<Rightarrow> g a s1)"
  define c1 where "c1 = (fd \<le> 0 \<or> MAX_FD < fd)"
  define c2 where "c2 = (fd = sv_listen_fd s)"
  define c3 where "c3 = (events AND (EPOLLRDHUP OR EPOLLHUP OR EPOLLERR) \<noteq> 0)"
  define c4 where "c4 = (events AND EPOLLIN \<noteq> 0)"
  define c5 where "c5 = (events AND EPOLLOUT \<noteq> 0)"
  have "(if c1 then Inr s else if c2 then deal_listen sys fds s else if c3 then f (close_conn sys)
     else if c4 then f (deal_read sys) else if c5 then f (deal_write sys) else Inr s) = Inr s'"
    using assms(1) unfolding c1_def c2_def c3_def c4_def c5_def f_def handle_event_def e assms(2) [unfolded e fst_conv] prod.case Let_def .
  moreover have "f g = Inr s' \<Longrightarrow> \<exists>a. ci_conn info = Some a \<and> g a s1 = Inr s'" for g
    by (auto simp: f_def split: option.splits)
  ultimately show ?thesis by (auto split: if_splits)
qed

text \<open>
  Fewer than \<open>2 ^ 64\<close> connections are accepted in the life of the server, so the ids do not wrap.
\<close>

definition ids_left :: "(nat \<Rightarrow> int + (int \<times> 32 word) list) \<Rightarrow> (int \<times> (32 word \<times> 16 word)) list \<Rightarrow> ('k, 'd) server \<Rightarrow> bool" where
  "ids_left answer fds s \<longleftrightarrow>
     (case answer (length (el_events (sv_epoller s))) of
        Inl e \<Rightarrow> True
      | Inr ready \<Rightarrow> sv_next_id s + length fds * length ready < size_lim)"

lemma timeout_body_frame:
  assumes "timeout_body sys t s = Inr s'"
  shows "sv_next_id s' = sv_next_id s \<and> sv_epoller s' = sv_epoller s"
proof -
  have erase: "erase_user fd s = Inr s' \<Longrightarrow> sv_epoller s' = sv_epoller s" for fd and s s' :: "('a, 'b) server"
    by (auto simp: erase_user_def split: option.splits)
  have close: "close_conn sys a s = Inr s' \<Longrightarrow> sv_epoller s' = sv_epoller s" for a and s s' :: "('a, 'b) server"
    by (auto simp: close_conn_def Let_def dest!: erase split: if_splits prod.splits option.splits)
  have entry: "user_entry fd s = (info, s1) \<Longrightarrow> sv_next_id s1 = sv_next_id s \<and> sv_epoller s1 = sv_epoller s"
    for fd info and s s1 :: "('a, 'b) server"
    by (auto simp: user_entry_def split: option.splits)
  show ?thesis
  proof (cases t)
    case (On_add fd i)
    with assms show ?thesis by (auto dest: close close_conn_next split: option.splits if_splits)
  next
    case (On_extend fd i)
    obtain info s1 where e: "user_entry fd s = (info, s1)" by fastforce
    from assms On_extend e entry [OF e] show ?thesis
      by (auto dest: close close_conn_next split: option.splits if_splits)
  qed
qed

text \<open>What the callbacks keep and the manager's own fields do not matter to holds after \<open>GetNextTick\<close>.\<close>

lemma next_tick_server:
  fixes Q :: "('k, 'd) server \<Rightarrow> bool"
  assumes "\<And>t m. Q m \<Longrightarrow> Q (snd (run_timeout sys t m))"
    and frame: "\<And>m m' :: ('k, 'd) server. timer_manager.more m' = timer_manager.more m \<Longrightarrow> Q m' = Q m"
    and "manager_next_tick clock now' now (run_timeout sys) s = (ms, s')" "Q s"
  shows "Q s'"
proof -
  let ?P = "\<lambda>z. Q (timer_manager.extend new_manager z)"
  have P: "?P (timer_manager.more t) = Q t" for t :: "('k, 'd) server"
    by (rule frame) (simp add: timer_manager.extend_def)
  from next_tick_more [of ?P "run_timeout sys", OF _ _ assms(3)] assms(1,4) show ?thesis unfolding P by blast
qed

text \<open>The most clients a round can accept.\<close>

definition admits :: "(nat \<Rightarrow> int + (int \<times> 32 word) list) \<Rightarrow> (int \<times> (32 word \<times> 16 word)) list \<Rightarrow> ('k, 'd) server \<Rightarrow> nat" where
  "admits answer fds s =
     (case answer (length (el_events (sv_epoller s))) of Inl e \<Rightarrow> 0 | Inr ready \<Rightarrow> length fds * length ready)"

lemma next_tick_frame:
  assumes "manager_next_tick clock now' now (run_timeout sys) s = (ms, s')"
  shows "sv_next_id s' = sv_next_id s \<and> sv_epoller s' = sv_epoller s"
proof (rule next_tick_server [where Q = "\<lambda>m. sv_next_id m = sv_next_id s \<and> sv_epoller m = sv_epoller s", OF _ _ assms])
  fix t and m :: "('a, 'b) server"
  assume "sv_next_id m = sv_next_id s \<and> sv_epoller m = sv_epoller s"
  then show "sv_next_id (snd (run_timeout sys t m)) = sv_next_id s \<and> sv_epoller (snd (run_timeout sys t m)) = sv_epoller s"
    by (auto simp: run_timeout_def dest: timeout_body_frame split: sum.split)
next
  fix m m' :: "('a, 'b) server"
  assume "timer_manager.more m' = timer_manager.more m"
  from server_fields(7,12) [OF this]
  show "(sv_next_id m' = sv_next_id s \<and> sv_epoller m' = sv_epoller s) = (sv_next_id m = sv_next_id s \<and> sv_epoller m = sv_epoller s)"
    by simp
qed simp

text \<open>A property of the server that each thing a round may do keeps, as long as the ids do not wrap.\<close>

locale reactor_steps =
  fixes sys :: "('k, 'd) sys" and Q :: "('k, 'd) server \<Rightarrow> bool"
  assumes poll: "Q (s\<lparr>sv_epoller := e\<rparr>) = Q s"
    and refuse: "Q (close_fd fd s) = Q s"
    and look: "user_entry fd s = (info, s1) \<Longrightarrow> Q s \<Longrightarrow> Q s1"
    and accept: "add_client sys fd addr s = Inr s' \<Longrightarrow> Q s \<Longrightarrow> sv_next_id s + 1 < size_lim \<Longrightarrow> Q s'"
    and shut: "close_conn sys a s = Inr s' \<Longrightarrow> Q s \<Longrightarrow> Q s'"
    and reading: "deal_read sys a s = Inr s' \<Longrightarrow> Q s \<Longrightarrow> Q s'"
    and writing: "deal_write sys a s = Inr s' \<Longrightarrow> Q s \<Longrightarrow> Q s'"
    and ticks: "manager_next_tick clock now' (\<lambda>p. sy_now sys) (run_timeout sys) s = (ms, s') \<Longrightarrow> Q s \<Longrightarrow> Q s'"
begin

lemma accept_loop_keeps:
  assumes "accept_loop sys et fds s = Inr s'" "Q s" "sv_next_id s + length fds < size_lim"
  shows "Q s' \<and> sv_next_id s' \<le> sv_next_id s + length fds"
  using assms
proof (induction fds arbitrary: s)
  case (Cons f fds)
  obtain fd addr where f: "f = (fd, addr)" by (cases f)
  show ?case
  proof (cases "et \<and> sv_closed s \<or> fd \<le> 0")
    case True
    with Cons.prems f show ?thesis by (auto split: if_splits)
  next
    case False
    with Cons.prems(1) f obtain ok s1 s2 where 1: "check_server_not_full fd s = Inr (ok, s1)"
      and 2: "(if ok then add_client sys fd addr s1 else Inr s1) = Inr s2" and 3: "accept_loop sys et fds s2 = Inr s'"
      by (auto split: if_splits)
    have s1: "Q s1" "sv_next_id s1 = sv_next_id s"
      using 1 Cons.prems(2) refuse [of fd s]
      by (auto simp: check_server_not_full_def send_error_def split: if_splits) (simp add: close_fd_def)
    have n: "sz_add (sv_next_id s1) 1 = sv_next_id s1 + 1" using Cons.prems(3) s1(2) by (simp add: sz_add_exact)
    have "Q s2 \<and> sv_next_id s2 \<le> sv_next_id s1 + 1"
      using 2 accept [of fd addr s1 s2] add_client_next [of sys fd addr s1 s2] s1 Cons.prems(3) n by (auto split: if_splits)
    with Cons.IH [OF 3] s1(2) Cons.prems(3) show ?thesis by force
  qed
qed simp

lemma handle_event_keeps:
  assumes "handle_event sys fds e s = Inr s'" "Q s" "sv_next_id s + length fds < size_lim"
  shows "Q s' \<and> sv_next_id s' \<le> sv_next_id s + length fds"
proof -
  obtain info s1 where u: "user_entry (fst e) s = (info, s1)" by fastforce
  note u1 = look [OF u assms(2)] user_entry_next [OF u]
  from handle_event_cases [OF assms(1) u] consider "s' = s" | "deal_listen sys fds s = Inr s'"
    | a where "close_conn sys a s1 = Inr s' \<or> deal_read sys a s1 = Inr s' \<or> deal_write sys a s1 = Inr s'" by blast
  then show ?thesis
  proof cases
    case 2
    then obtain et n where a: "accept_loop sys et (take n fds) s = Inr s'"
      by (auto simp: deal_listen_def split: if_splits) (metis order_refl take_all)
    have n: "length (take n fds) \<le> length fds" by simp
    with assms(3) have "sv_next_id s + length (take n fds) < size_lim" by linarith
    from accept_loop_keeps [OF a assms(2) this] n show ?thesis by linarith
  next
    case 3
    with u1 have "Q s'" "sv_next_id s' = sv_next_id s1"
      by (blast intro: shut reading writing dest: close_conn_next deal_next)+
    with u1(2) show ?thesis by simp
  qed (use assms(2) in simp)
qed

lemma handle_events_keeps:
  assumes "handle_events sys fds es s = Inr s'" "Q s" "sv_next_id s + length fds * length es < size_lim"
  shows "Q s' \<and> sv_next_id s' \<le> sv_next_id s + length fds * length es"
  using assms
proof (induction es arbitrary: s)
  case (Cons e es)
  then obtain s1 where 1: "handle_event sys fds e s = Inr s1" "handle_events sys fds es s1 = Inr s'" by auto
  have "sv_next_id s + length fds < size_lim" using Cons.prems(3) by simp
  from handle_event_keeps [OF 1(1) Cons.prems(2) this] Cons.IH [OF 1(2)] Cons.prems(3) show ?case by simp
qed simp

lemma run_round_keeps:
  assumes "run_round sys clock now' answer fds s = Inr (ms, s')" "Q s" "ids_left answer fds s"
  shows "Q s' \<and> sv_next_id s' \<le> sv_next_id s + admits answer fds s"
proof -
  obtain ms1 s1 where n: "(if 0 < sv_timeout_ms s then manager_next_tick clock now' (\<lambda>p. sy_now sys) (run_timeout sys) s else (-1, s)) = (ms1, s1)"
    by fastforce
  have s1: "Q s1" "sv_next_id s1 = sv_next_id s" "sv_epoller s1 = sv_epoller s"
    using n ticks [of clock now' s ms1 s1] next_tick_frame [of clock now' "\<lambda>p. sy_now sys" sys s ms1 s1] assms(2) by (simp_all split: if_splits)
  obtain m e where w: "epoll_wait answer (sv_epoller s1) = (m, e)" by fastforce
  show ?thesis
  proof (cases "m = 0")
    case True
    with assms(1) n w s1 poll show ?thesis by (auto simp: run_round_def split: option.splits)
  next
    case False
    with assms(1) n w have h: "handle_events sys fds (take (nat m) (el_events e)) (s1\<lparr>sv_epoller := e\<rparr>) = Inr s'"
      by (auto simp: run_round_def split: option.splits)
    show ?thesis
    proof (cases "answer (length (el_events (sv_epoller s1)))")
      case (Inl err)
      with h w s1 poll show ?thesis by (auto simp: epoll_wait_def)
    next
      case (Inr ready)
      with w have "take (nat m) (el_events e) = ready" by (auto simp: epoll_wait_def)
      with handle_events_keeps [OF h] s1 poll assms(3) Inr show ?thesis by (simp add: ids_left_def admits_def)
    qed
  qed
qed

end

lemma next_tick_inv:
  assumes "manager_next_tick clock now' now (run_timeout sys) s = (ms, s')" "server_inv s"
  shows "server_inv s'"
proof (rule next_tick_server [where Q = server_inv, OF _ _ assms])
  fix t and m :: "('a, 'b) server"
  assume "server_inv m"
  then show "server_inv (snd (run_timeout sys t m))"
    by (auto simp: run_timeout_def dest: timeout_body_inv split: sum.split)
qed (rule server_inv_more)

interpretation table_reactor: reactor_steps sys server_inv for sys
proof (unfold_locales, goal_cases)
  case (1 s e)
  show ?case by (simp add: server_inv_def)
next
  case (2 fd s)
  show ?case by (simp add: server_inv_def close_fd_def)
next
  case (3 fd s info s1)
  from user_entry_inv [OF this] show ?case by simp
next
  case (4 fd addr s s')
  then show ?case by (rule add_client_inv)
next
  case (5 a s s')
  then show ?case by (rule close_conn_inv)
next
  case (6 a s s')
  then show ?case by (rule deal_inv(1))
next
  case (7 a s s')
  then show ?case by (rule deal_inv(2))
next
  case (8 clock now' s ms s')
  then show ?case by (rule next_tick_inv)
qed

section \<open>Histories\<close>

text \<open>
  A step is a round of the reactor or a worker that runs one queued task; the tasks may be taken in any order. Nothing in
  the program calls \<open>closeConnAsync\<close>, so the tasks are reads and writes.
\<close>

fun client_task :: "sv_task \<Rightarrow> bool" where
  "client_task (Read_task a) \<longleftrightarrow> True"
| "client_task (Write_task a) \<longleftrightarrow> True"
| "client_task (Close_task fd p) \<longleftrightarrow> False"

inductive server_step :: "('k, 'd) server \<Rightarrow> ('k, 'd) server \<Rightarrow> bool" where
  reactor_turns: "ids_left answer fds s \<Longrightarrow> run_round sys clock now' answer fds s = Inr (ms, s') \<Longrightarrow> server_step s s'"
| worker_runs: "tp_tasks (sv_pool s) = xs @ t # ys \<Longrightarrow> client_task t \<Longrightarrow>
    run_pool_task sys rv wv t (s\<lparr>sv_pool := (sv_pool s)\<lparr>tp_tasks := xs @ ys\<rparr>\<rparr>) = Inr (s', sent) \<Longrightarrow> server_step s s'"

lemma server_step_inv:
  assumes "server_step s s'" "server_inv s"
  shows "server_inv s'"
  using assms(1)
proof cases
  case reactor_turns
  with table_reactor.run_round_keeps assms(2) show ?thesis by blast
next
  case (worker_runs xs t ys sys rv wv sent)
  then show ?thesis
    by (cases t) (auto intro: on_read_inv on_write_inv simp: assms(2))
qed

lemma blank_server_inv: "server_inv (blank_server t p e k db)"
  by (simp add: server_inv_def blank_server_def timer_manager.extend_def table_inv_def)

lemma init_socket_inv: "init_socket sys api port linger s = Inr (ok, s') \<Longrightarrow> server_inv s \<Longrightarrow> server_inv s'"
  by (auto simp: init_socket_def Let_def server_inv_def close_fd_def split: if_splits prod.splits)

lemma new_server_socket:
  assumes "new_server sys su port trig timeout linger n m k db lg = Inr (s, lg', dir)"
  obtains p e listen conn et s1 where
    "init_socket sys (su_sockets su) port linger ((blank_server timeout p e k db)
       \<lparr>sv_listen_event := listen, sv_conn_event := conn, sv_et := et\<rparr>) = Inr (True, s1)"
    "s = s1\<lparr>sv_db := (fst (sv_db s), snd (sv_db s1))\<rparr>"
proof -
  obtain listen conn et where t: "init_event_mode trig = (listen, conn, et)" by (metis prod_cases3)
  from assms t that show thesis
    by (auto simp: new_server_def Let_def split: option.splits if_splits)
qed

lemma new_server_inv:
  assumes "new_server sys su port trig timeout linger n m k db lg = Inr (s, lg', dir)"
  shows "server_inv s"
proof (rule new_server_socket [OF assms])
  fix p e listen conn et s1
  assume i: "init_socket sys (su_sockets su) port linger ((blank_server timeout p e k db)
       \<lparr>sv_listen_event := listen, sv_conn_event := conn, sv_et := et\<rparr>) = Inr (True, s1)"
      "s = s1\<lparr>sv_db := (fst (sv_db s), snd (sv_db s1))\<rparr>"
  have "server_inv ((blank_server timeout p e k db)\<lparr>sv_listen_event := listen, sv_conn_event := conn, sv_et := et\<rparr>)"
    using blank_server_inv [of timeout p e k db] by (simp add: server_inv_def)
  from init_socket_inv [OF i(1) this] have "server_inv s1" .
  then show ?thesis by (subst i(2)) (simp add: server_inv_def)
qed

lemma server_inv_consistent:
  assumes "server_inv s"
  shows "(\<forall>fd info a. sv_users s fd = Some info \<and> ci_conn info = Some a \<longrightarrow>
            (\<exists>c. sv_conns s a = Some c \<and> cn_fd c = fd \<and> cn_id c = ci_id info \<and> 0 < ci_id info \<and> \<not> cn_closed c))
     \<and> (\<forall>a c. sv_conns s a = Some c \<longrightarrow> (\<exists>info. sv_users s (cn_fd c) = Some info \<and> ci_conn info = Some a))
     \<and> (\<forall>a a' c c'. sv_conns s a = Some c \<and> sv_conns s a' = Some c' \<and> cn_id c = cn_id c' \<longrightarrow> a = a')
     \<and> cw_users (sv_world s) = int (card (dom (sv_conns s)))"
proof -
  note D = table_invD [OF assms [unfolded server_inv_def]]
  show ?thesis
    using D(1,2,5) D(3) unfolding live_def by (intro conjI allI impI) (fastforce, fastforce, blast, blast)
qed

text \<open>
  The table of connections is consistent in every history of a server: whatever clients connect, whatever events arrive and
  whichever queued tasks the workers run, as long as no fault ends the program, every entry with a connection refers to
  an open object with the descriptor and id of the entry, every connection object is in the table (none leaks),
  ids are unique, and \<open>userCount\<close> is the number of connections.
\<close>

theorem connection_table_consistent:
  assumes "new_server sys su port trig timeout linger n m k db lg = Inr (s0, lg', dir)" "server_step\<^sup>*\<^sup>* s0 s"
  shows "(\<forall>fd info a. sv_users s fd = Some info \<and> ci_conn info = Some a \<longrightarrow>
            (\<exists>c. sv_conns s a = Some c \<and> cn_fd c = fd \<and> cn_id c = ci_id info \<and> 0 < ci_id info \<and> \<not> cn_closed c))
     \<and> (\<forall>a c. sv_conns s a = Some c \<longrightarrow> (\<exists>info. sv_users s (cn_fd c) = Some info \<and> ci_conn info = Some a))
     \<and> (\<forall>a a' c c'. sv_conns s a = Some c \<and> sv_conns s a' = Some c' \<and> cn_id c = cn_id c' \<longrightarrow> a = a')
     \<and> cw_users (sv_world s) = int (card (dom (sv_conns s)))"
proof -
  have "server_inv s"
    using assms(2) by (induction rule: rtranclp_induct) (auto intro: server_step_inv new_server_inv [OF assms(1)])
  then show ?thesis by (rule server_inv_consistent)
qed

section \<open>An example\<close>

text \<open>A server on port 1316 without idle time-outs, whose system calls succeed, with one thread and one database connection.\<close>

definition demo_sys :: "(int \<rightharpoonup> 32 word, unit) sys" where
  "demo_sys = \<lparr>sy_ctl = table_ctl, sy_getfl = (\<lambda>fd. 0), sy_setfl = (\<lambda>fd fl. 0), sy_mem = 1000000, sy_env = site_env,
     sy_now = 0\<rparr>"

definition demo_setup :: server_setup where
  "demo_setup = \<lparr>su_epoll_fd = 4,
     su_sockets = \<lparr>so_socket = 3, so_linger = (\<lambda>l. True), so_reuse = True, so_bind = (\<lambda>p. True), so_listen = True\<rparr>,
     su_minit = Some, su_mconn = Some, su_cwd = Some ''/srv'',
     su_log = \<lparr>le_exists = (\<lambda>p. True), le_create = (\<lambda>p. True), le_date = None, le_sink_throws = False,
       le_register_throws = False\<rparr>,
     su_config = new_config\<rparr>"

definition no_db :: sql_pool where
  "no_db = \<lparr>conn_que = [], max_conn_size = 0, closed_conns = []\<rparr>"

definition demo_server :: "(int \<rightharpoonup> 32 word, unit) server" where
  "demo_server = (blank_server 0 \<lparr>tp_workers = [Ready], tp_joinable = 1, tp_closed = False, tp_tasks = [], tp_active = 0\<rparr>
      \<lparr>el_et = True, el_fd = 4, el_events = replicate N_MAX_EVENT (0, 0)\<rparr> Map.empty (no_db, ()))
     \<lparr>sv_listen_event := EPOLLRDHUP OR EPOLLET, sv_conn_event := EPOLLONESHOT OR EPOLLRDHUP OR EPOLLET, sv_et := True,
      sv_listen_fd := 3, sv_kernel := [3 \<mapsto> EPOLLIN OR EPOLLET], sv_db := (no_db\<lparr>conn_que := [0], max_conn_size := 1\<rparr>, ())\<rparr>"

lemma EPOLLET_nonzero [simp]: "EPOLLET \<noteq> 0"
  by (simp add: EPOLLET_def)

lemma demo_boot: "\<exists>lg dir. new_server demo_sys demo_setup 1316 3 0 False 1 1 Map.empty (no_db, ()) initial_logger = Inr (demo_server, lg, dir)"
  by (simp add: new_server_def new_pool_def new_epoller_def N_MAX_EVENT_def demo_setup_def demo_sys_def log_init_def locking_def
      init_event_mode_def init_socket_def blank_server_def timer_manager.extend_def add_fd_def set_fd_non_block_def
      sql_init_def no_db_def write_to_dir_def write_to_file_def demo_server_def have_dir_def initial_logger_def Let_def or.assoc)

lemma demo_server_simps [simp]:
  "sv_timeout_ms demo_server = 0" "\<not> sv_closed demo_server" "sv_listen_fd demo_server = 3"
  "sv_listen_event demo_server = EPOLLRDHUP OR EPOLLET" "sv_conn_event demo_server = EPOLLONESHOT OR EPOLLRDHUP OR EPOLLET"
  "sv_et demo_server" "sv_next_id demo_server = 1" "sv_users demo_server = Map.empty" "sv_conns demo_server = Map.empty"
  "sv_fresh demo_server = 0" "sv_world demo_server = \<lparr>cw_users = 0, cw_closed = [], cw_cache = new_cache\<rparr>"
  "sv_epoller demo_server = \<lparr>el_et = True, el_fd = 4, el_events = replicate N_MAX_EVENT (0, 0)\<rparr>"
  "sv_kernel demo_server = [3 \<mapsto> EPOLLIN OR EPOLLET]" "tp_tasks (sv_pool demo_server) = []"
  "sv_db demo_server = (no_db\<lparr>conn_que := [0], max_conn_size := 1\<rparr>, ())" "sv_fault demo_server = None"
  by (simp_all add: demo_server_def blank_server_def timer_manager.extend_def)

lemma demo_sys_simps [simp]:
  "sy_ctl demo_sys = table_ctl" "sy_getfl demo_sys fd = 0" "sy_setfl demo_sys fd fl = 0" "sy_mem demo_sys = 1000000"
  "sy_env demo_sys = site_env" "sy_now demo_sys = 0"
  by (simp_all add: demo_sys_def)

text \<open>The connection object of the first client, and the server after it has connected.\<close>

definition demo_conn :: conn where
  "demo_conn = \<lparr>cn_fd = 7, cn_addr = (0, 0), cn_id = 1, cn_closed = False, cn_iov_cnt = 0,
     cn_iov0 = no_iov, cn_iov1 = no_iov, cn_read = \<lparr>buf_data = replicate INIT_BUFFER_SIZE (CHR 0x00), read_pos = 0, write_pos = 0\<rparr>,
     cn_write = \<lparr>buf_data = replicate INIT_BUFFER_SIZE (CHR 0x00), read_pos = 0, write_pos = 0\<rparr>,
     cn_request = request_init, cn_response = new_response\<rparr>"

definition demo_busy :: "(int \<rightharpoonup> 32 word, unit) server" where
  "demo_busy = demo_server\<lparr>sv_next_id := 2, sv_fresh := 1, sv_conns := [0 \<mapsto> demo_conn],
     sv_users := [7 \<mapsto> \<lparr>ci_conn = Some 0, ci_id = 1, ci_active = True\<rparr>],
     sv_world := \<lparr>cw_users = 1, cw_closed = [], cw_cache = new_cache\<rparr>,
     sv_kernel := [3 \<mapsto> EPOLLIN OR EPOLLET, 7 \<mapsto> EPOLLIN OR EPOLLET],
     sv_epoller := \<lparr>el_et = True, el_fd = 4, el_events = (3, EPOLLIN) # replicate (N_MAX_EVENT - 1) (0, 0)\<rparr>\<rparr>"

lemma demo_new_conn: "\<exists>c0. new_conn 1000000 = Inr c0 \<and> (set_conn_id 1 c0)\<lparr>cn_addr := (0, 0), cn_fd := 7,
    cn_write := retrieve_all (cn_write c0), cn_read := retrieve_all (cn_read c0), cn_closed := False\<rparr> = demo_conn"
  by (simp add: new_conn_def make_buffer_def vec_resize_def INIT_BUFFER_SIZE_def set_conn_id_def retrieve_all_def demo_conn_def
      vec_max_def)

lemma demo_accept:
  "run_round demo_sys (\<lambda>p. 0) 0 (\<lambda>k. Inr [(3, EPOLLIN)]) [(7, (0, 0))] demo_server = Inr (-1, demo_busy)"
proof -
  obtain c0 where c: "new_conn 1000000 = Inr c0" "(set_conn_id 1 c0)\<lparr>cn_addr := (0, 0), cn_fd := 7,
    cn_write := retrieve_all (cn_write c0), cn_read := retrieve_all (cn_read c0), cn_closed := False\<rparr> = demo_conn"
    using demo_new_conn by blast
  have ev: "EPOLLIN AND (EPOLLRDHUP OR EPOLLHUP OR EPOLLERR) = 0" "EPOLLIN AND EPOLLIN \<noteq> 0"
    "(EPOLLRDHUP OR EPOLLET) AND EPOLLET \<noteq> 0"
    by (simp_all add: epoll_flags)
  show ?thesis
    using c ev
    by (simp add: run_round_def epoll_wait_def handle_event_def MAX_FD_def deal_listen_def check_server_not_full_def
        add_client_def make_client_def conn_init_def sz_add_def size_lim_def set_fd_non_block_def add_fd_def Let_def default_info_def
        demo_busy_def set_conn_id_def N_MAX_EVENT_def)
qed

lemma demo_step: "server_step demo_server demo_busy"
  by (rule reactor_turns [OF _ demo_accept]) (simp add: ids_left_def size_lim_def)

theorem connection_table_consistent_witness:
  "\<exists>s0 lg dir s. new_server demo_sys demo_setup 1316 3 0 False 1 1 Map.empty (no_db, ()) initial_logger = Inr (s0, lg, dir)
     \<and> server_step\<^sup>*\<^sup>* s0 s \<and> sv_users s 7 = Some \<lparr>ci_conn = Some 0, ci_id = 1, ci_active = True\<rparr>
     \<and> (\<exists>c. sv_conns s 0 = Some c \<and> cn_fd c = 7 \<and> cn_id c = 1) \<and> cw_users (sv_world s) = 1"
proof -
  obtain lg dir where boot: "new_server demo_sys demo_setup 1316 3 0 False 1 1 Map.empty (no_db, ()) initial_logger
      = Inr (demo_server, lg, dir)" using demo_boot by blast
  have step: "server_step\<^sup>*\<^sup>* demo_server demo_busy" by (rule r_into_rtranclp) (rule demo_step)
  have user: "sv_users demo_busy 7 = Some \<lparr>ci_conn = Some 0, ci_id = 1, ci_active = True\<rparr>" by (simp add: demo_busy_def)
  with connection_table_consistent [OF boot step] have "\<exists>c. sv_conns demo_busy 0 = Some c \<and> cn_fd c = 7 \<and> cn_id c = 1"
    by fastforce
  with boot step user show ?thesis
    by - (rule exI, rule exI, rule exI, rule exI [of _ demo_busy], rule conjI, assumption, simp add: demo_busy_def)
qed

end
