(* ===== verification/Server_Behaviour.thy ===== *)
theory Server_Behaviour
  imports Server_Facts
begin

text \<open>
  What the server does on the paths that matter: events for a connection whose task is still queued, time-outs that outlive
  their connection, spurious readiness, refused clients, shutdown, and a whole request.
\<close>

section \<open>Events of a live connection\<close>

lemma erase_user_pool: "erase_user fd s = Inr s' \<Longrightarrow> sv_pool s' = sv_pool s"
  by (auto simp: erase_user_def split: option.splits)

lemma close_conn_frees:
  assumes "server_inv s" "sv_conns s a = Some c" "close_conn sys a s = Inr s'"
  shows "sv_conns s' = (sv_conns s)(a := None) \<and> sv_users s' = (sv_users s)(cn_fd c := None) \<and> sv_pool s' = sv_pool s
     \<and> cw_users (sv_world s') = cw_users (sv_world s) - 1 \<and> cw_closed (sv_world s') = cn_fd c # cw_closed (sv_world s)
     \<and> server_inv s'"
proof -
  obtain k where e: "erase_user (cn_fd c) (s\<lparr>sv_kernel := k\<rparr>) = Inr s'"
  proof (cases "MAX_FD < cn_fd c")
    case True
    with assms(3) have "erase_user (cn_fd c) (s\<lparr>sv_kernel := sv_kernel s\<rparr>) = Inr s'"
      unfolding close_conn_erases [OF assms(1,2)] by simp
    then show thesis by (rule that)
  next
    case False
    with assms(3) show thesis unfolding close_conn_erases [OF assms(1,2)] by (intro that) simp
  qed
  have inv: "server_inv (s\<lparr>sv_kernel := k\<rparr>)" using assms(1) by simp
  from server_inv_live [OF assms(1,2)] obtain info where
    "sv_users s (cn_fd c) = Some info" "ci_conn info = Some a" by (auto simp: live_def)
  with erase_user_cases [OF inv e] erase_user_pool [OF e] show ?thesis by simp
qed

lemma conn_destroy_total: "0 < cn_fd c \<Longrightarrow> \<exists>w'. conn_destroy (c, w) = Inr w'"
proof -
  assume "0 < cn_fd c"
  then have "\<exists>r. conn_close (c, w) = Inr r"
    by (cases "conn_unmap (c, w)") (auto simp: conn_close_def Let_def)
  then show ?thesis by (auto simp: conn_destroy_def)
qed

lemma close_conn_total:
  assumes "server_inv s" "sv_conns s a = Some c"
  shows "\<exists>s'. close_conn sys a s = Inr s'"
proof -
  from server_inv_live [OF assms] obtain info where
    "sv_users s (cn_fd c) = Some info" "ci_conn info = Some a" "0 < cn_fd c" by (auto simp: live_def)
  with conn_destroy_total [of c "sv_world s"] assms(2) show ?thesis
    by (auto simp: close_conn_erases [OF assms] erase_user_def deref_def)
qed

text \<open>A live connection is in the epoll range and is not the listening socket.\<close>

definition client_conn :: "('k, 'd) server \<Rightarrow> nat \<Rightarrow> conn \<Rightarrow> bool" where
  "client_conn s a c \<longleftrightarrow> server_inv s \<and> sv_conns s a = Some c \<and> cn_fd c \<le> MAX_FD \<and> cn_fd c \<noteq> sv_listen_fd s"

lemma client_connE:
  assumes "client_conn s a c"
  obtains info where "server_inv s" "sv_conns s a = Some c" "cn_fd c \<le> MAX_FD" "cn_fd c \<noteq> sv_listen_fd s"
    "sv_users s (cn_fd c) = Some info" "ci_conn info = Some a" "ci_id info = cn_id c" "0 < cn_fd c" "0 < cn_id c"
    "\<not> cn_closed c"
  using assms server_inv_live [of s a c] by (auto simp: client_conn_def live_def)

lemma client_conn_queue [simp]: "client_conn (queue_task t s) a c = client_conn s a c"
  by (simp add: client_conn_def) (simp add: queue_task_def)

lemma client_conn_more:
  fixes s s0 :: "('k, 'd) server"
  shows "timer_manager.more s0 = timer_manager.more s \<Longrightarrow> client_conn s0 a c = client_conn s a c"
  using server_fields [of s0 s] server_inv_more [of s0 s] by (simp add: client_conn_def)

lemma client_event:
  assumes "client_conn s a c"
  shows "handle_event sys fds (cn_fd c, EPOLLHUP) s = close_conn sys a s"
    and "handle_event sys fds (cn_fd c, EPOLLIN) s = deal_read sys a s"
    and "handle_event sys fds (cn_fd c, EPOLLOUT) s = deal_write sys a s"
proof -
  have ev: "EPOLLHUP AND (EPOLLRDHUP OR EPOLLHUP OR EPOLLERR) \<noteq> 0"
    "EPOLLIN AND (EPOLLRDHUP OR EPOLLHUP OR EPOLLERR) = 0"
    "EPOLLOUT AND (EPOLLRDHUP OR EPOLLHUP OR EPOLLERR) = 0" "EPOLLOUT AND EPOLLIN = 0" "EPOLLIN \<noteq> 0" "EPOLLOUT \<noteq> 0"
    by (simp_all add: epoll_flags)
  from assms show "handle_event sys fds (cn_fd c, EPOLLHUP) s = close_conn sys a s"
    "handle_event sys fds (cn_fd c, EPOLLIN) s = deal_read sys a s"
    "handle_event sys fds (cn_fd c, EPOLLOUT) s = deal_write sys a s"
    by (auto elim!: client_connE simp: handle_event_def user_entry_def ev Let_def)
qed

text \<open>
  A queued task can run on a destroyed connection. If a connection becomes readable and its peer then hangs up before a worker
  has taken the task, the reactor destroys the connection while the task with its pointer is still queued; running
  it dereferences the freed object (in \<open>checkFdAndMatchId\<close>, which was meant to find that out).
\<close>

theorem queued_task_dangles:
  assumes "client_conn s a c"
    and "handle_event sys fds (cn_fd c, EPOLLIN) s = Inr s1"
    and "handle_event sys' fds' (cn_fd c, EPOLLHUP) s1 = Inr s2"
  shows "Read_task a \<in> set (tp_tasks (sv_pool s2)) \<and> sv_conns s2 a = None \<and> sv_users s2 (cn_fd c) = None
     \<and> run_pool_task sys'' rv wv (Read_task a) s2 = Inl Undefined_Behaviour"
proof -
  from assms(1) have live: "server_inv s" "sv_conns s a = Some c" by (auto simp: client_conn_def)
  from assms(2) have "deal_read sys a s = Inr s1" unfolding client_event(2) [OF assms(1)] .
  then obtain s0 where s0: "extent_time sys a s = Inr s0" "s1 = queue_task (Read_task a) s0"
    using assms(1) by (auto simp: deal_read_def elim!: client_connE)
  have "timer_manager.more s0 = timer_manager.more s"
    using s0(1) by (auto simp: extent_time_def Let_def dest: schedule_with_key_more split: if_splits option.splits)
  from client_conn_more [OF this] assms(1) have "client_conn s0 a c" by simp
  moreover have "tp_tasks (sv_pool s1) = tp_tasks (sv_pool s0) @ [Read_task a]"
    unfolding s0(2) by (simp add: queue_task_def add_task_def)
  ultimately have s1: "client_conn s1 a c" "tp_tasks (sv_pool s1) = tp_tasks (sv_pool s0) @ [Read_task a]"
    unfolding s0(2) by simp_all
  from assms(3) have "close_conn sys' a s1 = Inr s2" unfolding client_event(1) [OF s1(1)] .
  from close_conn_frees [OF _ _ this] s1 show ?thesis
    by (auto simp: client_conn_def on_read_def deref_def)
qed

lemma demo_busy_simps [simp]:
  "sv_users demo_busy = [7 \<mapsto> \<lparr>ci_conn = Some 0, ci_id = 1, ci_active = True\<rparr>]" "sv_conns demo_busy = [0 \<mapsto> demo_conn]"
  "sv_timeout_ms demo_busy = 0" "sv_listen_fd demo_busy = 3" "cn_fd demo_conn = 7" "cn_id demo_conn = 1" "\<not> cn_closed demo_conn"
  "sv_world demo_busy = \<lparr>cw_users = 1, cw_closed = [], cw_cache = new_cache\<rparr>" "sv_next_id demo_busy = 2"
  "sv_et demo_busy" "\<not> sv_closed demo_busy"
  by (simp_all add: demo_busy_def demo_conn_def)

lemma demo_client: "client_conn demo_busy 0 demo_conn"
proof -
  obtain lg dir where "new_server demo_sys demo_setup 1316 3 0 False 1 1 Map.empty (no_db, ()) initial_logger
      = Inr (demo_server, lg, dir)" using demo_boot by blast
  from server_step_inv [OF demo_step new_server_inv [OF this]] have "server_inv demo_busy" .
  then show ?thesis by (simp add: client_conn_def MAX_FD_def)
qed

theorem queued_task_dangles_witness:
  "\<exists>s1 s2. handle_event demo_sys [] (7, EPOLLIN) demo_busy = Inr s1 \<and> handle_event demo_sys [] (7, EPOLLHUP) s1 = Inr s2
     \<and> run_pool_task demo_sys (\<lambda>k cap. Inl EAGAIN) (\<lambda>k t. Inl EAGAIN) (Read_task 0) s2 = Inl Undefined_Behaviour"
proof -
  have 1: "handle_event demo_sys [] (cn_fd demo_conn, EPOLLIN) demo_busy = Inr (queue_task (Read_task 0) demo_busy)"
    unfolding client_event(2) [OF demo_client] by (simp add: deal_read_def deref_def extent_time_def)
  have c: "client_conn (queue_task (Read_task 0) demo_busy) 0 demo_conn" by (simp add: demo_client)
  then have "server_inv (queue_task (Read_task 0) demo_busy)" "sv_conns (queue_task (Read_task 0) demo_busy) 0 = Some demo_conn"
    by (simp_all only: client_conn_def)
  from close_conn_total [OF this, of demo_sys] obtain s2 where
    2: "handle_event demo_sys [] (cn_fd demo_conn, EPOLLHUP) (queue_task (Read_task 0) demo_busy) = Inr s2"
    unfolding client_event(1) [OF c] by blast
  from queued_task_dangles [OF demo_client 1 2, of demo_sys "\<lambda>k cap. Inl EAGAIN" "\<lambda>k t. Inl EAGAIN"] 1 2 show ?thesis by auto
qed

section \<open>Time-outs\<close>

lemma reachable_server_inv:
  assumes "new_server sys su port trig timeout linger n m k db lg = Inr (s0, lg', dir)" "server_step\<^sup>*\<^sup>* s0 s"
  shows "server_inv s"
  using assms(2) by (induction rule: rtranclp_induct) (auto intro: server_step_inv new_server_inv [OF assms(1)])

text \<open>
  C33: an idle time-out that has been extended once never closes anything. \<open>extentTime\<close> replaces the closure of \<open>addClient\<close>
  by one that closes the connection only if it is closed already, and an open connection object is the only
  one a reachable table can hold: the callback returns and leaves every connection as it is.
\<close>

theorem extended_timeout_never_closes:
  assumes "new_server sys su port trig timeout linger n m k db lg = Inr (s0, lg', dir)" "server_step\<^sup>*\<^sup>* s0 s"
  shows "\<exists>s'. timeout_body sys' (On_extend fd i) s = Inr s' \<and> sv_conns s' = sv_conns s \<and> sv_world s' = sv_world s"
proof -
  have inv: "server_inv s" by (rule reachable_server_inv [OF assms])
  obtain info s1 where e: "user_entry fd s = (info, s1)" by fastforce
  have s1: "sv_conns s1 = sv_conns s" "sv_world s1 = sv_world s" "server_inv s1" "sv_users s1 fd = Some info"
    using e user_entry_inv [OF e inv] by (auto simp: user_entry_def split: option.splits)
  show ?thesis
  proof (cases "ci_conn info")
    case None
    with e s1 show ?thesis by simp
  next
    case (Some a)
    from table_invD(1) [OF s1(3) [unfolded server_inv_def] s1(4) Some] obtain c where
      "sv_conns s1 a = Some c" "\<not> cn_closed c" by (auto simp: live_def)
    with e s1 Some show ?thesis by (simp add: deref_def)
  qed
qed

theorem extended_timeout_never_closes_witness:
  "\<exists>s'. timeout_body demo_sys (On_extend 7 1) demo_busy = Inr s' \<and> sv_conns s' 0 = Some demo_conn"
proof -
  obtain lg dir where boot: "new_server demo_sys demo_setup 1316 3 0 False 1 1 Map.empty (no_db, ()) initial_logger
      = Inr (demo_server, lg, dir)" using demo_boot by blast
  from extended_timeout_never_closes [OF boot r_into_rtranclp [of server_step, OF demo_step], of demo_sys 7 1]
  show ?thesis by (metis demo_busy_simps(2) fun_upd_same)
qed

lemma erase_user_timers:
  "erase_user fd s = Inr s' \<Longrightarrow> tm_heap s' = tm_heap s \<and> tm_ref s' = tm_ref s \<and> mg_key_id s' = mg_key_id s
     \<and> sv_fault s' = sv_fault s \<and> sv_closed s' = sv_closed s"
  by (auto simp: erase_user_def split: option.splits)

lemma close_conn_timers:
  "close_conn sys a s = Inr s' \<Longrightarrow> tm_heap s' = tm_heap s \<and> tm_ref s' = tm_ref s \<and> mg_key_id s' = mg_key_id s
     \<and> sv_fault s' = sv_fault s \<and> sv_closed s' = sv_closed s"
  by (auto simp: close_conn_def Let_def dest!: erase_user_timers split: if_splits prod.splits option.splits)

text \<open>
  C32: a time-out that outlives its connection poisons the descriptor. \<open>closeConn\<close> cancels no timer. After an event and a
  hang-up the alarm of \<open>extentTime\<close> is still set; when it fires, \<open>_users[fd]\<close> inserts an empty entry, and the next
  client that gets this descriptor fails the assertion of \<open>addClient\<close>.
\<close>

theorem stale_timeout_poisons_descriptor:
  assumes "client_conn s a c" "manager_inv s" "mg_next_id s \<noteq> int int_max" "0 < sv_timeout_ms s"
    and "\<not> sv_closed s" "sv_fault s = None"
    and "handle_event sys fds (cn_fd c, EPOLLIN) s = Inr s1"
    and "handle_event sys' fds' (cn_fd c, EPOLLHUP) s1 = Inr s2"
  shows "alarms s2 (mg_next_id s) = Some (sy_now sys + MS (sv_timeout_ms s),
        Some (Keyed_task (mg_next_id s) (cn_fd c) (On_extend (cn_fd c) (cn_id c))))
     \<and> mg_key_id s2 (cn_fd c) = Some (mg_next_id s)
     \<and> (\<exists>s3. run_timeout sys'' (On_extend (cn_fd c) (cn_id c)) s2 = (True, s3) \<and> sv_fault s3 = None
          \<and> sv_users s3 (cn_fd c) = Some default_info
          \<and> add_client sys3 (cn_fd c) addr s3 = Inl Assertion_Failed)"
proof -
  from assms(1) obtain info where live: "server_inv s" "sv_conns s a = Some c" "sv_users s (cn_fd c) = Some info"
    "ci_id info = cn_id c" "0 < cn_fd c" "0 < cn_id c" by (auto elim!: client_connE)
  from assms(7) have "deal_read sys a s = Inr s1" unfolding client_event(2) [OF assms(1)] .
  then obtain s0 where s0: "schedule_with_key (sy_now sys) (cn_fd c) (sv_timeout_ms s) 0 (On_extend (cn_fd c) (cn_id c)) s = Inr s0"
    "s1 = queue_task (Read_task a) s0"
    using live assms(4) by (auto simp: deal_read_def extent_time_def Let_def)
  have t: "alarms s0 (mg_next_id s) = Some (sy_now sys + MS (sv_timeout_ms s),
        Some (Keyed_task (mg_next_id s) (cn_fd c) (On_extend (cn_fd c) (cn_id c))))
      \<and> mg_key_id s0 (cn_fd c) = Some (mg_next_id s)"
  proof (rule schedule_with_key_ok [OF assms(2,3), of "sy_now sys" "cn_fd c" "sv_timeout_ms s" 0 "On_extend (cn_fd c) (cn_id c)"])
    fix m' assume m': "schedule_with_key (sy_now sys) (cn_fd c) (sv_timeout_ms s) 0 (On_extend (cn_fd c) (cn_id c)) s = Inr m'"
      and a: "alarms m' = (case mg_key_id s (cn_fd c) of None \<Rightarrow> alarms s | Some i \<Rightarrow> (alarms s)(i := None))
          (mg_next_id s \<mapsto> (sy_now sys + MS (sv_timeout_ms s),
             Some (Keyed_task (mg_next_id s) (cn_fd c) (On_extend (cn_fd c) (cn_id c)))))"
      and k: "mg_key_id m' = (mg_key_id s)(cn_fd c \<mapsto> mg_next_id s)"
    from m' s0(1) have "m' = s0" by simp
    with a k show ?thesis by simp
  qed
  note same = server_fields [OF schedule_with_key_more [OF s0(1)]]
  have s1: "client_conn s1 a c" using client_conn_more [OF schedule_with_key_more [OF s0(1)]] assms(1) unfolding s0(2) by simp
  from assms(8) have cl: "close_conn sys' a s1 = Inr s2" unfolding client_event(1) [OF s1] .
  have free: "sv_users s2 (cn_fd c) = None"
    using close_conn_frees [OF _ _ cl] s1 by (auto simp: client_conn_def)
  note timers = close_conn_timers [OF cl]
  have 2: "sv_fault s2 = None" "\<not> sv_closed s2"
    using timers same(2,16) assms(5,6) by (simp_all add: s0(2) queue_task_def)
  have "alarms s2 = alarms s0" "mg_key_id s2 = mg_key_id s0"
    using timers by (simp_all add: alarms_def s0(2) queue_task_def)
  moreover have "run_timeout sys'' (On_extend (cn_fd c) (cn_id c)) s2
      = (True, s2\<lparr>sv_users := (sv_users s2)(cn_fd c \<mapsto> default_info)\<rparr>)"
    using free 2 live(6) by (simp add: run_timeout_def user_entry_def default_info_def)
  moreover have "add_client sys3 (cn_fd c) addr (s2\<lparr>sv_users := (sv_users s2)(cn_fd c \<mapsto> default_info)\<rparr>) = Inl Assertion_Failed"
    using live(5) by (simp add: add_client_def make_client_def Let_def)
  ultimately show ?thesis using t 2 by simp
qed

definition demo_timed :: "(int \<rightharpoonup> 32 word, unit) server" where
  "demo_timed = demo_busy\<lparr>sv_timeout_ms := 60000\<rparr>"

lemma demo_timed_facts:
  "client_conn demo_timed 0 demo_conn" "manager_inv demo_timed" "mg_next_id demo_timed \<noteq> int int_max"
  "0 < sv_timeout_ms demo_timed" "\<not> sv_closed demo_timed" "sv_fault demo_timed = None"
proof -
  show "client_conn demo_timed 0 demo_conn"
    using demo_client by (simp add: client_conn_def demo_timed_def server_inv_def)
  have m: "tm_heap demo_timed = []" "tm_ref demo_timed = Map.empty" "mg_next_id demo_timed = 0" "mg_repeats demo_timed = Map.empty"
    "mg_key_id demo_timed = Map.empty"
    by (simp_all add: demo_timed_def demo_busy_def demo_server_def blank_server_def timer_manager.extend_def new_manager_def)
  then show "manager_inv demo_timed"
    by (simp add: manager_inv_def tables_ok_def timer_inv_def ref_ok_def ordered_def alarms_def)
  show "mg_next_id demo_timed \<noteq> int int_max" using m by (simp add: int_max_def)
  show "0 < sv_timeout_ms demo_timed" "\<not> sv_closed demo_timed" "sv_fault demo_timed = None"
    by (simp_all add: demo_timed_def) (simp add: demo_busy_def)
qed

theorem stale_timeout_poisons_descriptor_witness:
  "\<exists>s1 s2 s3. handle_event demo_sys [] (7, EPOLLIN) demo_timed = Inr s1 \<and> handle_event demo_sys [] (7, EPOLLHUP) s1 = Inr s2
     \<and> run_timeout demo_sys (On_extend 7 1) s2 = (True, s3) \<and> add_client demo_sys 7 (0, 0) s3 = Inl Assertion_Failed"
proof -
  note d = demo_timed_facts
  have c: "sv_conns demo_timed 0 = Some demo_conn" "sv_users demo_timed 7 \<noteq> None" using d(1)
    by (auto elim!: client_connE)
  obtain s0 where s0: "schedule_with_key 0 7 (sv_timeout_ms demo_timed) 0 (On_extend 7 1) demo_timed = Inr s0"
    using schedule_with_key_ok [OF d(2,3)] by blast
  have 1: "handle_event demo_sys [] (cn_fd demo_conn, EPOLLIN) demo_timed = Inr (queue_task (Read_task 0) s0)"
    unfolding client_event(2) [OF d(1)] using s0 c d(4) by (auto simp: deal_read_def deref_def extent_time_def demo_timed_def)
  have c1: "client_conn (queue_task (Read_task 0) s0) 0 demo_conn"
    using client_conn_more [OF schedule_with_key_more [OF s0]] d(1) by simp
  then have "server_inv (queue_task (Read_task 0) s0)" "sv_conns (queue_task (Read_task 0) s0) 0 = Some demo_conn"
    by (simp_all only: client_conn_def)
  from close_conn_total [OF this, of demo_sys] obtain s2 where
    2: "handle_event demo_sys [] (cn_fd demo_conn, EPOLLHUP) (queue_task (Read_task 0) s0) = Inr s2"
    unfolding client_event(1) [OF c1] by blast
  from stale_timeout_poisons_descriptor [OF d 1 2, of demo_sys demo_sys "(0, 0)"] 1 2 show ?thesis by auto
qed

section \<open>Reading\<close>

lemma check_client:
  assumes "client_conn s a c"
  shows "check_fd_and_match_id a s = Inr True"
proof (rule client_connE [OF assms])
  fix info
  assume "sv_conns s a = Some c" "cn_fd c \<le> MAX_FD" "sv_users s (cn_fd c) = Some info" "ci_conn info = Some a"
    "ci_id info = cn_id c" "0 < cn_fd c" "0 < cn_id c" "\<not> cn_closed c"
  then show ?thesis by (simp add: check_fd_and_match_id_def deref_def Let_def)
qed

lemma client_conn_store:
  assumes "client_conn s a c" "same_conn c c1"
  shows "client_conn (store_conn a c1 s) a c1"
proof -
  have l: "sv_conns s a = Some c" "server_inv s" "cn_fd c \<le> MAX_FD" "cn_fd c \<noteq> sv_listen_fd s" using assms(1) by (simp_all add: client_conn_def)
  obtain info where i: "sv_users s (cn_fd c) = Some info" "ci_conn info = Some a" "ci_id info = cn_id c" "0 < cn_fd c" "0 < cn_id c"
    "\<not> cn_closed c" using assms(1) by (auto elim!: client_connE)
  have "server_inv (store_conn a c1 s)" by (rule store_same_inv [OF l(2,1) assms(2)])
  then show ?thesis unfolding client_conn_def using i l(3,4) assms(2) by (simp add: store_conn_def same_conn_def)
qed

text \<open>The end of the stream destroys the connection.\<close>

lemma end_of_stream_closes:
  assumes "client_conn s a c" "conn_read (sv_et s) (sy_mem sys) rv 0 c = Inr (0, err, c1)"
  shows "\<exists>s'. on_read sys rv a s = Inr s' \<and> sv_conns s' = (sv_conns s)(a := None) \<and> sv_users s' = (sv_users s)(cn_fd c := None)
     \<and> sv_pool s' = sv_pool s \<and> cw_closed (sv_world s') = cn_fd c # cw_closed (sv_world s)"
proof -
  have same: "same_conn c c1" using read_loop_same assms(2) by (auto simp: conn_read_def)
  then have "client_conn (store_conn a c1 s) a c1" by (rule client_conn_store [OF assms(1)])
  then have inv: "server_inv (store_conn a c1 s)" "sv_conns (store_conn a c1 s) a = Some c1" by (simp_all add: client_conn_def)
  from close_conn_total [OF inv, of sys] obtain s' where s': "close_conn sys a (store_conn a c1 s) = Inr s'" by blast
  have "sv_conns s a = Some c" using assms(1) by (simp add: client_conn_def)
  then have "on_read sys rv a s = Inr s'"
    using check_client [OF assms(1)] assms(2) s' by (simp add: on_read_def deref_def Let_def)
  with close_conn_frees [OF inv s'] same show ?thesis by (auto simp: store_conn_def same_conn_def)
qed

text \<open>
  C34: a read that finds nothing closes the connection. When the kernel answers \<open>EAGAIN\<close> at once, which is no error on a non-blocking
  socket, \<open>onRead\<close> re-arms the descriptor and then still calls \<open>handleReadError\<close>: the connection is closed. If
  re-arming fails, it is closed twice, the second time through a dangling pointer.
\<close>

theorem spurious_read_closes:
  assumes "client_conn s a c" "conn_read (sv_et s) (sy_mem sys) rv 0 c = Inr (ret, EAGAIN, c1)" "ret < 0"
  shows "(fst (sy_ctl sys CTL_MOD (cn_fd c) EPOLLIN (sv_kernel s)) \<longrightarrow>
            (\<exists>s'. on_read sys rv a s = Inr s' \<and> sv_conns s' a = None \<and> sv_users s' (cn_fd c) = None
              \<and> cw_closed (sv_world s') = cn_fd c # cw_closed (sv_world s)))
     \<and> (\<not> fst (sy_ctl sys CTL_MOD (cn_fd c) EPOLLIN (sv_kernel s)) \<longrightarrow> on_read sys rv a s = Inl Undefined_Behaviour)"
proof -
  obtain ok k where m: "sy_ctl sys CTL_MOD (cn_fd c) EPOLLIN (sv_kernel s) = (ok, k)" by fastforce
  let ?s1 = "store_conn a c1 s" and ?s2 = "(store_conn a c1 s)\<lparr>sv_kernel := k\<rparr>"
  have same: "same_conn c c1" using read_loop_same assms(2) by (auto simp: conn_read_def)
  have fd: "0 < cn_fd c" "sv_conns s a = Some c" "cn_fd c1 = cn_fd c"
    using assms(1) same by (auto elim!: client_connE simp: same_conn_def)
  have "client_conn ?s1 a c1" by (rule client_conn_store [OF assms(1) same])
  then have s2: "server_inv ?s2" "sv_conns ?s2 a = Some c1" by (simp_all add: client_conn_def)
  from close_conn_total [OF this, of sys] obtain s3 where s3: "close_conn sys a ?s2 = Inr s3" by blast
  note freed = close_conn_frees [OF s2 s3]
  have dangling: "deref a s3 f = Inl Undefined_Behaviour" for f :: "conn \<Rightarrow> ('a, 'b) server outcome"
    using freed by (simp add: deref_def)
  have md: "mod_fd (sy_ctl sys) (cn_fd c) EPOLLIN (sv_kernel ?s1) = (ok, k)"
    using m fd(1) by (simp add: mod_fd_def store_conn_def)
  have run: "on_read sys rv a s = and_then (rearm sys a (cn_fd c) EPOLLIN True ?s1) (handle_read_error sys a)"
    using assms(2,3) check_client [OF assms(1)] fd(2) by (simp add: on_read_def deref_def Let_def)
  have "on_read sys rv a s = (if ok then Inr s3 else Inl Undefined_Behaviour)"
    unfolding run using md s2(2) s3 dangling by (simp add: rearm_def handle_read_error_def Let_def deref_def)
  moreover have "cw_closed (sv_world s3) = cn_fd c # cw_closed (sv_world s)" "sv_conns s3 a = None" "sv_users s3 (cn_fd c) = None"
    using freed fd(3) by (simp_all add: store_conn_def)
  ultimately show ?thesis unfolding m by simp
qed

theorem spurious_read_closes_witness:
  "\<exists>s' c1. conn_read True 1000000 (\<lambda>k cap. Inl EAGAIN) 0 demo_conn = Inr (-1, EAGAIN, c1)
     \<and> on_read demo_sys (\<lambda>k cap. Inl EAGAIN) 0 demo_busy = Inr s' \<and> sv_conns s' 0 = None \<and> cw_closed (sv_world s') = [7]"
proof -
  let ?rv = "\<lambda>(k :: nat) (cap :: nat). Inl EAGAIN :: int + string"
  have "\<not> writable_bytes (cn_read demo_conn) < 1024"
    by (simp add: demo_conn_def writable_bytes_def INIT_BUFFER_SIZE_def sz_sub_def size_lim_def)
  then have "read_fd 1000000 (?rv 0) 0 (cn_read demo_conn) = Inr (-1, EAGAIN, cn_read demo_conn)"
    by (simp add: read_fd_def read_fd_tail_def Let_def)
  then have r: "conn_read True 1000000 ?rv 0 demo_conn = Inr (-1, EAGAIN, demo_conn)"
    by (simp add: conn_read_def read_loop.simps [of True 1000000 ?rv 0 0 0 demo_conn] Let_def)
  then have "conn_read (sv_et demo_busy) (sy_mem demo_sys) ?rv 0 demo_conn = Inr (-1, EAGAIN, demo_conn)" by simp
  moreover have "fst (sy_ctl demo_sys CTL_MOD (cn_fd demo_conn) EPOLLIN (sv_kernel demo_busy))"
    by (simp add: demo_busy_def)
  ultimately obtain s' where "on_read demo_sys ?rv 0 demo_busy = Inr s'" "sv_conns s' 0 = None" "cw_closed (sv_world s') = [7]"
    using spurious_read_closes [OF demo_client] by fastforce
  with r show ?thesis by blast
qed

section \<open>Refusing and giving up clients\<close>

text \<open>
  C35: a client that cannot be registered has its descriptor closed twice. When the descriptor cannot be made non-blocking or
  epoll refuses it, \<open>addClient\<close> erases the entry, whose destructor closes the descriptor, and closes it again; the
  second \<open>close\<close> hits whatever has got the number in the meantime.
\<close>

theorem refused_client_closed_twice:
  assumes "server_inv s" "sv_next_id s + 1 < size_lim" "add_client sys fd addr s = Inr s'" "new_conn (sy_mem sys) = Inr c0"
    and "sv_users s' fd = None"
  shows "cw_closed (sv_world s') = fd # fd # cw_closed (sv_world s) \<and> cw_users (sv_world s') = cw_users (sv_world s)"
proof -
  have n: "sz_add (sv_next_id s) (Suc 0) = Suc (sv_next_id s)" using sz_add_exact [OF assms(2)] by simp
  from assms(3) obtain held s1 s2 where fd: "0 < fd"
    and m: "make_client sys fd addr (sv_next_id s) (s\<lparr>sv_next_id := sv_next_id s + 1\<rparr>) = Inr (held, s1)"
    and t: "(if 0 < sv_timeout_ms s1 then schedule_with_key (sy_now sys) fd (sv_timeout_ms s1) 0
               (On_add fd (sv_next_id s)) s1 else Inr s1) = Inr s2"
    by (simp add: add_client_def Let_def n) blast
  have s1: "server_inv s1" by (rule make_client_inv [OF m assms(1) fd])
  have s1f: "\<not> held" "sv_users s1 fd = Some (default_info\<lparr>ci_conn := Some (sv_fresh s), ci_id := sv_next_id s\<rparr>)"
    "cw_users (sv_world s1) = cw_users (sv_world s) + 1" "cw_closed (sv_world s1) = cw_closed (sv_world s)"
    using m assms(4) fd by (auto simp: make_client_def conn_init_def Let_def)
  have "timer_manager.more s2 = timer_manager.more s1"
    using t by (auto dest: schedule_with_key_more split: if_splits)
  note same = server_fields [OF this] server_inv_more [OF this]
  have s2: "server_inv (s2\<lparr>sv_kernel := k\<rparr>)" "server_inv s2" "sv_users s2 fd = Some (default_info\<lparr>ci_conn := Some (sv_fresh s), ci_id := sv_next_id s\<rparr>)"
    "cw_users (sv_world s2) = cw_users (sv_world s) + 1" "cw_closed (sv_world s2) = cw_closed (sv_world s)" for k
    using s1 s1f same by simp_all
  have drop: "cw_closed (sv_world s') = fd # fd # cw_closed (sv_world s) \<and> cw_users (sv_world s') = cw_users (sv_world s)"
    if "drop_client False fd s3 = Inr s'" "s3 = s2 \<or> s3 = s2\<lparr>sv_kernel := k\<rparr>" for s3 k
  proof -
    from that(1) obtain s4 where s4: "erase_user fd s3 = Inr s4" "s' = close_fd fd s4" by (auto simp: drop_client_def)
    have "server_inv s3" "sv_users s3 fd = sv_users s2 fd" "sv_world s3 = sv_world s2" using that(2) s2(1,2) by auto
    with erase_user_cases [OF _ s4(1)] s2(3-5) s4(2) show ?thesis by (simp add: close_fd_def)
  qed
  obtain r where r: "set_fd_non_block sys fd = Inr r" using fd by (simp add: set_fd_non_block_def)
  obtain ok k where k: "add_fd (sy_ctl sys) (sv_epoller s2) fd (EPOLLIN OR sv_conn_event s2) (sv_kernel s2) = (ok, k)" by fastforce
  have "(if r = -1 then drop_client False fd s2 else if \<not> ok then drop_client False fd (s2\<lparr>sv_kernel := k\<rparr>)
      else Inr (s2\<lparr>sv_kernel := k\<rparr>)) = Inr s'"
  proof -
    have "(if r = -1 then drop_client False fd s2 else case add_fd (sy_ctl sys) (sv_epoller s2) fd (EPOLLIN OR sv_conn_event s2) (sv_kernel s2) of
        (ok, k) \<Rightarrow> let s3 = s2\<lparr>sv_kernel := k\<rparr> in if \<not> ok then drop_client False fd s3 else Inr s3) = Inr s'"
      using assms(3) fd s1f(1) m [simplified] t r by (simp add: add_client_def Let_def n)
    then show ?thesis unfolding k by (simp only: prod.case Let_def)
  qed
  with drop [of s2] drop [of "s2\<lparr>sv_kernel := k\<rparr>" k] s2(3) assms(5) show ?thesis by (auto split: if_splits)
qed

theorem refused_client_closed_twice_witness:
  "\<exists>s'. add_client (demo_sys\<lparr>sy_getfl := (\<lambda>fd. -1)\<rparr>) 9 (0, 0) demo_busy = Inr s' \<and> cw_closed (sv_world s') = [9, 9]"
proof -
  let ?sys = "demo_sys\<lparr>sy_getfl := (\<lambda>fd. -1)\<rparr>"
  obtain c0 where c0: "new_conn (sy_mem ?sys) = Inr c0" using demo_new_conn by auto
  have inv: "server_inv demo_busy" using demo_client by (simp add: client_conn_def)
  let ?c = "(set_conn_id 2 c0)\<lparr>cn_addr := (0, 0), cn_fd := 9, cn_write := retrieve_all (cn_write c0),
    cn_read := retrieve_all (cn_read c0), cn_closed := False\<rparr>"
  obtain w where w: "conn_destroy (?c, (sv_world demo_busy)\<lparr>cw_users := 2\<rparr>) = Inr w"
    using conn_destroy_total [of ?c "(sv_world demo_busy)\<lparr>cw_users := 2\<rparr>"] by auto
  then have "\<exists>s'. add_client ?sys 9 (0, 0) demo_busy = Inr s' \<and> sv_users s' 9 = None"
    using c0 by (simp add: add_client_def make_client_def conn_init_def set_fd_non_block_def drop_client_def erase_user_def deref_def
        sz_add_def size_lim_def Let_def close_fd_def demo_busy_def default_info_def set_conn_id_def)
  then obtain s' where "add_client ?sys 9 (0, 0) demo_busy = Inr s'" "sv_users s' 9 = None" by blast
  with refused_client_closed_twice [OF inv _ this(1) c0 this(2)] show ?thesis by (auto simp: size_lim_def)
qed

text \<open>The task of \<open>closeConnAsync\<close> closes the descriptor and then destroys the open connection, which closes it again.\<close>

lemma closed_async_twice:
  assumes "client_conn s a c" "sv_timeout_ms s \<le> 0"
    and "run_close_task sys (cn_fd c) (Some a) (close_conn_async (cn_fd c) s) = Inr s'"
  shows "cw_closed (sv_world s') = cn_fd c # cn_fd c # cw_closed (sv_world s)"
proof -
  from assms(1) obtain info where live: "sv_conns s a = Some c" "sv_users s (cn_fd c) = Some info" "ci_conn info = Some a"
    "0 < cn_fd c" "0 < cn_id c" "\<not> cn_closed c" by (auto elim!: client_connE)
  obtain ok k where k: "sy_ctl sys CTL_DEL (cn_fd c) 0 (sv_kernel s) = (ok, k)" by fastforce
  from assms(2,3) live k obtain w where w: "conn_destroy (c, (sv_world s)\<lparr>cw_closed := cn_fd c # cw_closed (sv_world s)\<rparr>) = Inr w"
    "sv_world s' = w"
    by (auto simp: run_close_task_def close_conn_async_def close_conn_internal_def deref_def del_fd_ok Let_def close_fd_def
        erase_user_def queue_task_def)
  from conn_destroy_cases [OF w(1)] live(6) w(2) show ?thesis by simp
qed

text \<open>\<open>Stop\<close> and the destructor flush and shut down the logger, whose mutex is not recursive: they never return.\<close>

lemma stopping_never_returns: "stop_server ok s lg = Inl Deadlock" "destroy_server s lg = Inl Deadlock"
  by (simp_all add: stop_server_def destroy_server_def log_flush_def log_shutdown_def locking_def Let_def)

text \<open>\<open>main\<close> runs the server through a null pointer when the configuration file cannot be read.\<close>

lemma missing_config_is_undefined:
  assumes "\<not> cf_exists (fs ''config.toml'')"
  shows "main_prologue sys su fs k db lg = Inl Undefined_Behaviour"
  using assms
  by (simp add: main_prologue_def server_from_config_def config_init_def config_read_def new_config_def log_init_def
      locking_def Let_def)

end
