(* ===== verification/Server_Watch.thy ===== *)
theory Server_Watch
  imports Server_Behaviour
begin

text \<open>
  The server with its timer manager and the kernel's epoll instance: what holds between the three in every reachable state.
\<close>

unbundle bit_operations_syntax

section \<open>Framing\<close>

lemma manager_truncate:
  fixes s s' :: "('u, 'z) timer_manager_scheme"
  assumes "timer_manager.truncate s' = timer_manager.truncate s"
  shows "alarms s' = alarms s" "mg_key_id s' = mg_key_id s" "mg_repeats s' = mg_repeats s" "manager_inv s' = manager_inv s"
proof -
  have f: "tm_heap s' = tm_heap s" "tm_ref s' = tm_ref s" "mg_next_id s' = mg_next_id s" and *: "mg_repeats s' = mg_repeats s" "mg_key_id s' = mg_key_id s"
    using assms by (cases s; cases s'; simp add: timer_manager.truncate_def)+
  then have al: "alarms s' = alarms s" and "timer_inv s' = timer_inv s"
    by (simp_all add: alarms_def [abs_def] timer_inv_def ref_ok_def ordered_def key_def [abs_def])
  then show "alarms s' = alarms s" "mg_key_id s' = mg_key_id s" "mg_repeats s' = mg_repeats s" "manager_inv s' = manager_inv s"
    using f * by (simp_all add: manager_inv_def)
qed

lemma manager_inv_fields [simp]:
  fixes s :: "('k, 'd) server"
  shows "manager_inv (s\<lparr>sv_kernel := k\<rparr>) = manager_inv s" "manager_inv (s\<lparr>sv_fault := f\<rparr>) = manager_inv s"
    "manager_inv (s\<lparr>sv_epoller := e\<rparr>) = manager_inv s" "manager_inv (s\<lparr>sv_pool := p\<rparr>) = manager_inv s"
    "manager_inv (s\<lparr>sv_users := u\<rparr>) = manager_inv s" "manager_inv (s\<lparr>sv_next_id := n\<rparr>) = manager_inv s"
    "manager_inv (s\<lparr>sv_conns := cs\<rparr>) = manager_inv s" "manager_inv (s\<lparr>sv_world := w\<rparr>) = manager_inv s"
    "manager_inv (s\<lparr>sv_db := db\<rparr>) = manager_inv s" "manager_inv (s\<lparr>sv_fresh := i\<rparr>) = manager_inv s"
    "manager_inv (queue_task t s) = manager_inv s" "manager_inv (close_fd fd s) = manager_inv s"
    "manager_inv (store_conn a c s) = manager_inv s"
  by (rule manager_truncate(4), simp add: timer_manager.truncate_def queue_task_def close_fd_def store_conn_def)+

lemma erase_user_truncate: "erase_user fd s = Inr s' \<Longrightarrow> timer_manager.truncate s' = timer_manager.truncate s"
  by (auto simp: erase_user_def timer_manager.truncate_def split: option.splits)

lemma close_conn_truncate:
  "close_conn sys a s = Inr s' \<Longrightarrow> timer_manager.truncate s' = timer_manager.truncate s"
  by (auto simp: close_conn_def Let_def timer_manager.truncate_def dest!: erase_user_truncate
      split: if_splits prod.splits option.splits)

lemma user_entry_truncate:
  "user_entry fd s = (info, s') \<Longrightarrow> timer_manager.truncate s' = timer_manager.truncate s \<and> sv_kernel s' = sv_kernel s"
  by (auto simp: user_entry_def timer_manager.truncate_def split: option.splits)

lemma timeout_body_truncate:
  assumes "timeout_body sys t s = Inr s'"
  shows "timer_manager.truncate s' = timer_manager.truncate s"
proof (cases t)
  case (On_add fd i)
  with assms show ?thesis by (auto dest: close_conn_truncate split: option.splits if_splits)
next
  case (On_extend fd i)
  obtain info s1 where e: "user_entry fd s = (info, s1)" by fastforce
  with assms On_extend user_entry_truncate [OF e] show ?thesis by (auto dest: close_conn_truncate split: option.splits if_splits)
qed

lemma run_timeout_truncate: "timer_manager.truncate (snd (run_timeout sys t s)) = timer_manager.truncate s"
proof (cases "timeout_body sys t s")
  case (Inl e)
  then show ?thesis by (simp add: run_timeout_def timer_manager.truncate_def)
next
  case (Inr s')
  with timeout_body_truncate [OF Inr] show ?thesis by (simp add: run_timeout_def)
qed

text \<open>The server's callbacks leave the timer manager alone, as its lemmas want.\<close>

lemma run_timeout_user_ok: "user_ok (run_timeout sys)" "no_revival (run_timeout sys)"
  by (simp_all add: user_ok_def no_revival_def manager_truncate [OF run_timeout_truncate])

lemma schedule_with_key_inv:
  fixes m :: "('u, 'z) timer_manager_scheme"
  assumes "schedule_with_key now k ms repeats u m = Inr m'" "manager_inv m"
  shows "manager_inv m'"
proof -
  have "mg_next_id (cancel_by_key k m) \<noteq> int int_max"
    using assms(1) by (auto simp: schedule_with_key_def do_schedule_with_key_def dest: next_timer_id_Inr)
  with cancel_by_key_ok [OF assms(2), of k] have "mg_next_id m \<noteq> int int_max" by simp
  with assms show ?thesis by (metis schedule_with_key_ok sum.inject(2))
qed

section \<open>Registered connections\<close>

text \<open>Outside \<open>F\<close>, the descriptor of every connection object is in the kernel's interest list.\<close>

definition watched :: "('k \<Rightarrow> int \<rightharpoonup> 32 word) \<Rightarrow> int set \<Rightarrow> ('k, 'd) server \<Rightarrow> bool" where
  "watched interest F s \<longleftrightarrow>
     (\<forall>a c. sv_conns s a = Some c \<longrightarrow> cn_fd c \<notin> F \<longrightarrow> interest (sv_kernel s) (cn_fd c) \<noteq> None)"

definition server_ok :: "('k \<Rightarrow> int \<rightharpoonup> 32 word) \<Rightarrow> ('k, 'd) server \<Rightarrow> bool" where
  "server_ok interest s \<longleftrightarrow> server_inv s \<and> manager_inv s \<and> watched interest {} s"

lemma server_ok_fields [simp]:
  "server_ok interest (s\<lparr>sv_fault := e\<rparr>) = server_ok interest s" "server_ok interest (s\<lparr>sv_epoller := ep\<rparr>) = server_ok interest s"
  "server_ok interest (queue_task t s) = server_ok interest s" "server_ok interest (close_fd fd s) = server_ok interest s"
  "server_ok interest (s\<lparr>sv_pool := p\<rparr>) = server_ok interest s"
  by (simp_all add: server_ok_def) (simp_all add: watched_def queue_task_def close_fd_def)

text \<open>\<open>epoll_ctl\<close> on one descriptor leaves the others in the list, and only a removal takes its own out.\<close>

lemma ctl_keeps:
  assumes "epoll_contract interest ctl" "ctl oper fd ev k = (ok, k')" "interest k f \<noteq> None" "f \<noteq> fd \<or> oper \<noteq> CTL_DEL"
  shows "interest k' f \<noteq> None"
proof (cases ok)
  case False
  with assms epoll_contractD(1) [OF assms(1), of oper fd ev k k'] show ?thesis by simp
next
  case True
  with assms epoll_contractD(2-4) [OF assms(1), of fd ev k k'] show ?thesis by (cases oper) auto
qed

lemma erase_user_watched:
  assumes "erase_user fd s = Inr s'" "server_inv s" "watched interest {fd} s"
  shows "server_inv s' \<and> watched interest {} s'"
proof -
  note e = erase_user_cases [OF assms(2,1)]
  have k: "sv_kernel s' = sv_kernel s" using assms(1) by (auto simp: erase_user_def split: option.splits)
  have sub: "sv_conns s a = Some c" if "sv_conns s' a = Some c" for a c
    using e that by (auto split: option.splits if_splits)
  have "cn_fd c \<noteq> fd" if "sv_conns s' a = Some c" for a c
    using server_inv_live [of s' a c] that e by (auto simp: live_def)
  with sub assms(3) k have "watched interest {} s'" by (fastforce simp: watched_def)
  with e show ?thesis by simp
qed

lemma watched_less: "watched interest {} s \<Longrightarrow> watched interest F s"
  by (simp add: watched_def)

lemma close_conn_watched:
  assumes "close_conn sys a s = Inr s'" "epoll_contract interest (sy_ctl sys)" "server_inv s \<and> watched interest {} s"
  shows "server_inv s' \<and> watched interest {} s'"
proof -
  from assms(1) obtain c where c: "sv_conns s a = Some c" by (auto simp: close_conn_def)
  have s: "server_inv s" "watched interest {} s" using assms(3) by auto
  obtain ok k where k: "sy_ctl sys CTL_DEL (cn_fd c) 0 (sv_kernel s) = (ok, k)" by fastforce
  have w: "watched interest {cn_fd c} (s\<lparr>sv_kernel := k\<rparr>)"
    using s(2) ctl_keeps [OF assms(2) k] by (auto simp: watched_def)
  from assms(1) show ?thesis
    unfolding close_conn_erases [OF s(1) c] k snd_conv
    using erase_user_watched [of "cn_fd c" s s' interest] erase_user_watched [OF _ _ w, of s'] s watched_less [OF s(2)]
    by (auto split: if_splits)
qed

lemma close_conn_ok:
  assumes "close_conn sys a s = Inr s'" "epoll_contract interest (sy_ctl sys)" "server_ok interest s"
  shows "server_ok interest s'"
  using close_conn_watched [OF assms(1,2)] assms(3) manager_truncate(4) [OF close_conn_truncate [OF assms(1)]]
  by (simp add: server_ok_def)

section \<open>Every handler keeps them\<close>

lemma timer_part_ok:
  assumes "timer_manager.more s' = timer_manager.more s" "manager_inv s'" "server_ok interest s"
  shows "server_ok interest s'"
  using assms server_fields [OF assms(1)] server_inv_more [OF assms(1)] by (simp add: server_ok_def watched_def)

lemma user_entry_ok:
  assumes "user_entry fd s = (info, s')" "server_ok interest s"
  shows "server_ok interest s'"
proof -
  have s: "server_inv s" "manager_inv s" "watched interest {} s" using assms(2) by (simp_all add: server_ok_def)
  note t = user_entry_truncate [OF assms(1)]
  then have "manager_inv s' = manager_inv s" by (intro manager_truncate(4)) simp
  with t s user_entry_inv [OF assms(1) s(1)] show ?thesis by (simp add: server_ok_def watched_def)
qed

lemma timeout_body_cases:
  assumes "timeout_body sys t s = Inr s'"
  obtains s1 where "s1 = s \<or> (\<exists>fd info. user_entry fd s = (info, s1))" "s' = s1 \<or> (\<exists>a. close_conn sys a s1 = Inr s')"
proof (cases t)
  case (On_add fd i)
  with assms have "s' = s \<or> (\<exists>a. close_conn sys a s = Inr s')" by (auto split: option.splits if_splits)
  with that show ?thesis by blast
next
  case (On_extend fd i)
  obtain info s1 where e: "user_entry fd s = (info, s1)" by fastforce
  with assms On_extend have "s' = s \<or> s' = s1 \<or> (\<exists>a. close_conn sys a s1 = Inr s')"
    by (auto split: option.splits if_splits)
  with e that show ?thesis by blast
qed

lemma timeout_body_ok:
  assumes "timeout_body sys t s = Inr s'" "epoll_contract interest (sy_ctl sys)" "server_ok interest s"
  shows "server_ok interest s'"
  using assms(1)
proof (rule timeout_body_cases)
  fix s1
  assume "s1 = s \<or> (\<exists>fd info. user_entry fd s = (info, s1))" and e: "s' = s1 \<or> (\<exists>a. close_conn sys a s1 = Inr s')"
  then have "server_ok interest s1" using user_entry_ok assms(3) by blast
  with e close_conn_ok [OF _ assms(2)] show ?thesis by blast
qed

lemma run_timeout_ok:
  "epoll_contract interest (sy_ctl sys) \<Longrightarrow> server_ok interest s \<Longrightarrow> server_ok interest (snd (run_timeout sys t s))"
  by (auto simp: run_timeout_def dest: timeout_body_ok split: sum.split)

lemma extent_time_server_ok:
  assumes "extent_time sys a s = Inr s'" "server_ok interest s"
  shows "server_ok interest s'"
proof -
  have "s' = s \<or> (\<exists>k u. schedule_with_key (sy_now sys) k (sv_timeout_ms s) 0 u s = Inr s')"
    using assms(1) by (auto simp: extent_time_def Let_def split: if_splits option.splits)
  then show ?thesis
  proof
    assume "\<exists>k u. schedule_with_key (sy_now sys) k (sv_timeout_ms s) 0 u s = Inr s'"
    then obtain k u where k: "schedule_with_key (sy_now sys) k (sv_timeout_ms s) 0 u s = Inr s'" by blast
    have "manager_inv s" using assms(2) by (simp add: server_ok_def)
    from timer_part_ok [OF schedule_with_key_more [OF k] schedule_with_key_inv [OF k this] assms(2)] show ?thesis .
  qed (use assms(2) in simp)
qed

lemma store_conn_ok:
  assumes "server_ok interest s" "sv_conns s a = Some c" "same_conn c c1"
  shows "server_ok interest (store_conn a c1 s)"
proof -
  have "server_inv (store_conn a c1 s)" using assms by (auto simp: server_ok_def intro: store_same_inv)
  moreover have "watched interest {} (store_conn a c1 s)"
    using assms by (auto simp: server_ok_def watched_def store_conn_def same_conn_def)
  ultimately show ?thesis using assms(1) by (simp add: server_ok_def)
qed

interpretation watched_steps: handler_steps sys a
  "\<lambda>s s'. epoll_contract interest (sy_ctl sys) \<longrightarrow> server_ok interest s \<longrightarrow> server_ok interest s'" for sys a interest
proof (unfold_locales, goal_cases)
  case (3 s c c1)
  then show ?case using store_conn_ok by blast
next
  case (4 fd ev s ok k)
  have "interest k f \<noteq> None" if "epoll_contract interest (sy_ctl sys)" "interest (sv_kernel s) f \<noteq> None" for f
    using 4 that ctl_keeps [OF that(1), of CTL_MOD fd ev "sv_kernel s" ok k f] by (auto simp: mod_fd_def split: if_splits)
  then show ?case by (auto simp: server_ok_def watched_def)
next
  case (5 s fc db)
  then show ?case by (simp add: server_ok_def server_inv_def watched_def)
next
  case (6 s s')
  then show ?case using close_conn_ok by blast
next
  case (7 s s')
  then show ?case using extent_time_server_ok by blast
qed auto

lemma deal_ok:
  "deal_read sys a s = Inr s' \<Longrightarrow> server_ok interest s \<Longrightarrow> server_ok interest s'"
  "deal_write sys a s = Inr s' \<Longrightarrow> server_ok interest s \<Longrightarrow> server_ok interest s'"
  by (auto simp: deal_read_def deal_write_def dest: extent_time_server_ok split: if_splits)

text \<open>A new connection is in the table before it is in epoll; if it does not get there, it is taken out again.\<close>

lemma make_client_watched:
  assumes "make_client sys fd addr i s = Inr (held, s')" "manager_inv s" "watched interest {} s"
  shows "manager_inv s' \<and> watched interest {fd} s' \<and> sv_kernel s' = sv_kernel s"
  using assms
  by (auto simp: make_client_def conn_init_def watched_def set_conn_id_def Let_def split: sum.splits if_splits)

lemma drop_client_ok:
  assumes "drop_client held fd s = Inr s'" "server_inv s" "manager_inv s" "watched interest {fd} s"
  shows "server_ok interest s'"
proof -
  from assms(1) obtain s1 where s1: "erase_user fd s = Inr s1" "s' = close_fd fd s1" by (auto simp: drop_client_def split: if_splits)
  from erase_user_watched [OF s1(1) assms(2,4)] manager_truncate(4) [OF erase_user_truncate [OF s1(1)]] assms(3) show ?thesis
    unfolding s1(2) server_ok_fields by (simp add: server_ok_def)
qed

lemma add_client_ok:
  assumes "add_client sys fd addr s = Inr s'" "epoll_contract interest (sy_ctl sys)" "server_ok interest s"
    and "sv_next_id s + 1 < size_lim"
  shows "server_ok interest s'"
proof (rule add_client_stages [OF assms(1)])
  have s: "server_inv s" "manager_inv s" "watched interest {} s" using assms(3) by (auto simp: server_ok_def)
  note n = sz_add_exact [OF assms(4)]
  fix held s1 s2 r
  assume fd: "0 < fd"
    and m: "make_client sys fd addr (sv_next_id s) (s\<lparr>sv_next_id := sz_add (sv_next_id s) 1\<rparr>) = Inr (held, s1)"
    and t: "(if 0 < sv_timeout_ms s1 then schedule_with_key (sy_now sys) fd (sv_timeout_ms s1) 0 (On_add fd (sv_next_id s)) s1
      else Inr s1) = Inr s2"
    and rest: "(if r = -1 then drop_client held fd s2
      else case add_fd (sy_ctl sys) (sv_epoller s2) fd (EPOLLIN OR sv_conn_event s2) (sv_kernel s2) of
        (ok, k) \<Rightarrow> let s3 = s2\<lparr>sv_kernel := k\<rparr> in if \<not> ok then drop_client held fd s3 else Inr s3) = Inr s'"
  have "watched interest {} (s\<lparr>sv_next_id := sv_next_id s + 1\<rparr>)" using s(3) by (simp add: watched_def)
  from make_client_watched [OF m [unfolded n] _ this] s(2) make_client_inv [OF m [unfolded n] s(1) fd]
  have s1: "server_inv s1" "manager_inv s1" "watched interest {fd} s1" by simp_all
  have more: "timer_manager.more s2 = timer_manager.more s1"
    using t by (auto dest: schedule_with_key_more split: if_splits)
  have inv2: "server_inv s2" "watched interest {fd} s2"
    using s1 server_inv_more [OF more] server_fields(9,13) [OF more] by (simp_all add: watched_def)
  have man2: "manager_inv s2"
    using t s1(2) by (auto dest: schedule_with_key_inv split: if_splits)
  obtain ok k where k: "add_fd (sy_ctl sys) (sv_epoller s2) fd (EPOLLIN OR sv_conn_event s2) (sv_kernel s2) = (ok, k)" by fastforce
  obtain ev where ctl: "sy_ctl sys CTL_ADD fd ev (sv_kernel s2) = (ok, k)"
    using k fd by (auto simp: add_fd_def Let_def split: if_splits)
  have w3: "watched interest {fd} (s2\<lparr>sv_kernel := k\<rparr>)"
    using inv2(2) ctl_keeps [OF assms(2) ctl] by (auto simp: watched_def)
  have in3: "watched interest {} (s2\<lparr>sv_kernel := k\<rparr>)" if ok
    using w3 epoll_contractD(2) [OF assms(2)] ctl that by (auto simp: watched_def)
  have dropped: "server_ok interest s'" if "drop_client held fd s2 = Inr s' \<or> drop_client held fd (s2\<lparr>sv_kernel := k\<rparr>) = Inr s'"
    using that drop_client_ok [OF _ inv2(1) man2 inv2(2)] drop_client_ok [OF _ _ _ w3] inv2(1) man2 by auto
  from rest k dropped in3 inv2(1) man2 show ?thesis
    by (auto simp: Let_def server_ok_def split: if_splits)
qed

lemma next_tick_ok:
  assumes "manager_next_tick clock now' now (run_timeout sys) s = (ms, s')" "epoll_contract interest (sy_ctl sys)" "server_ok interest s"
  shows "server_ok interest s'"
proof -
  let ?Q = "\<lambda>m :: ('a, 'b) server. server_inv m \<and> watched interest {} m"
  have "?Q s'"
  proof (rule next_tick_server [where Q = ?Q, OF _ _ assms(1)])
    fix t and m :: "('a, 'b) server"
    assume m: "?Q m"
    show "?Q (snd (run_timeout sys t m))"
    proof (cases "timeout_body sys t m")
      case (Inl e)
      with m show ?thesis by (simp add: run_timeout_def watched_def)
    next
      case (Inr m')
      have "server_inv m' \<and> watched interest {} m'"
        using Inr
      proof (rule timeout_body_cases)
        fix m1
        assume a: "m1 = m \<or> (\<exists>fd info. user_entry fd m = (info, m1))" "m' = m1 \<or> (\<exists>a. close_conn sys a m1 = Inr m')"
        have "server_inv m1 \<and> watched interest {} m1"
          using a(1) m user_entry_inv [of _ m _ m1] user_entry_truncate [of _ m _ m1] by (auto simp: watched_def)
        with a(2) show ?thesis using close_conn_watched [OF _ assms(2)] by blast
      qed
      with m Inr show ?thesis by (simp add: run_timeout_def)
    qed
  next
    fix m m' :: "('a, 'b) server"
    assume "timer_manager.more m' = timer_manager.more m"
    from server_inv_more [OF this] server_fields [OF this] show "?Q m' = ?Q m" by (simp add: watched_def)
  qed (use assms(3) in \<open>simp add: server_ok_def\<close>)
  moreover have "s' = tick clock (\<lambda>p. run_task (now p) (run_timeout sys)) s"
    using assms(1) by (auto simp: manager_next_tick_def get_next_tick_def Let_def split: list.splits)
  moreover have "manager_inv s" using assms(3) by (simp add: server_ok_def)
  ultimately show ?thesis
    using manager_update_inv [OF _ run_timeout_user_ok, of s] by (simp add: server_ok_def)
qed

interpretation watched_reactor: reactor_steps sys "\<lambda>s. epoll_contract interest (sy_ctl sys) \<longrightarrow> server_ok interest s" for sys interest
proof (unfold_locales, goal_cases)
  case (3 fd s info s1)
  then show ?case using user_entry_ok [OF 3(1)] by simp
next
  case (4 fd addr s s')
  then show ?case using add_client_ok [OF 4(1)] by simp
next
  case (5 a s s')
  then show ?case using close_conn_ok [OF 5(1)] by simp
next
  case (6 a s s')
  then show ?case using deal_ok [of sys a s s'] by simp
next
  case (7 a s s')
  then show ?case using deal_ok [of sys a s s'] by simp
next
  case (8 clock now' s ms s')
  then show ?case using next_tick_ok [OF 8(1)] by simp
qed simp_all

lemma run_round_ok:
  assumes "run_round sys clock now' answer fds s = Inr (ms, s')" "epoll_contract interest (sy_ctl sys)" "server_ok interest s"
    and "ids_left answer fds s"
  shows "server_ok interest s'"
  using watched_reactor.run_round_keeps [OF assms(1) _ assms(4)] assms(2,3) by blast

section \<open>One kernel\<close>

text \<open>The steps of \<open>server_step\<close> in which \<open>epoll_ctl\<close> is one and the same function.\<close>

inductive kernel_step :: "'k epoll_ctl \<Rightarrow> ('k, 'd) server \<Rightarrow> ('k, 'd) server \<Rightarrow> bool" for ctl where
  kernel_reactor: "sy_ctl sys = ctl \<Longrightarrow> ids_left answer fds s \<Longrightarrow> run_round sys clock now' answer fds s = Inr (ms, s')
    \<Longrightarrow> kernel_step ctl s s'"
| kernel_worker: "sy_ctl sys = ctl \<Longrightarrow> tp_tasks (sv_pool s) = xs @ t # ys \<Longrightarrow> client_task t \<Longrightarrow>
    run_pool_task sys rv wv t (s\<lparr>sv_pool := (sv_pool s)\<lparr>tp_tasks := xs @ ys\<rparr>\<rparr>) = Inr (s', sent) \<Longrightarrow> kernel_step ctl s s'"

lemma kernel_step_is_step: "kernel_step ctl s s' \<Longrightarrow> server_step s s'"
  by (erule kernel_step.cases) (blast intro: server_step.intros)+

lemma kernel_step_ok:
  assumes "kernel_step ctl s s'" "epoll_contract interest ctl" "server_ok interest s"
  shows "server_ok interest s'"
  using assms(1)
proof cases
  case (kernel_reactor sys)
  with run_round_ok assms(2,3) show ?thesis by blast
next
  case (kernel_worker sys xs t ys rv wv sent)
  then show ?thesis
    using assms(2,3) watched_steps.run_client_task_step by (cases t) fastforce+
qed

lemma new_server_ok:
  assumes "new_server sys su port trig timeout linger n m k db lg = Inr (s, lg', dir)"
  shows "server_ok interest s"
proof -
  obtain p e listen conn et s1 where
    i: "init_socket sys (su_sockets su) port linger ((blank_server timeout p e k db)
       \<lparr>sv_listen_event := listen, sv_conn_event := conn, sv_et := et\<rparr>) = Inr (True, s1)"
    "s = s1\<lparr>sv_db := (fst (sv_db s), snd (sv_db s1))\<rparr>" by (rule new_server_socket [OF assms])
  let ?b = "blank_server timeout p e k db"
  from i(1) have "timer_manager.truncate s1 = timer_manager.truncate ?b" "sv_conns s1 = sv_conns ?b"
    by (auto simp: init_socket_def Let_def close_fd_def timer_manager.truncate_def split: if_splits prod.splits)
  then have "timer_manager.truncate s = timer_manager.truncate ?b" "sv_conns s = sv_conns ?b"
    by (subst i(2), simp add: timer_manager.truncate_def)+
  moreover have "manager_inv ?b" "sv_conns ?b = Map.empty"
    by (simp_all add: manager_inv_def tables_ok_def timer_inv_def ref_ok_def ordered_def alarms_def blank_server_def
        timer_manager.extend_def new_manager_def)
  ultimately show ?thesis
    using manager_truncate(4) [of s ?b] new_server_inv [OF assms] by (simp add: server_ok_def watched_def)
qed

section \<open>What holds in every reachable state\<close>

text \<open>
  C5: No connection falls out of the reactor, and none has two time-outs. In every history of a server on one epoll
  instance, the descriptor of every connection object is in the kernel's interest list, so its events are reported until
  it is closed; the pending time-out of a descriptor is the one that the timer manager's key table names, so there
  is at most one; and no time-out has an id that is still to be given out. A handler counts as one step here; in the middle of
  \<open>closeConn\<close>, between \<open>DelFd\<close> and the erasing of the entry, the connection that is being closed is not in the list.
\<close>

theorem connections_stay_registered:
  assumes "epoll_contract interest ctl" "new_server sys su port trig timeout linger n m k db lg = Inr (s0, lg', dir)"
    and "(kernel_step ctl)\<^sup>*\<^sup>* s0 s"
  shows "(\<forall>a c. sv_conns s a = Some c \<longrightarrow> interest (sv_kernel s) (cn_fd c) \<noteq> None)
     \<and> (\<forall>i e j fd t. alarms s i = Some (e, Some (Keyed_task j fd t)) \<longrightarrow> mg_key_id s fd = Some i \<and> j = i \<and> i < mg_next_id s)"
proof -
  from assms(3) have "server_ok interest s"
    by (induction rule: rtranclp_induct) (use new_server_ok [OF assms(2)] kernel_step_ok assms(1) in blast)+
  then have "watched interest {} s" "tables_ok (alarms s) (mg_next_id s) (mg_repeats s) (mg_key_id s)"
    by (simp_all add: server_ok_def manager_inv_def)
  then show ?thesis using tables_okD(2) by (fastforce simp: watched_def)
qed

theorem connections_stay_registered_witness:
  "\<exists>s0 lg dir s c. new_server demo_sys demo_setup 1316 3 0 False 1 1 Map.empty (no_db, ()) initial_logger = Inr (s0, lg, dir)
     \<and> (kernel_step table_ctl)\<^sup>*\<^sup>* s0 s \<and> sv_conns s 0 = Some c \<and> cn_fd c = 7 \<and> sv_kernel s 7 \<noteq> None"
proof -
  obtain lg dir where boot: "new_server demo_sys demo_setup 1316 3 0 False 1 1 Map.empty (no_db, ()) initial_logger
      = Inr (demo_server, lg, dir)" using demo_boot by blast
  have "kernel_step table_ctl demo_server demo_busy"
    by (rule kernel_reactor [OF _ _ demo_accept]) (simp_all add: ids_left_def size_lim_def)
  then have steps: "(kernel_step table_ctl)\<^sup>*\<^sup>* demo_server demo_busy" by (rule r_into_rtranclp)
  have c: "sv_conns demo_busy 0 = Some demo_conn" "cn_fd demo_conn = 7" by simp_all
  with connections_stay_registered [OF table_ctl_contract boot steps] have "sv_kernel demo_busy 7 \<noteq> None" by fastforce
  with boot steps c show ?thesis by blast
qed

end
