(* ===== verification/Client_Lifecycle.thy ===== *)
theory Client_Lifecycle
  imports Server_Watch
begin

text \<open>
  A client of the server from its connection to the idle time-out, and what two events for one connection do: the timer
  manager, the reactor and the table of connections together.
\<close>

section \<open>A single time-out\<close>

lemma schedule_once_repeats:
  fixes m :: "('u, 'z) timer_manager_scheme"
  assumes "schedule_with_key now k ms 0 u m = Inr m'" "manager_inv m"
  shows "mg_repeats m' (mg_next_id m) = None"
proof -
  let ?m = "cancel_by_key k m"
  have c: "manager_inv ?m" "mg_key_id ?m k = None" "mg_next_id ?m = mg_next_id m"
    using cancel_by_key_ok [OF assms(2), of k] by simp_all
  have n: "mg_next_id ?m \<noteq> int int_max"
    using assms(1) by (auto simp: schedule_with_key_def do_schedule_with_key_def dest: next_timer_id_Inr)
  have d: "do_schedule_with_key now k ms 0 (Some u) ?m = Inr m'" using assms(1) by (simp add: schedule_with_key_def)
  obtain m2 where "do_schedule_with_key now k ms 0 (Some u) ?m = Inr m2"
    "mg_repeats m2 = (if (0::int) = 0 then mg_repeats ?m else (mg_repeats ?m)(mg_next_id ?m \<mapsto> (0, ms)))"
    using do_schedule_with_key_ok [OF c(1) n c(2), of now ms 0 u] by metis
  moreover have "tables_ok (alarms ?m) (mg_next_id ?m) (mg_repeats ?m) (mg_key_id ?m)" using c(1) by (simp add: manager_inv_def)
  ultimately show ?thesis using d c(3) tables_fresh(3) by fastforce
qed

text \<open>A keyed timer without repetition that is the only one due: it runs once, and nothing of it stays.\<close>

lemma due_keyed_fires:
  fixes m :: "('u, 'z) timer_manager_scheme"
  assumes inv: "manager_inv m" and al: "alarms m i = Some (e, Some (Keyed_task i k u))" and rep: "mg_repeats m i = None"
    and due: "e - clock 0 < 1000000"
    and others: "\<And>j e' c' p. j \<noteq> i \<Longrightarrow> alarms m j = Some (e', c') \<Longrightarrow> 1000000 \<le> e' - clock p"
    and user: "user u (pop_timer m) = (True, m1)" "timer_manager.truncate m1 = timer_manager.truncate (pop_timer m)"
  shows "\<exists>ms. manager_next_tick clock now' now user m = (ms, m1\<lparr>mg_key_id := (mg_key_id m1)(k := None)\<rparr>)"
    and "alarms m1 = (alarms m)(i := None)"
proof -
  let ?m2 = "m1\<lparr>mg_key_id := (mg_key_id m1)(k := None)\<rparr>"
  obtain i' e' c' where f: "timer_front m = Some (i', e', c')"
    using manager_clock.front_None [OF inv] al by (metis not_Some_eq option.distinct(1) surj_pair)
  with manager_clock.front_least [OF inv f al] manager_clock.front_Some [OF inv f] others [of i' e' c' 0] due have "i' = i" by force
  then have front: "timer_front m = Some (i, e, Some (Keyed_task i k u))"
    using f manager_clock.front_Some [OF inv f] al by simp
  note pop = manager_clock.drop_ok [OF inv front] pop_timer_tables [OF inv]
  have key: "mg_key_id m k = Some i"
    using inv al tables_okD(2) [of "alarms m" "mg_next_id m" "mg_repeats m" "mg_key_id m" i] by (simp add: manager_inv_def)
  note same = manager_truncate [OF user(2)]
  have t: "exec_callback (run_task (now 0) user) (Some (Keyed_task i k u)) (pop_timer m) = ?m2"
    using key pop rep user(1) same by (simp add: exec_callback_def repeat_task_def)
  show al1: "alarms m1 = (alarms m)(i := None)" using same pop by auto
  have inv1: "manager_inv m1" using same pop by auto
  have inv2: "manager_inv ?m2"
    using inv1 al1 key same(2) pop unfolding manager_inv_def
    by (auto intro!: tables_drop_key [where i = i])
  have "\<not> e' - clock p < 1000000" if "timer_front ?m2 = Some (j, e', c')" for j e' c' p
    using manager_clock.front_Some [OF inv2 that] al1 others [of j e' c' p] by (auto split: if_splits)
  then have "tick clock (\<lambda>p. run_task (now p) user) m = ?m2"
    using manager_clock.fire_loop_once [where due = "\<lambda>p e. e - clock p < 1000000" and p = 0 and b = 99
        and run = "\<lambda>p. run_task (now p) user", OF front] due t
    by (simp add: tick_eq)
  then show "\<exists>ms. manager_next_tick clock now' now user m = (ms, ?m2)"
    by (simp add: manager_next_tick_def get_next_tick_def Let_def split: list.split)
qed

text \<open>While nothing is due, \<open>GetNextTick\<close> changes nothing.\<close>

lemma nothing_due:
  fixes m :: "('u, 'z) timer_manager_scheme"
  assumes inv: "manager_inv m" and waits: "\<And>i e c. alarms m i = Some (e, c) \<Longrightarrow> 1000000 \<le> e - clock 0"
  shows "\<exists>ms. manager_next_tick clock now' now user m = (ms, m)"
proof -
  have "\<not> e - clock 0 < 1000000" if "timer_front m = Some (i, e, c)" for i e c
    using waits [OF manager_clock.front_Some [OF inv that]] by simp
  then have "tick clock (\<lambda>p. run_task (now p) user) m = m"
    by (cases "timer_front m") (auto simp: tick_eq fire_loop.simps [of _ _ _ _ _ 99, simplified] numeral_eq_Suc)
  then show ?thesis by (simp add: manager_next_tick_def get_next_tick_def Let_def split: list.split)
qed

section \<open>From accept to the idle time-out\<close>

text \<open>
  What a client that is accepted adds to a server. An old time-out that the key of the descriptor still names is
  cancelled.
\<close>

lemma accepted_client:
  assumes inv: "server_inv s" "manager_inv s" and room: "sv_next_id s + 1 < size_lim" "0 < sv_timeout_ms s"
    and add: "add_client sys fd addr s = Inr s1" "new_conn (sy_mem sys) = Inr c0" "sv_users s1 fd \<noteq> None"
  obtains c i where "server_inv s1" "manager_inv s1"
    "alarms s1 = (alarms (cancel_by_key fd s))(i \<mapsto> (sy_now sys + MS (sv_timeout_ms s), Some (Keyed_task i fd (On_add fd (sv_next_id s)))))"
    "alarms (cancel_by_key fd s) i = None" "mg_repeats s1 i = None"
    "sv_conns s1 = (sv_conns s)(sv_fresh s \<mapsto> c)" "cn_fd c = fd" "cn_id c = sv_next_id s" "0 < sv_next_id s" "0 < fd"
    "sv_users s1 = (sv_users s)(fd \<mapsto> default_info\<lparr>ci_conn := Some (sv_fresh s), ci_id := sv_next_id s\<rparr>)"
    "sv_users s fd = None" "sv_conns s (sv_fresh s) = None"
    "cw_users (sv_world s1) = cw_users (sv_world s) + 1" "cw_closed (sv_world s1) = cw_closed (sv_world s)"
    "sv_timeout_ms s1 = sv_timeout_ms s" "sv_closed s1 = sv_closed s" "sv_fault s1 = sv_fault s" "sv_epoller s1 = sv_epoller s"
proof (rule add_client_stages [OF add(1)])
  fix held s2 s3 r
  assume fd: "0 < fd"
    and m: "make_client sys fd addr (sv_next_id s) (s\<lparr>sv_next_id := sz_add (sv_next_id s) 1\<rparr>) = Inr (held, s2)"
    and t: "(if 0 < sv_timeout_ms s2 then schedule_with_key (sy_now sys) fd (sv_timeout_ms s2) 0 (On_add fd (sv_next_id s)) s2
      else Inr s2) = Inr s3"
    and rest: "(if r = -1 then drop_client held fd s3
      else case add_fd (sy_ctl sys) (sv_epoller s3) fd (EPOLLIN OR sv_conn_event s3) (sv_kernel s3) of
        (ok, k) \<Rightarrow> let s4 = s3\<lparr>sv_kernel := k\<rparr> in if \<not> ok then drop_client held fd s4 else Inr s4) = Inr s1"
  have n: "sz_add (sv_next_id s) 1 = sv_next_id s + 1" using sz_add_exact [OF room(1)] .
  let ?c = "(set_conn_id (sv_next_id s) c0)\<lparr>cn_addr := addr, cn_fd := fd, cn_write := retrieve_all (cn_write c0),
      cn_read := retrieve_all (cn_read c0), cn_closed := False\<rparr>"
  have s2: "\<not> held" "sv_users s fd = None" "s2 = s\<lparr>sv_next_id := sv_next_id s + 1,
      sv_world := (sv_world s)\<lparr>cw_users := cw_users (sv_world s) + 1\<rparr>, sv_fresh := sv_fresh s + 1,
      sv_conns := (sv_conns s)(sv_fresh s \<mapsto> ?c),
      sv_users := (sv_users s)(fd \<mapsto> default_info\<lparr>ci_conn := Some (sv_fresh s), ci_id := sv_next_id s\<rparr>)\<rparr>"
    using m add(2) fd n by (auto simp: make_client_def conn_init_def set_conn_id_def Let_def)
  have inv2: "server_inv s2" "manager_inv s2" "alarms s2 = alarms s" "mg_key_id s2 = mg_key_id s" "sv_timeout_ms s2 = sv_timeout_ms s"
    using make_client_inv [OF m [unfolded n] inv(1) fd] inv(2) by (simp_all add: s2(3) alarms_def [abs_def])
  have t: "schedule_with_key (sy_now sys) fd (sv_timeout_ms s) 0 (On_add fd (sv_next_id s)) s2 = Inr s3"
    using t inv2(5) room(2) by simp
  have nid: "mg_next_id s2 \<noteq> int int_max"
    using t cancel_by_key_ok [OF inv2(2), of fd] by (auto simp: schedule_with_key_def do_schedule_with_key_def dest: next_timer_id_Inr)
  have old: "alarms (cancel_by_key fd s) = (case mg_key_id s fd of None \<Rightarrow> alarms s | Some i \<Rightarrow> (alarms s)(i := None))"
    using cancel_by_key_ok [OF inv(2), of fd] by simp
  have al: "alarms s3 = (alarms (cancel_by_key fd s))(mg_next_id s2 \<mapsto> (sy_now sys + MS (sv_timeout_ms s),
      Some (Keyed_task (mg_next_id s2) fd (On_add fd (sv_next_id s)))))" and inv3: "manager_inv s3"
  proof -
    obtain m' where "schedule_with_key (sy_now sys) fd (sv_timeout_ms s) 0 (On_add fd (sv_next_id s)) s2 = Inr m'" "manager_inv m'"
      "alarms m' = (case mg_key_id s2 fd of None \<Rightarrow> alarms s2 | Some i \<Rightarrow> (alarms s2)(i := None))
         (mg_next_id s2 \<mapsto> (sy_now sys + MS (sv_timeout_ms s), Some (Keyed_task (mg_next_id s2) fd (On_add fd (sv_next_id s)))))"
      by (rule schedule_with_key_ok [OF inv2(2) nid])
    then show "alarms s3 = (alarms (cancel_by_key fd s))(mg_next_id s2 \<mapsto> (sy_now sys + MS (sv_timeout_ms s),
      Some (Keyed_task (mg_next_id s2) fd (On_add fd (sv_next_id s)))))" "manager_inv s3"
      using t by (simp_all add: old inv2(3,4) split: option.split)
  qed
  have new: "alarms (cancel_by_key fd s) (mg_next_id s2) = None"
    using inv2(2-4) tables_fresh(1) [of "alarms s2" "mg_next_id s2" "mg_repeats s2" "mg_key_id s2"]
    by (auto simp: old manager_inv_def split: option.split)
  note same = server_fields [OF schedule_with_key_more [OF t]] server_inv_more [OF schedule_with_key_more [OF t]]
  obtain ok k where k: "add_fd (sy_ctl sys) (sv_epoller s3) fd (EPOLLIN OR sv_conn_event s3) (sv_kernel s3) = (ok, k)" by fastforce
  have gone: "sv_users s1 fd = None" if "drop_client False fd s4 = Inr s1" "server_inv s4" for s4
    using that erase_user_cases [of s4 fd] by (auto simp: drop_client_def close_fd_def)
  have s1: "s1 = s3\<lparr>sv_kernel := k\<rparr>"
    using rest k s2(1) gone [of s3] gone [of "s3\<lparr>sv_kernel := k\<rparr>"] add(3) same inv2(1) by (auto simp: Let_def split: if_splits)
  have fresh: "sv_conns s (sv_fresh s) = None"
    using table_invD(2) [OF inv(1) [unfolded server_inv_def], of "sv_fresh s"] by (cases "sv_conns s (sv_fresh s)") auto
  show thesis
  proof (rule that [of "mg_next_id s2" ?c])
    show "alarms s1 = (alarms (cancel_by_key fd s))(mg_next_id s2 \<mapsto> (sy_now sys + MS (sv_timeout_ms s),
      Some (Keyed_task (mg_next_id s2) fd (On_add fd (sv_next_id s)))))" using al by (simp add: s1 alarms_def [abs_def])
    show "mg_repeats s1 (mg_next_id s2) = None" using schedule_once_repeats [OF t inv2(2)] by (simp add: s1)
    show "0 < sv_next_id s" using inv(1) by (simp add: server_inv_def table_inv_def)
  qed (use s1 same s2(2,3) inv2 inv3 new fd fresh in \<open>simp_all add: set_conn_id_def\<close>)
qed


definition demo_patient :: "(int \<rightharpoonup> 32 word, unit) server" where
  "demo_patient = demo_server\<lparr>sv_timeout_ms := 60000\<rparr>"

lemma demo_patient_facts:
  "server_inv demo_patient" "manager_inv demo_patient" "alarms demo_patient = Map.empty" "sv_users demo_patient = Map.empty"
  "sv_conns demo_patient = Map.empty" "sv_next_id demo_patient = 1" "sv_timeout_ms demo_patient = 60000"
  "\<not> sv_closed demo_patient" "sv_fault demo_patient = None" "sv_world demo_patient = \<lparr>cw_users = 0, cw_closed = [], cw_cache = new_cache\<rparr>"
  "sv_kernel demo_patient = [3 \<mapsto> EPOLLIN OR EPOLLET]" "el_et (sv_epoller demo_patient)" "sv_fresh demo_patient = 0"
proof -
  obtain lg dir where boot: "new_server demo_sys demo_setup 1316 3 0 False 1 1 Map.empty (no_db, ()) initial_logger
      = Inr (demo_server, lg, dir)" using demo_boot by blast
  have ok: "server_ok (\<lambda>k :: int \<rightharpoonup> 32 word. k) demo_server" by (rule new_server_ok [OF boot])
  have t: "timer_manager.truncate demo_patient = timer_manager.truncate demo_server"
    by (simp add: demo_patient_def timer_manager.truncate_def)
  show "server_inv demo_patient" "manager_inv demo_patient"
    using ok manager_truncate(4) [OF t] by (simp_all add: server_ok_def) (simp add: demo_patient_def server_inv_def)
  show "alarms demo_patient = Map.empty"
    by (simp add: demo_patient_def alarms_def demo_server_def blank_server_def timer_manager.extend_def new_manager_def)
qed (simp_all add: demo_patient_def)

lemma demo_patient_accepts:
  "\<exists>s1. add_client demo_sys 7 (0, 0) demo_patient = Inr s1 \<and> sv_users s1 7 \<noteq> None"
proof -
  note d = demo_patient_facts
  obtain c0 where c0: "new_conn 1000000 = Inr c0" using demo_new_conn by blast
  have n: "sz_add 1 (Suc 0) = 2" by (simp add: sz_add_def size_lim_def)
  obtain s2 where m: "make_client demo_sys 7 (0, 0) 1 (demo_patient\<lparr>sv_next_id := 2\<rparr>) = Inr (False, s2)"
    and s2: "timer_manager.truncate s2 = timer_manager.truncate demo_patient" "sv_users s2 7 \<noteq> None" "sv_kernel s2 = sv_kernel demo_patient"
      "el_et (sv_epoller s2)" "sv_timeout_ms s2 = 60000"
    using c0 d by (simp add: make_client_def conn_init_def Let_def timer_manager.truncate_def)
  have "manager_inv s2" "mg_next_id s2 \<noteq> int int_max"
  proof -
    show "manager_inv s2" using manager_truncate(4) [OF s2(1)] d(2) by simp
    have "mg_next_id s2 = mg_next_id demo_patient" using s2(1) by (simp add: timer_manager.truncate_def)
    then show "mg_next_id s2 \<noteq> int int_max"
      by (simp add: demo_patient_def demo_server_def blank_server_def timer_manager.extend_def new_manager_def int_max_def)
  qed
  then obtain s3 where t: "schedule_with_key 0 7 60000 0 (On_add 7 1) s2 = Inr s3" by (rule schedule_with_key_ok)
  note same = server_fields [OF schedule_with_key_more [OF t]]
  have "add_client demo_sys 7 (0, 0) demo_patient = Inr (s3\<lparr>sv_kernel := (sv_kernel s3)(7 \<mapsto> EPOLLIN OR EPOLLET)\<rparr>)"
  proof (subst add_client_run [of 7 demo_sys "(0, 0)" demo_patient False s2 s3 0])
    show "make_client demo_sys 7 (0, 0) (sv_next_id demo_patient) (demo_patient\<lparr>sv_next_id := sz_add (sv_next_id demo_patient) 1\<rparr>)
        = Inr (False, s2)" using m d(6) n by simp
    show "(if 0 < sv_timeout_ms s2 then schedule_with_key (sy_now demo_sys) 7 (sv_timeout_ms s2) 0 (On_add 7 (sv_next_id demo_patient)) s2
        else Inr s2) = Inr s3" using t s2(5) d(6) by simp
  qed (use s2 same d in \<open>simp_all add: set_fd_non_block_def add_fd_def Let_def\<close>)
  then show ?thesis using s2 same by simp
qed


section \<open>Two events for one connection\<close>

lemma client_read_queued:
  assumes "client_conn s a c" "handle_event sys fds (cn_fd c, EPOLLIN) s = Inr s1"
  shows "client_conn s1 a c \<and> tp_tasks (sv_pool s1) = tp_tasks (sv_pool s) @ [Read_task a] \<and> sv_et s1 = sv_et s"
proof -
  from assms(2) have "deal_read sys a s = Inr s1" unfolding client_event(2) [OF assms(1)] .
  then obtain s0 where s0: "extent_time sys a s = Inr s0" "s1 = queue_task (Read_task a) s0"
    using assms(1) by (auto simp: deal_read_def elim!: client_connE)
  have more: "timer_manager.more s0 = timer_manager.more s"
    using s0(1) by (auto simp: extent_time_def Let_def dest: schedule_with_key_more split: if_splits option.splits)
  from client_conn_more [OF this] assms(1) have "client_conn s0 a c" by simp
  moreover have "tp_tasks (sv_pool s1) = tp_tasks (sv_pool s0) @ [Read_task a]" "sv_et s1 = sv_et s0"
    unfolding s0(2) by (simp_all add: queue_task_def add_task_def)
  ultimately show ?thesis using server_fields(6,14) [OF more] unfolding s0(2) by simp
qed

text \<open>Taking the first task off the queue.\<close>

definition take_front :: "('k, 'd) server \<Rightarrow> ('k, 'd) server" where
  "take_front s = s\<lparr>sv_pool := (sv_pool s)\<lparr>tp_tasks := tl (tp_tasks (sv_pool s))\<rparr>\<rparr>"

text \<open>
  C30: An ordinary client can crash the server: it sends something and then closes its end. \<open>AddFd\<close> has dropped the one-shot flag, so
  both packets raise an event and each event queues a read task with the connection's pointer. The first task
  meets the end of the stream and destroys the connection; the second dereferences what is left of it.
\<close>

theorem second_read_dangles:
  assumes "client_conn s a c" "tp_tasks (sv_pool s) = []"
    and "handle_event sys fds (cn_fd c, EPOLLIN) s = Inr s1" "handle_event sys' fds' (cn_fd c, EPOLLIN) s1 = Inr s2"
    and "conn_read (sv_et s) (sy_mem sys'') rv 0 c = Inr (0, err, c1)"
  shows "tp_tasks (sv_pool s2) = [Read_task a, Read_task a]
     \<and> (\<exists>s3. run_pool_task sys'' rv wv (Read_task a) (take_front s2) = Inr (s3, []) \<and> sv_conns s3 a = None
          \<and> tp_tasks (sv_pool s3) = [Read_task a]
          \<and> run_pool_task sys3 rv' wv' (Read_task a) (take_front s3) = Inl Undefined_Behaviour)"
proof -
  note 1 = client_read_queued [OF assms(1,3)]
  note 2 = client_read_queued [OF conjunct1 [OF 1] assms(4)]
  let ?s = "take_front s2"
  have s: "client_conn ?s a c" using 2 by (simp add: take_front_def client_conn_def)
  have rd: "conn_read (sv_et ?s) (sy_mem sys'') rv 0 c = Inr (0, err, c1)" using assms(5) 1 2 by (simp add: take_front_def)
  from end_of_stream_closes [OF s rd] obtain s3 where "on_read sys'' rv a ?s = Inr s3" "sv_conns s3 = (sv_conns ?s)(a := None)"
    "sv_pool s3 = sv_pool ?s" by blast
  moreover have "tp_tasks (sv_pool s2) = [Read_task a, Read_task a]" using 1 2 assms(2) by simp
  moreover have "tp_tasks (sv_pool s3) = [Read_task a]" "sv_conns (take_front s3) a = None"
    using calculation by (simp_all add: take_front_def)
  ultimately show ?thesis by (simp add: on_read_def deref_def)
qed

theorem second_read_dangles_witness:
  "\<exists>s1 s2 s3. handle_event demo_sys [] (7, EPOLLIN) demo_busy = Inr s1 \<and> handle_event demo_sys [] (7, EPOLLIN) s1 = Inr s2
     \<and> run_pool_task demo_sys (\<lambda>k cap. Inr []) (\<lambda>k t. Inl EAGAIN) (Read_task 0) (take_front s2) = Inr (s3, [])
     \<and> run_pool_task demo_sys (\<lambda>k cap. Inr []) (\<lambda>k t. Inl EAGAIN) (Read_task 0) (take_front s3) = Inl Undefined_Behaviour"
proof -
  let ?rv = "\<lambda>(k :: nat) (cap :: nat). Inr [] :: int + string"
  have "\<not> writable_bytes (cn_read demo_conn) < 1024"
    by (simp add: demo_conn_def writable_bytes_def INIT_BUFFER_SIZE_def sz_sub_def size_lim_def)
  then have "\<exists>e b. read_fd 1000000 (?rv 0) 0 (cn_read demo_conn) = Inr (0, e, b)"
    by (simp add: read_fd_def read_fd_tail_def Let_def has_written_def)
  then have r: "\<exists>e c1. conn_read (sv_et demo_busy) (sy_mem demo_sys) ?rv 0 demo_conn = Inr (0, e, c1)"
    by (auto simp: conn_read_def read_loop.simps [of True 1000000 ?rv 0 0 0 demo_conn] Let_def)
  then obtain e c1 where r: "conn_read (sv_et demo_busy) (sy_mem demo_sys) ?rv 0 demo_conn = Inr (0, e, c1)" by blast
  have q: "handle_event demo_sys [] (cn_fd demo_conn, EPOLLIN) s = Inr (queue_task (Read_task 0) s)"
    if "client_conn s 0 demo_conn" "sv_timeout_ms s = 0" for s
    unfolding client_event(2) [OF that(1)] using that
    by (auto simp: deal_read_def deref_def extent_time_def elim!: client_connE)
  have 1: "handle_event demo_sys [] (cn_fd demo_conn, EPOLLIN) demo_busy = Inr (queue_task (Read_task 0) demo_busy)"
    by (rule q [OF demo_client]) simp
  have 2: "handle_event demo_sys [] (cn_fd demo_conn, EPOLLIN) (queue_task (Read_task 0) demo_busy)
      = Inr (queue_task (Read_task 0) (queue_task (Read_task 0) demo_busy))"
    by (rule q) (simp_all add: demo_client, simp add: queue_task_def)
  have "tp_tasks (sv_pool demo_busy) = []" by (simp add: demo_busy_def)
  from second_read_dangles [OF demo_client this 1 2 r, of "\<lambda>k t. Inl EAGAIN" demo_sys ?rv "\<lambda>k t. Inl EAGAIN"] 1 2 show ?thesis by auto
qed

end
