(* ===== verification/Client_Isolation.thy ===== *)
theory Client_Isolation
  imports Server_Behaviour
begin

text \<open>What the handler of one connection leaves alone.\<close>

section \<open>Footprints\<close>

text \<open>
  What a handler of connection \<open>a\<close> with descriptor \<open>fd\<close> may change: the connection itself, the entry of its descriptor and
  shared state; it closes no other descriptor.
\<close>

definition only_touches :: "nat \<Rightarrow> int \<Rightarrow> ('k, 'd) server \<Rightarrow> ('k, 'd) server \<Rightarrow> bool" where
  "only_touches a fd s s' \<longleftrightarrow> (\<forall>b. b \<noteq> a \<longrightarrow> sv_conns s' b = sv_conns s b) \<and> (\<forall>f. f \<noteq> fd \<longrightarrow> sv_users s' f = sv_users s f)
     \<and> (\<exists>xs. set xs \<subseteq> {fd} \<and> cw_closed (sv_world s') = xs @ cw_closed (sv_world s))"

definition owns :: "nat \<Rightarrow> int \<Rightarrow> ('k, 'd) server \<Rightarrow> bool" where
  "owns a fd s \<longleftrightarrow> server_inv s \<and> (\<forall>c. sv_conns s a = Some c \<longrightarrow> cn_fd c = fd)"

lemma only_touches_trans: "only_touches a fd s s1 \<Longrightarrow> only_touches a fd s1 s2 \<Longrightarrow> only_touches a fd s s2"
proof -
  assume 1: "only_touches a fd s s1" and 2: "only_touches a fd s1 s2"
  from 1 2 obtain xs ys where "set xs \<subseteq> {fd}" "cw_closed (sv_world s1) = xs @ cw_closed (sv_world s)"
    "set ys \<subseteq> {fd}" "cw_closed (sv_world s2) = ys @ cw_closed (sv_world s1)" by (auto simp: only_touches_def)
  then have "set (ys @ xs) \<subseteq> {fd} \<and> cw_closed (sv_world s2) = (ys @ xs) @ cw_closed (sv_world s)" by auto
  with 1 2 show ?thesis unfolding only_touches_def by metis
qed

lemma only_touches_same:
  "sv_conns s' = sv_conns s \<Longrightarrow> sv_users s' = sv_users s \<Longrightarrow> cw_closed (sv_world s') = cw_closed (sv_world s) \<Longrightarrow> only_touches a fd s s'"
  by (auto simp: only_touches_def intro: exI [of _ "[]"])

lemma close_conn_isolated:
  assumes "close_conn sys a s = Inr s'" "owns a fd s"
  shows "owns a fd s' \<and> only_touches a fd s s'"
proof -
  from assms(1) obtain c where c: "sv_conns s a = Some c" by (auto simp: close_conn_def)
  have inv: "server_inv s" and fd: "cn_fd c = fd" using assms(2) c by (auto simp: owns_def)
  from server_inv_live [OF inv c] obtain info where live: "sv_users s fd = Some info" "ci_conn info = Some a"
    by (auto simp: live_def fd)
  obtain k where e: "erase_user fd (s\<lparr>sv_kernel := k\<rparr>) = Inr s'"
  proof (cases "MAX_FD < cn_fd c")
    case True
    with assms(1) have "erase_user fd (s\<lparr>sv_kernel := sv_kernel s\<rparr>) = Inr s'" unfolding close_conn_erases [OF inv c] fd by simp
    then show thesis by (rule that)
  next
    case False
    with assms(1) show thesis unfolding close_conn_erases [OF inv c] fd by (intro that) simp
  qed
  have "server_inv (s\<lparr>sv_kernel := k\<rparr>)" using inv by simp
  from erase_user_cases [OF this e] live have "server_inv s'" "sv_users s' = (sv_users s)(fd := None)" "sv_conns s' = (sv_conns s)(a := None)"
    "cw_closed (sv_world s') = [fd] @ cw_closed (sv_world s)" by auto
  then show ?thesis by (auto simp: owns_def only_touches_def intro: exI [of _ "[fd]"])
qed

interpretation isolated_steps: handler_steps sys a "\<lambda>s s'. owns a fd s \<longrightarrow> owns a fd s' \<and> only_touches a fd s s'" for sys a fd
proof (unfold_locales, goal_cases)
  case (1 s)
  then show ?case by (simp add: only_touches_same)
next
  case (2 s s1 s2)
  then show ?case using only_touches_trans by blast
next
  case (3 s c c1)
  then show ?case
    using store_same_inv [of s a c c1]
    by (auto simp: owns_def store_conn_def same_conn_def only_touches_def intro: exI [of _ "[]"])
next
  case (4 f ev s ok k)
  then show ?case by (auto simp: owns_def intro: only_touches_same)
next
  case (5 s fc db)
  then show ?case by (auto simp: owns_def server_inv_def intro: only_touches_same)
next
  case (6 s s')
  then show ?case using close_conn_isolated by blast
next
  case (7 s s')
  then have "timer_manager.more s' = timer_manager.more s"
    by (auto simp: extent_time_def Let_def dest: schedule_with_key_more split: if_splits option.splits)
  from server_fields [OF this] server_inv_more [OF this] show ?case by (auto simp: owns_def intro: only_touches_same)
qed

text \<open>
  C4: a handler that nobody interrupts keeps the clients apart. If a worker runs the task of one connection as one step, with
  no step of the reactor or of another worker in between, then whatever it reads, answers or fails, it leaves
  every other connection object and every other entry of the table exactly as it was, and the only descriptor that it can
  close is that of its own connection. The condition is needed: between the phases of a handler the descriptor can go to a new
  client, which the handler then erases (\<open>overtaken_close_hits_new_client\<close>).
\<close>

theorem handlers_are_isolated:
  assumes "server_inv s" "sv_conns s a = Some c" "t = Read_task a \<or> t = Write_task a"
    and "run_pool_task sys rv wv t s = Inr (s', sent)"
  shows "(\<forall>b. b \<noteq> a \<longrightarrow> sv_conns s' b = sv_conns s b) \<and> (\<forall>fd. fd \<noteq> cn_fd c \<longrightarrow> sv_users s' fd = sv_users s fd)
     \<and> (\<exists>xs. set xs \<subseteq> {cn_fd c} \<and> cw_closed (sv_world s') = xs @ cw_closed (sv_world s))"
proof -
  have "owns a (cn_fd c) s" using assms(1,2) by (simp add: owns_def)
  with isolated_steps.run_client_task_step [OF assms(3,4)] have "only_touches a (cn_fd c) s s'" by blast
  then show ?thesis by (simp add: only_touches_def)
qed

definition second_conn :: conn where
  "second_conn = demo_conn\<lparr>cn_fd := 9, cn_id := 2\<rparr>"

lemma second_client:
  "\<exists>s. add_client demo_sys 9 (0, 0) demo_busy = Inr s \<and> client_conn s 1 second_conn \<and> sv_conns s 0 = Some demo_conn
     \<and> sv_users s 7 = sv_users demo_busy 7 \<and> sv_et s \<and> cw_closed (sv_world s) = []"
proof -
  obtain c0 where c0: "new_conn 1000000 = Inr c0" "(set_conn_id 1 c0)\<lparr>cn_addr := (0, 0), cn_fd := 7,
    cn_write := retrieve_all (cn_write c0), cn_read := retrieve_all (cn_read c0), cn_closed := False\<rparr> = demo_conn"
    using demo_new_conn by blast
  let ?c = "(set_conn_id 2 c0)\<lparr>cn_addr := (0, 0), cn_fd := 9, cn_write := retrieve_all (cn_write c0),
    cn_read := retrieve_all (cn_read c0), cn_closed := False\<rparr>"
  have c: "?c = second_conn" by (simp add: second_conn_def c0(2) [symmetric] set_conn_id_def)
  obtain s2 where m: "make_client demo_sys 9 (0, 0) 2 (demo_busy\<lparr>sv_next_id := 3\<rparr>) = Inr (False, s2)"
    and s2: "sv_conns s2 = [0 \<mapsto> demo_conn, 1 \<mapsto> ?c]" "sv_users s2 7 = sv_users demo_busy 7" "sv_et s2"
      "cw_closed (sv_world s2) = []" "sv_timeout_ms s2 = 0" "sv_kernel s2 = sv_kernel demo_busy" "sv_listen_fd s2 = 3"
    using c0(1) by (simp add: make_client_def conn_init_def set_conn_id_def Let_def) (simp add: demo_busy_def)
  have n: "sz_add 2 (Suc 0) = 3" by (simp add: sz_add_def size_lim_def)
  have k: "sv_kernel demo_busy 9 = None" by (simp add: demo_busy_def)
  have "\<exists>k. add_client demo_sys 9 (0, 0) demo_busy = Inr (s2\<lparr>sv_kernel := k\<rparr>)"
  proof (subst add_client_run [of 9 demo_sys "(0, 0)" demo_busy False s2 s2 0])
    show "make_client demo_sys 9 (0, 0) (sv_next_id demo_busy) (demo_busy\<lparr>sv_next_id := sz_add (sv_next_id demo_busy) 1\<rparr>)
        = Inr (False, s2)" using m n by simp
  qed (use s2 k in \<open>auto simp: set_fd_non_block_def add_fd_def Let_def\<close>)
  then obtain k where a: "add_client demo_sys 9 (0, 0) demo_busy = Inr (s2\<lparr>sv_kernel := k\<rparr>)" by blast
  have "server_inv demo_busy" "sv_next_id demo_busy + 1 < size_lim" using demo_client by (simp_all add: client_conn_def size_lim_def)
  from add_client_inv [OF a this] have "client_conn (s2\<lparr>sv_kernel := k\<rparr>) 1 second_conn"
    using s2(1,7) c by (simp add: client_conn_def second_conn_def MAX_FD_def)
  with a s2 show ?thesis by auto
qed

theorem handlers_are_isolated_witness:
  "\<exists>s s'. add_client demo_sys 9 (0, 0) demo_busy = Inr s
     \<and> run_pool_task demo_sys (\<lambda>k cap. Inr []) (\<lambda>k t. Inl EAGAIN) (Read_task 1) s = Inr (s', []) \<and> sv_conns s' 1 = None
     \<and> sv_conns s' 0 = Some demo_conn \<and> sv_users s' 7 = sv_users demo_busy 7 \<and> cw_closed (sv_world s') = [9]"
proof -
  let ?rv = "\<lambda>(k :: nat) (cap :: nat). Inr [] :: int + string"
  obtain s where s: "add_client demo_sys 9 (0, 0) demo_busy = Inr s" "client_conn s 1 second_conn" "sv_conns s 0 = Some demo_conn"
    "sv_users s 7 = sv_users demo_busy 7" "sv_et s" "cw_closed (sv_world s) = []" using second_client by blast
  have "\<exists>e c1. conn_read True 1000000 ?rv 0 second_conn = Inr (0, e, c1)"
  proof -
    have "\<not> writable_bytes (cn_read second_conn) < 1024"
      by (simp add: second_conn_def demo_conn_def writable_bytes_def INIT_BUFFER_SIZE_def sz_sub_def size_lim_def)
    then have "\<exists>e b. read_fd 1000000 (?rv 0) 0 (cn_read second_conn) = Inr (0, e, b)"
      by (simp add: read_fd_def read_fd_tail_def Let_def has_written_def)
    then show ?thesis by (auto simp: conn_read_def read_loop.simps [of True 1000000 ?rv 0 0 0 second_conn] Let_def)
  qed
  then obtain e c1 where "conn_read (sv_et s) (sy_mem demo_sys) ?rv 0 second_conn = Inr (0, e, c1)" using s(5) by auto
  from end_of_stream_closes [OF s(2) this] obtain s' where s': "on_read demo_sys ?rv 1 s = Inr s'" "sv_conns s' = (sv_conns s)(1 := None)"
    "cw_closed (sv_world s') = [9]" using s(6) by (auto simp: second_conn_def)
  then have r: "run_pool_task demo_sys ?rv (\<lambda>k t. Inl EAGAIN) (Read_task 1) s = Inr (s', [])" by simp
  have inv: "server_inv s" "sv_conns s 1 = Some second_conn" using s(2) by (simp_all add: client_conn_def)
  have "Read_task 1 = Read_task 1 \<or> Read_task (1::nat) = Write_task 1" by simp
  from handlers_are_isolated [OF inv this r] have "sv_conns s' 0 = Some demo_conn" "sv_users s' 7 = sv_users demo_busy 7"
    using s(3,4) by (auto simp: second_conn_def)
  with s(1) r s'(2,3) show ?thesis by auto
qed

end
