(* ===== verification/Deadline_Table.thy ===== *)
theory Deadline_Table
  imports Timer_Manager
begin

text \<open>
  What the timer manager is for its users, when they set timers under keys and without repetition as the server does: a
  table of deadlines. Setting and cancelling write one entry; an update takes out the entries that are due and runs
  their callbacks in the order of the deadlines.
\<close>

section \<open>The table\<close>

type_synonym 'u deadlines = "int \<rightharpoonup> int \<times> 'u"

datatype 'u deadline_op = Put int int int 'u | Drop int | Fire int

text \<open>The table and the callbacks that have run; \<open>ks\<close> are the due keys, in any order that respects the deadlines.\<close>

inductive deadline_step :: "'u deadline_op \<Rightarrow> 'u deadlines \<times> 'u list \<Rightarrow> 'u deadlines \<times> 'u list \<Rightarrow> bool" where
  put_entry: "deadline_step (Put now k ms u) (P, L) (P(k \<mapsto> (now + MS ms, u)), L)"
| drop_entry: "deadline_step (Drop k) (P, L) (P(k := None), L)"
| fire_due: "distinct ks \<Longrightarrow> set ks = {k. \<exists>e u. P k = Some (e, u) \<and> e - T < 1000000} \<Longrightarrow> sorted (map (\<lambda>k. fst (the (P k))) ks) \<Longrightarrow>
    deadline_step (Fire T) (P, L) (P |` (- set ks), L @ map (\<lambda>k. snd (the (P k))) ks)"

inductive_cases deadline_stepE:
  "deadline_step (Put now k ms u) (P, L) (P', L')" "deadline_step (Fire T) (P, L) (P', L')"

text \<open>The same operations on the manager, whose callbacks are logged.\<close>

fun manager_op :: "'u deadline_op \<Rightarrow> 'u logged_manager \<Rightarrow> 'u logged_manager outcome" where
  "manager_op (Put now k ms u) m = schedule_with_key now k ms 0 u m"
| "manager_op (Drop k) m = Inr (cancel_by_key k m)"
| "manager_op (Fire T) m = Inr (manager_update (\<lambda>p. T) (\<lambda>p. T) log_user m)"

section \<open>The abstraction\<close>

definition deadlines_of :: "('u, 'z) timer_manager_scheme \<Rightarrow> 'u deadlines" where
  "deadlines_of m k =
     (case mg_key_id m k of
        None \<Rightarrow> None
      | Some i \<Rightarrow> (case alarms m i of Some (e, Some (Keyed_task j k' u)) \<Rightarrow> Some (e, u) | _ \<Rightarrow> None))"

definition keyed :: "('u, 'z) timer_manager_scheme \<Rightarrow> bool" where
  "keyed m \<longleftrightarrow> manager_inv m \<and> mg_repeats m = Map.empty
     \<and> (\<forall>i e c. alarms m i = Some (e, c) \<longrightarrow> (\<exists>k u. c = Some (Keyed_task i k u)))"

lemma keyedD:
  assumes "keyed m"
  shows "manager_inv m" "mg_repeats m = Map.empty"
    and "alarms m i = Some (e, c) \<Longrightarrow> \<exists>k u. c = Some (Keyed_task i k u) \<and> mg_key_id m k = Some i"
    and "mg_key_id m k = Some i \<Longrightarrow> mg_key_id m k' = Some i \<Longrightarrow> k = k'"
proof -
  show "manager_inv m" "mg_repeats m = Map.empty" using assms by (auto simp: keyed_def)
  then have t: "tables_ok (alarms m) (mg_next_id m) (mg_repeats m) (mg_key_id m)" by (simp add: manager_inv_def)
  show "\<exists>k u. c = Some (Keyed_task i k u) \<and> mg_key_id m k = Some i" if "alarms m i = Some (e, c)"
  proof -
    have "\<exists>k u. c = Some (Keyed_task i k u)" using assms that unfolding keyed_def by blast
    then obtain k u where "c = Some (Keyed_task i k u)" by blast
    with tables_okD(2) [OF t that] show ?thesis by simp
  qed
  show "k = k'" if "mg_key_id m k = Some i" "mg_key_id m k' = Some i"
    using tables_okD(5) [OF t that] .
qed

lemma deadlines_of_iff:
  assumes "keyed m"
  shows "deadlines_of m k = Some (e, u) \<longleftrightarrow> (\<exists>i. mg_key_id m k = Some i \<and> alarms m i = Some (e, Some (Keyed_task i k u)))"
proof
  assume "deadlines_of m k = Some (e, u)"
  then obtain i j k' where i: "mg_key_id m k = Some i" "alarms m i = Some (e, Some (Keyed_task j k' u))"
    by (auto simp: deadlines_of_def split: option.splits task.splits)
  with keyedD(3) [OF assms i(2)] keyedD(4) [OF assms i(1)] show "\<exists>i. mg_key_id m k = Some i \<and> alarms m i = Some (e, Some (Keyed_task i k u))"
    by fastforce
qed (auto simp: deadlines_of_def)

lemma new_manager_keyed: "keyed new_logged_manager" "deadlines_of new_logged_manager = Map.empty"
  by (auto simp: keyed_def deadlines_of_def fun_eq_iff split: option.split)

section \<open>Writing an entry\<close>

lemma cancel_keyed:
  assumes "keyed m"
  shows "keyed (cancel_by_key k m)" "deadlines_of (cancel_by_key k m) = (deadlines_of m)(k := None)"
proof -
  note D = keyedD [OF assms] and c = cancel_by_key_ok [OF keyedD(1) [OF assms], of k]
  show keyed: "keyed (cancel_by_key k m)"
    using c D(2) D(3) by (fastforce simp: keyed_def split: option.splits if_splits)
  show "deadlines_of (cancel_by_key k m) = (deadlines_of m)(k := None)"
  proof
    fix k'
    show "deadlines_of (cancel_by_key k m) k' = ((deadlines_of m)(k := None)) k'"
    proof (cases "k' = k")
      case True
      with c show ?thesis by (simp add: deadlines_of_def)
    next
      case False
      then have "mg_key_id m k = Some i \<Longrightarrow> mg_key_id m k' \<noteq> Some i" for i using D(4) by blast
      with False c show ?thesis by (auto simp: deadlines_of_def split: option.splits)
    qed
  qed
qed

lemma schedule_keyed:
  fixes m m' :: "('u, 'z) timer_manager_scheme"
  assumes "keyed m" "schedule_with_key now k ms 0 u m = Inr m'"
  shows "keyed m'" "deadlines_of m' = (deadlines_of m)(k \<mapsto> (now + MS ms, u))" "timer_manager.more m' = timer_manager.more m"
proof -
  let ?c = "cancel_by_key k m" and ?i = "mg_next_id m"
  note c = cancel_by_key_ok [OF keyedD(1) [OF assms(1)], of k] and k = cancel_keyed [OF assms(1), of k]
  note D = keyedD [OF k(1)]
  have inv: "manager_inv ?c" "mg_key_id ?c k = None" "mg_next_id ?c = ?i" using c by auto
  have d: "do_schedule_with_key now k ms 0 (Some u) ?c = Inr m'" using assms(2) by (simp add: schedule_with_key_def)
  then have n: "mg_next_id ?c \<noteq> int int_max" by (auto simp: do_schedule_with_key_def dest: next_timer_id_Inr)
  obtain m2 where m2: "do_schedule_with_key now k ms 0 (Some u) ?c = Inr m2" "manager_inv m2"
    "alarms m2 = (alarms ?c)(mg_next_id ?c \<mapsto> (now + MS ms, Some (Keyed_task (mg_next_id ?c) k u)))"
    "mg_key_id m2 = (mg_key_id ?c)(k \<mapsto> mg_next_id ?c)"
    "mg_repeats m2 = (if (0::int) = 0 then mg_repeats ?c else (mg_repeats ?c)(mg_next_id ?c \<mapsto> (0, ms)))"
    "timer_manager.more m2 = timer_manager.more ?c"
    by (rule do_schedule_with_key_ok [OF inv(1) n inv(2), of now ms 0 u])
  with d inv(3) have m': "manager_inv m'" "alarms m' = (alarms ?c)(?i \<mapsto> (now + MS ms, Some (Keyed_task ?i k u)))"
    "mg_key_id m' = (mg_key_id ?c)(k \<mapsto> ?i)" "mg_repeats m' = mg_repeats ?c" by simp_all
  have fresh: "mg_key_id ?c k' \<noteq> Some ?i" "alarms ?c ?i = None" for k'
  proof -
    have t: "tables_ok (alarms ?c) ?i (mg_repeats ?c) (mg_key_id ?c)" using inv by (simp add: manager_inv_def)
    from tables_okD(4) [OF t, of k' ?i] tables_fresh(1) [OF t] show "mg_key_id ?c k' \<noteq> Some ?i" "alarms ?c ?i = None" by auto
  qed
  show "timer_manager.more m' = timer_manager.more m" using d m2(1,6) c by simp
  show keyed: "keyed m'" using m' D(2) k(1) by (auto simp: keyed_def)
  show "deadlines_of m' = (deadlines_of m)(k \<mapsto> (now + MS ms, u))"
  proof
    fix k'
    have "deadlines_of m' k' = ((deadlines_of ?c)(k \<mapsto> (now + MS ms, u))) k'"
      using m'(2,3) fresh by (auto simp: deadlines_of_def split: option.split)
    with k(2) show "deadlines_of m' k' = ((deadlines_of m)(k \<mapsto> (now + MS ms, u))) k'" by simp
  qed
qed

section \<open>Taking the entries that are due\<close>

lemma alarms_finite: "finite (dom (alarms t))"
  by (simp add: alarms_def finite_dom_map_of)

lemma alarms_few:
  assumes "keyed m"
  shows "card (dom (alarms m)) \<le> card (dom (deadlines_of m))"
proof -
  note D = keyedD [OF assms]
  define key_of where "key_of = (\<lambda>i. case alarms m i of Some (e, Some (Keyed_task j k u)) \<Rightarrow> k | _ \<Rightarrow> 0)"
  have "k \<in> key_of ` dom (alarms m)" if "k \<in> dom (deadlines_of m)" for k
    using that deadlines_of_iff [OF assms, of k] by (force simp: key_of_def image_iff)
  then have "dom (deadlines_of m) \<subseteq> key_of ` dom (alarms m)" by blast
  with alarms_finite have fin: "finite (dom (deadlines_of m))" by (meson finite_imageI finite_subset)
  have "i \<in> (\<lambda>k. the (mg_key_id m k)) ` dom (deadlines_of m)" if i: "i \<in> dom (alarms m)" for i
  proof -
    obtain e c where "alarms m i = Some (e, c)" using i by (metis domD surj_pair)
    with D(3) obtain k u where k: "alarms m i = Some (e, Some (Keyed_task i k u))" "mg_key_id m k = Some i" by blast
    then have "deadlines_of m k = Some (e, u)" using deadlines_of_iff [OF assms] by blast
    with k(2) show ?thesis by (intro image_eqI [of _ _ k]) auto
  qed
  then have "dom (alarms m) \<subseteq> (\<lambda>k. the (mg_key_id m k)) ` dom (deadlines_of m)" by blast
  with fin show ?thesis by (meson card_image_le card_mono finite_imageI order_trans)
qed

text \<open>One round of the loop: the entry with the least deadline goes, and its callback has run.\<close>

lemma front_keyed:
  fixes m :: "('u, 'z) logged_manager_scheme"
  assumes "keyed m" "timer_front m = Some (i, e, c)"
  obtains k u m1 where "exec_callback (run_task now log_user) c (pop_timer m) = m1" "keyed m1" "alarms m1 = (alarms m)(i := None)"
    "deadlines_of m k = Some (e, u)" "deadlines_of m1 = (deadlines_of m)(k := None)" "ran m1 = ran m @ [u]"
    "\<And>k' e' u'. deadlines_of m k' = Some (e', u') \<Longrightarrow> e \<le> e'"
proof -
  note D = keyedD [OF assms(1)]
  from manager_clock.front_Some [OF D(1) assms(2)] have al: "alarms m i = Some (e, c)" .
  with D(3) obtain k u where k: "c = Some (Keyed_task i k u)" "mg_key_id m k = Some i" by blast
  note pop = manager_clock.drop_ok [OF D(1) assms(2)] pop_timer_tables [OF D(1)]
  let ?p = "(pop_timer m)\<lparr>ran := ran (pop_timer m) @ [u]\<rparr>"
  let ?m1 = "?p\<lparr>mg_key_id := (mg_key_id ?p)(k := None)\<rparr>"
  have run: "exec_callback (run_task now log_user) c (pop_timer m) = ?m1"
    using k pop D(2) by (simp add: exec_callback_def log_user_def repeat_task_def)
  have al1: "alarms ?m1 = (alarms m)(i := None)" "mg_key_id ?m1 = (mg_key_id m)(k := None)" "mg_repeats ?m1 = Map.empty"
    using pop D(2) by simp_all
  have "manager_inv ?p" using pop by simp
  then have "tables_ok (alarms ?p) (mg_next_id ?p) (mg_repeats ?p) (mg_key_id ?p)" "timer_inv ?p" by (simp_all add: manager_inv_def)
  then have "manager_inv ?m1"
    using k(2) pop by (auto simp: manager_inv_def intro!: tables_drop_key [where i = i])
  moreover have "\<exists>k u. c' = Some (Keyed_task j k u)" if "alarms ?m1 j = Some (e', c')" for j e' c'
    using that D(3) [of j e' c'] al1(1) by (auto split: if_splits)
  ultimately have keyed: "keyed ?m1" using al1(3) by (simp add: keyed_def)
  have P: "deadlines_of ?m1 = (deadlines_of m)(k := None)"
  proof
    fix k'
    show "deadlines_of ?m1 k' = ((deadlines_of m)(k := None)) k'"
    proof (cases "k' = k")
      case True
      then show ?thesis by (simp add: deadlines_of_def)
    next
      case False
      then have "mg_key_id m k' \<noteq> Some i" using D(4) k(2) by blast
      with False al1(1,2) show ?thesis by (auto simp: deadlines_of_def split: option.splits)
    qed
  qed
  have least: "e \<le> e'" if "deadlines_of m k' = Some (e', u')" for k' e' u'
    using that manager_clock.front_least [OF D(1) assms(2)] deadlines_of_iff [OF assms(1)] by blast
  have "deadlines_of m k = Some (e, u)" using k al deadlines_of_iff [OF assms(1)] by blast
  moreover have "ran ?m1 = ran m @ [u]" using pop same_ran [of "pop_timer m" m] by simp
  ultimately show thesis using that [OF run keyed al1(1) _ P] least by blast
qed

lemma fire_loop_keyed:
  fixes m :: "('u, 'z) logged_manager_scheme"
  assumes "keyed m" "card (dom (alarms m)) \<le> b"
    and "fire_loop timer_front pop_timer (\<lambda>p e. e - T < 1000000) (\<lambda>p. run_task T log_user) p b m = (fs, m')"
  shows "keyed m' \<and> (\<exists>ks. distinct ks \<and> set ks = {k. \<exists>e u. deadlines_of m k = Some (e, u) \<and> e - T < 1000000}
     \<and> sorted (map (\<lambda>k. fst (the (deadlines_of m k))) ks) \<and> deadlines_of m' = deadlines_of m |` (- set ks)
     \<and> ran m' = ran m @ map (\<lambda>k. snd (the (deadlines_of m k))) ks)"
  using assms
proof (induction b arbitrary: p m fs)
  case 0
  then have "alarms m = Map.empty" using alarms_finite [of m] by simp
  then have "deadlines_of m = Map.empty" using deadlines_of_iff [OF "0.prems"(1)] by (metis ext not_Some_eq option.distinct(1) surj_pair)
  with 0 show ?case by (auto intro!: exI [of _ "[]"])
next
  case (Suc b)
  show ?case
  proof (cases "timer_front m")
    case None
    then have "alarms m = Map.empty" using manager_clock.front_None keyedD(1) [OF Suc.prems(1)] by blast
    then have "deadlines_of m = Map.empty" using deadlines_of_iff [OF Suc.prems(1)] by (metis ext not_Some_eq option.distinct(1) surj_pair)
    with None Suc.prems show ?thesis by (auto intro!: exI [of _ "[]"])
  next
    case (Some r)
    obtain i e c where r: "timer_front m = Some (i, e, c)" using Some by (metis surj_pair)
    show ?thesis
    proof (rule front_keyed [where now = T, OF Suc.prems(1) r])
      fix k u m1
      assume run: "exec_callback (run_task T log_user) c (pop_timer m) = m1" and k1: "keyed m1" and al: "alarms m1 = (alarms m)(i := None)"
        and k: "deadlines_of m k = Some (e, u)" and P: "deadlines_of m1 = (deadlines_of m)(k := None)" and log: "ran m1 = ran m @ [u]"
        and least: "\<And>k' e' u'. deadlines_of m k' = Some (e', u') \<Longrightarrow> e \<le> e'"
      show ?thesis
      proof (cases "e - T < 1000000")
        case False
        with least have "{k. \<exists>e u. deadlines_of m k = Some (e, u) \<and> e - T < 1000000} = {}" by fastforce
        with Suc.prems r False show ?thesis by (auto intro!: exI [of _ "[]"])
      next
        case True
        obtain fs1 where f: "fire_loop timer_front pop_timer (\<lambda>p e. e - T < 1000000) (\<lambda>p. run_task T log_user) (p + 1) b m1 = (fs1, m')"
          using Suc.prems(3) r True run by (auto simp: Let_def split: prod.splits)
        have "i \<in> dom (alarms m)" using manager_clock.front_Some [OF keyedD(1) [OF Suc.prems(1)] r] by auto
        then have "card (dom (alarms m1)) \<le> b" using Suc.prems(2) alarms_finite [of m] by (simp add: al)
        from Suc.IH [OF k1 this f] obtain ks where m': "keyed m'" and ks: "distinct ks"
          "set ks = {k. \<exists>e u. deadlines_of m1 k = Some (e, u) \<and> e - T < 1000000}"
          "sorted (map (\<lambda>k. fst (the (deadlines_of m1 k))) ks)" "deadlines_of m' = deadlines_of m1 |` (- set ks)"
          "ran m' = ran m1 @ map (\<lambda>k. snd (the (deadlines_of m1 k))) ks" by blast
        have new: "k \<notin> set ks" using ks(2) P by simp
        then have same: "map (\<lambda>k'. f (the (deadlines_of m1 k'))) ks = map (\<lambda>k'. f (the (deadlines_of m k'))) ks" for f :: "int \<times> 'u \<Rightarrow> 'b"
          by (intro map_cong) (auto simp: P)
        have "set (k # ks) = {k. \<exists>e u. deadlines_of m k = Some (e, u) \<and> e - T < 1000000}"
          using ks(2) k True by (auto simp: P split: if_splits)
        moreover have "sorted (map (\<lambda>k. fst (the (deadlines_of m k))) (k # ks))"
        proof -
          have "sorted (map (\<lambda>k. fst (the (deadlines_of m k))) ks)" using ks(3) unfolding same [of fst] .
          moreover have "e \<le> fst (the (deadlines_of m k'))" if "k' \<in> set ks" for k'
            using that ks(2) least by (auto simp: P split: if_splits)
          ultimately show ?thesis using k by simp
        qed
        moreover have "deadlines_of m' = deadlines_of m |` (- set (k # ks))"
          unfolding ks(4) P by (auto simp: restrict_map_def fun_eq_iff)
        moreover have "ran m' = ran m @ map (\<lambda>k. snd (the (deadlines_of m k))) (k # ks)"
          using ks(5) log same [of snd] k by simp
        moreover have "distinct (k # ks)" using new ks(1) by simp
        ultimately show ?thesis using m' by blast
      qed
    qed
  qed
qed

section \<open>The simulation\<close>

text \<open>
  C10: with keyed timers that do not repeat, the timer manager refines a table of deadlines: heap, index table, key table and
  ids together behave as one map from keys to a deadline and a callback. \<open>ScheduleWithKey\<close> writes an entry, \<open>CancelByKey\<close>
  removes it, and \<open>Update\<close> takes out exactly the entries that are due (up to the hundred that it looks at) and runs
  each callback once, in the order of the deadlines. The new manager is the empty table.
\<close>

theorem manager_refines_deadlines:
  assumes "keyed m" "manager_op op m = Inr m'" "card (dom (deadlines_of m)) \<le> 100"
  shows "keyed m' \<and> deadline_step op (deadlines_of m, ran m) (deadlines_of m', ran m')
     \<and> keyed (new_logged_manager :: 'u logged_manager) \<and> deadlines_of (new_logged_manager :: 'u logged_manager) = Map.empty"
proof (cases op)
  case (Put now k ms u)
  with assms(2) have s: "schedule_with_key now k ms 0 u m = Inr m'" by simp
  from schedule_keyed [OF assms(1) s] same_ran [OF schedule_keyed(3) [OF assms(1) s]] Put show ?thesis
    by (simp add: put_entry new_manager_keyed)
next
  case (Drop k)
  with assms(2) have "m' = cancel_by_key k m" by simp
  with cancel_keyed [OF assms(1), of k] same_ran [of m' m] cancel_by_key_ok [OF keyedD(1) [OF assms(1)], of k] Drop show ?thesis
    by (simp add: drop_entry new_manager_keyed)
next
  case (Fire T)
  obtain fs where "fire_loop timer_front pop_timer (\<lambda>p e. e - T < 1000000) (\<lambda>p. run_task T log_user) 0 100 m = (fs, m')"
    using assms(2) Fire by (cases "fire_loop timer_front pop_timer (\<lambda>p e. e - T < 1000000) (\<lambda>p. run_task T log_user) 0 100 m")
      (simp add: manager_update_def tick_eq)
  from fire_loop_keyed [OF assms(1) order_trans [OF alarms_few [OF assms(1)] assms(3)] this] obtain ks where "keyed m'" "distinct ks"
    "set ks = {k. \<exists>e u. deadlines_of m k = Some (e, u) \<and> e - T < 1000000}" "sorted (map (\<lambda>k. fst (the (deadlines_of m k))) ks)"
    "deadlines_of m' = deadlines_of m |` (- set ks)" "ran m' = ran m @ map (\<lambda>k. snd (the (deadlines_of m k))) ks" by blast
  with fire_due [of ks "deadlines_of m" T "ran m"] Fire show ?thesis by (simp add: new_manager_keyed)
qed

theorem manager_refines_deadlines_witness:
  "\<exists>m1 m2 m3 :: string logged_manager. manager_op (Put 0 7 5 ''b'') new_logged_manager = Inr m1 \<and> manager_op (Put 0 8 3 ''a'') m1 = Inr m2
     \<and> manager_op (Fire 4000000) m2 = Inr m3 \<and> deadlines_of m2 = [7 \<mapsto> (5000000, ''b''), 8 \<mapsto> (3000000, ''a'')]
     \<and> deadlines_of m3 = [7 \<mapsto> (5000000, ''b'')] \<and> ran m3 = [''a'']"
proof -
  let ?m = "new_logged_manager :: string logged_manager"
  have n: "keyed ?m" "deadlines_of ?m = Map.empty" "ran ?m = []" "mg_next_id ?m = 0" using new_manager_keyed by simp_all
  have "mg_next_id ?m \<noteq> int int_max" by (simp add: int_max_def)
  then obtain m1 where 1: "schedule_with_key 0 7 5 0 ''b'' ?m = Inr m1" "mg_next_id m1 = 1"
    using schedule_with_key_ok [OF keyedD(1) [OF n(1)], of 0 7 5 0 "''b''"] n(4) by (metis add_0)
  from manager_refines_deadlines [OF n(1), of "Put 0 7 5 ''b''" m1] 1 n
  have m1: "keyed m1" "deadlines_of m1 = [7 \<mapsto> (5000000, ''b'')]" "ran m1 = []" by (auto simp: MS_def elim: deadline_stepE)
  have "mg_next_id m1 \<noteq> int int_max" using 1(2) by (simp add: int_max_def)
  then obtain m2 where 2: "schedule_with_key 0 8 3 0 ''a'' m1 = Inr m2"
    using schedule_with_key_ok [OF keyedD(1) [OF m1(1)], of 0 8 3 0 "''a''"] by metis
  from manager_refines_deadlines [OF m1(1), of "Put 0 8 3 ''a''" m2] 2 m1
  have m2: "keyed m2" "deadlines_of m2 = [7 \<mapsto> (5000000, ''b''), 8 \<mapsto> (3000000, ''a'')]" "ran m2 = []"
    by (auto simp: MS_def elim: deadline_stepE)
  let ?m3 = "manager_update (\<lambda>p. 4000000) (\<lambda>p. 4000000) log_user m2"
  have "deadline_step (Fire 4000000) (deadlines_of m2, ran m2) (deadlines_of ?m3, ran ?m3)"
  proof -
    have "manager_op (Fire 4000000) m2 = Inr ?m3" "card (dom (deadlines_of m2)) \<le> 100" using m2(2) by simp_all
    from manager_refines_deadlines [OF m2(1) this] show ?thesis by blast
  qed
  then obtain ks where ks: "distinct ks" "set ks = {k. \<exists>e u. deadlines_of m2 k = Some (e, u) \<and> e - 4000000 < 1000000}"
    "deadlines_of ?m3 = deadlines_of m2 |` (- set ks)" "ran ?m3 = ran m2 @ map (\<lambda>k. snd (the (deadlines_of m2 k))) ks"
    by (auto elim: deadline_stepE)
  have "set ks = {8}" unfolding ks(2) m2(2) by auto
  with ks(1) have "ks = [8]" by (cases ks; cases "tl ks") auto
  with ks(3,4) m2 have "deadlines_of ?m3 = [7 \<mapsto> (5000000, ''b'')]" "ran ?m3 = [''a'']" by (auto simp: restrict_map_def fun_eq_iff)
  with 1 2 m2 show ?thesis by auto
qed

end
