(* ===== verification/Timer_Threads.thy ===== *)
theory Timer_Threads
  imports Map_Timer
begin

text \<open>
  The interface \<open>ITimerManager\<close> of \<open>include/task/timer/Itimer.h\<close> over its two implementations, and their thread loops
  \<open>Tick\<close>. What other threads do to a manager while its thread sleeps is a parameter.
\<close>

section \<open>\<open>Schedule\<close>\<close>

text \<open>The overload without a count repeats for ever; the callback is a lambda, so it is never empty.\<close>

definition schedule_forever ::
  "int \<Rightarrow> int \<Rightarrow> 'u \<Rightarrow> ('u, 'z) timer_manager_scheme \<Rightarrow> ('u, 'z) timer_manager_scheme outcome" where
  "schedule_forever now ms u m = do_schedule now ms (-1) (Some u) m"

definition schedule_times ::
  "int \<Rightarrow> int \<Rightarrow> int \<Rightarrow> 'u \<Rightarrow> ('u, 'z) timer_manager_scheme \<Rightarrow> ('u, 'z) timer_manager_scheme outcome" where
  "schedule_times now ms repeats u m = do_schedule now ms repeats (Some u) m"

definition map_schedule_forever :: "int \<Rightarrow> int \<Rightarrow> 'u \<Rightarrow> ('u, 'z) map_manager_scheme \<Rightarrow> ('u, 'z) map_manager_scheme" where
  "map_schedule_forever now ms u m = map_do_schedule now ms (-1) (Some u) m"

definition map_schedule_times :: "int \<Rightarrow> int \<Rightarrow> int \<Rightarrow> 'u \<Rightarrow> ('u, 'z) map_manager_scheme \<Rightarrow> ('u, 'z) map_manager_scheme" where
  "map_schedule_times now ms repeats u m = map_do_schedule now ms repeats (Some u) m"

section \<open>The thread loops\<close>

text \<open>
  \<open>while (!_bClosed)\<close> around a round. The numbers count the points at which other threads get to the manager: \<open>others k\<close>
  is what they do at the \<open>k\<close>-th, and a round that starts at point \<open>k\<close> says at which one it ends.
\<close>

partial_function (option) thread_loop :: "('m \<Rightarrow> bool) \<Rightarrow> (nat \<Rightarrow> 'm \<Rightarrow> nat \<times> 'm) \<Rightarrow> nat \<Rightarrow> 'm \<Rightarrow> 'm option" where
  "thread_loop closed round k m =
     (if closed m then Some m else case round k m of (k1, m1) \<Rightarrow> thread_loop closed round k1 m1)"

text \<open>A thread that no round moves on and that does not see the flag stays in the loop for ever.\<close>

lemma stuck_loop:
  assumes "\<not> closed m0" "\<And>k. snd (round k m0) = m0"
  shows "thread_loop closed round k m0 = None"
proof (rule ccontr)
  have *: "m' = m0 \<longrightarrow> c = closed \<longrightarrow> r \<noteq> round" if "thread_loop c r k m' = Some m" for c r k m' m
  proof (rule thread_loop.raw_induct [OF _ that, where P = "\<lambda>c r k m' m. m' = m0 \<longrightarrow> c = closed \<longrightarrow> r \<noteq> round"], intro impI notI)
    fix loop c r k m' m
    assume IH: "\<And>c r k m' m. loop c r k m' = Some m \<Longrightarrow> m' = m0 \<longrightarrow> c = closed \<longrightarrow> r \<noteq> round"
      and run: "(if c m' then Some m' else case r k m' of (k1, m1) \<Rightarrow> loop c r k1 m1) = Some m"
      and eqs: "m' = m0" "c = closed" "r = round"
    obtain k1 where "round k m0 = (k1, m0)" using assms(2) [of k] by (metis prod.collapse)
    with run eqs assms(1) IH [of closed round k1 m0 m] show False by simp
  qed
  assume "thread_loop closed round k m0 \<noteq> None"
  with * show False by blast
qed
text \<open>The heap manager only updates.\<close>

definition heap_round ::
  "(nat \<Rightarrow> nat \<Rightarrow> int) \<Rightarrow> (nat \<Rightarrow> nat \<Rightarrow> int) \<Rightarrow> ('u \<Rightarrow> ('u, 'z) timer_manager_scheme \<Rightarrow> bool \<times> ('u, 'z) timer_manager_scheme)
     \<Rightarrow> (nat \<Rightarrow> ('u, 'z) timer_manager_scheme \<Rightarrow> ('u, 'z) timer_manager_scheme)
     \<Rightarrow> nat \<Rightarrow> ('u, 'z) timer_manager_scheme \<Rightarrow> nat \<times> ('u, 'z) timer_manager_scheme" where
  "heap_round clock now user others k m = (k + 1, others k (manager_update (clock k) (now k) user m))"

text \<open>Sleeping in slices of 10 ms, with a look at \<open>_bClosed\<close> before and after each.\<close>

fun nap :: "(nat \<Rightarrow> 'm \<Rightarrow> 'm) \<Rightarrow> ('m \<Rightarrow> bool) \<Rightarrow> nat \<Rightarrow> nat \<Rightarrow> 'm \<Rightarrow> nat \<times> 'm" where
  "nap others closed 0 k m = (k, m)"
| "nap others closed (Suc i) k m =
     (if closed m then (k, m)
      else let m1 = others k m in if closed m1 then (k + 1, m1) else nap others closed i (k + 1) m1)"

definition slices :: "int \<Rightarrow> nat" where
  "slices next_tick = (if next_tick < 0 then 10 else if 0 < next_tick then nat (min next_tick 100) div 10 else 0)"

definition map_round ::
  "(nat \<Rightarrow> int) \<Rightarrow> (nat \<Rightarrow> nat \<Rightarrow> int) \<Rightarrow> (nat \<Rightarrow> int) \<Rightarrow> ('u \<Rightarrow> ('u, 'z) map_manager_scheme \<Rightarrow> bool \<times> ('u, 'z) map_manager_scheme)
     \<Rightarrow> (nat \<Rightarrow> ('u, 'z) map_manager_scheme \<Rightarrow> ('u, 'z) map_manager_scheme)
     \<Rightarrow> nat \<Rightarrow> ('u, 'z) map_manager_scheme \<Rightarrow> nat \<times> ('u, 'z) map_manager_scheme" where
  "map_round now clock now' user others k m =
     (let m1 = map_update (now k) (clock k) user m;
          (k1, m2) = nap others mm_closed (slices (map_next_tick (now' k) m1)) k m1
      in (k1 + 1, others k1 m2))"

text \<open>
  Other threads, of which one calls \<open>Stop\<close> at point \<open>n\<close>. \<open>Stop\<close> is the only writer of \<open>_bClosed\<close>: whatever else the
  others do to the manager, they leave the flag as it is.
\<close>

definition stop_at :: "nat \<Rightarrow> ('m \<Rightarrow> 'm) \<Rightarrow> (nat \<Rightarrow> 'm \<Rightarrow> 'm) \<Rightarrow> nat \<Rightarrow> 'm \<Rightarrow> 'm" where
  "stop_at n stop others k m = (if k = n then stop (others k m) else others k m)"

definition heap_others :: "(nat \<Rightarrow> ('u, 'z) timer_manager_scheme \<Rightarrow> ('u, 'z) timer_manager_scheme)
     \<Rightarrow> nat \<Rightarrow> ('u, 'z) timer_manager_scheme \<Rightarrow> ('u, 'z) timer_manager_scheme" where
  "heap_others others k m = (others k m)\<lparr>mg_closed := mg_closed m\<rparr>"

definition map_others :: "(nat \<Rightarrow> ('u, 'z) map_manager_scheme \<Rightarrow> ('u, 'z) map_manager_scheme)
     \<Rightarrow> nat \<Rightarrow> ('u, 'z) map_manager_scheme \<Rightarrow> ('u, 'z) map_manager_scheme" where
  "map_others others k m = (others k m)\<lparr>mm_closed := mm_closed m\<rparr>"

section \<open>Stopping\<close>

text \<open>
  A loop ends if every round moves on and the round that passes point \<open>n\<close> leaves the flag set, provided that no round
  gets stuck: \<open>awake\<close> holds where the thread does not wait for ever.
\<close>

locale stoppable =
  fixes closed :: "'m \<Rightarrow> bool" and awake :: "'m \<Rightarrow> bool" and round :: "nat \<Rightarrow> 'm \<Rightarrow> nat \<times> 'm" and n :: nat
  assumes moves: "round k m = (k1, m1) \<Longrightarrow> k < k1"
    and flag: "round k m = (k1, m1) \<Longrightarrow> k \<le> n \<Longrightarrow> n < k1 \<Longrightarrow> awake m1 \<Longrightarrow> closed m1"
begin

lemma loop_ends_with:
  assumes step: "\<And>k m k1 m1. P k m \<Longrightarrow> k \<le> n \<Longrightarrow> \<not> closed m \<Longrightarrow> round k m = (k1, m1) \<Longrightarrow> P k1 m1"
    and up: "\<And>k m. P k m \<Longrightarrow> awake m"
    and "P k m" "k \<le> n"
  shows "\<exists>k' m'. thread_loop closed round k m = Some m' \<and> closed m' \<and> P k' m'"
  using assms(3,4)
proof (induction "n - k" arbitrary: k m rule: less_induct)
  case less
  show ?case
  proof (cases "closed m")
    case True
    with less.prems show ?thesis by (subst thread_loop.simps) auto
  next
    case False
    obtain k1 m1 where r: "round k m = (k1, m1)" by fastforce
    note P1 = step [OF less.prems False r]
    have "\<exists>k' m'. thread_loop closed round k1 m1 = Some m' \<and> closed m' \<and> P k' m'"
    proof (cases "k1 \<le> n")
      case True
      with moves [OF r] P1 less.hyps [of k1 m1] show ?thesis by simp
    next
      case 2: False
      with flag [OF r less.prems(2)] up [OF P1] have "closed m1" by simp
      with P1 show ?thesis by (subst thread_loop.simps) auto
    qed
    with False r show ?thesis by (subst thread_loop.simps) simp
  qed
qed

lemma loop_ends: "(\<And>m. awake m) \<Longrightarrow> k \<le> n \<Longrightarrow> \<exists>m'. thread_loop closed round k m = Some m' \<and> closed m'"
  using loop_ends_with [of "\<lambda>k m. True" k m] by auto

end

lemma nap_moves: "nap others closed i k m = (k1, m1) \<Longrightarrow> k \<le> k1 \<and> k1 \<le> k + i"
  by (induction i arbitrary: k m) (fastforce simp: Let_def split: if_splits)+

lemma slices_le: "slices t \<le> 10"
  by (auto simp: slices_def)

text \<open>A nap that passes point \<open>n\<close> ends with the flag set.\<close>

lemma nap_flag:
  assumes "\<And>m. closed (others n m)" "\<And>k m. closed m \<Longrightarrow> closed (others k m)"
    and "nap others closed i k m = (k1, m1)" "k \<le> n" "n < k1"
  shows "closed m1"
  using assms(3,4)
proof (induction i arbitrary: k m)
  case (Suc i)
  show ?case
  proof (cases "k = n")
    case True
    with Suc.prems assms(1,5) show ?thesis by (auto simp: Let_def split: if_splits)
  next
    case False
    with Suc show ?thesis by (auto simp: Let_def split: if_splits)
  qed
qed (use assms(5) in simp)

interpretation heap_thread: stoppable mg_closed "\<lambda>m. True" "heap_round clock now user (stop_at n manager_stop (heap_others others))" n
  for clock now user others n
  by unfold_locales (auto simp: heap_round_def stop_at_def manager_stop_def)

lemma map_stop_closes:
  "mm_closed (stop_at n (map_stop t) (map_others others) n m)"
  "mm_closed m \<Longrightarrow> mm_closed (stop_at n (map_stop t) (map_others others) k m)"
  by (simp_all add: stop_at_def map_stop_def map_others_def put_timer_def)

interpretation map_thread: stoppable mm_closed "\<lambda>m. True"
  "map_round now clock now' user (stop_at n (map_stop t) (map_others others))" n
  for now clock now' user others t n
proof (unfold_locales, goal_cases)
  case (1 k m k1 m1)
  then show ?case by (auto simp: map_round_def Let_def dest: nap_moves split: prod.splits)
next
  case (2 k m k1 m1)
  let ?o = "stop_at n (map_stop t) (map_others others)"
  obtain k2 m2 i where nap: "nap ?o mm_closed i k (map_update (now k) (clock k) user m) = (k2, m2)" "k1 = k2 + 1" "m1 = ?o k2 m2"
    using 2(1) by (auto simp: map_round_def Let_def split: prod.splits)
  show ?case
  proof (cases "k2 = n")
    case True
    with nap(3) map_stop_closes(1) show ?thesis by simp
  next
    case False
    with 2(3) nap(2) have "n < k2" by simp
    from nap_flag [OF map_stop_closes(1) map_stop_closes(2) nap(1) 2(2) this] nap(3) map_stop_closes(2) show ?thesis by simp
  qed
qed

text \<open>
  C22: the timer threads end. If some thread calls \<open>Stop\<close>, at whatever point, the loop of \<open>Tick\<close> of either manager
  returns with the flag that \<open>Stop\<close> has set, whatever timers are set, whatever the callbacks do before they return and whatever the other
  threads do to the timers before and after; and the multimap's thread sleeps at most ten slices of 10 ms between
  two looks at the timers.
\<close>

theorem timer_threads_stop:
  "(\<exists>m'. thread_loop mg_closed (heap_round clock now user (stop_at n manager_stop (heap_others others))) 0 m = Some m' \<and> mg_closed m')
   \<and> (\<exists>q'. thread_loop mm_closed (map_round mnow mclock mnow' muser (stop_at n (map_stop t) (map_others mothers))) 0 q
          = Some q' \<and> mm_closed q')
   \<and> fst (map_round mnow mclock mnow' muser mothers k q) \<le> k + 11"
proof (intro conjI)
  show "fst (map_round mnow mclock mnow' muser mothers k q) \<le> k + 11"
  proof -
    let ?q = "map_update (mnow k) (mclock k) muser q"
    obtain k1 q1 where n: "nap mothers mm_closed (slices (map_next_tick (mnow' k) ?q)) k ?q = (k1, q1)" by fastforce
    from nap_moves [OF n] slices_le [of "map_next_tick (mnow' k) ?q"] have "k1 \<le> k + 10" by linarith
    with n show ?thesis by (simp add: map_round_def)
  qed
qed (rule heap_thread.loop_ends map_thread.loop_ends, simp, simp)+

theorem timer_threads_stop_witness:
  "\<exists>q'. thread_loop mm_closed (map_round (\<lambda>k. 0) (\<lambda>k p. 0) (\<lambda>k. 0) (\<lambda>u m. (True, m))
        (stop_at 12 (map_stop 7) (map_others (\<lambda>k. map_schedule_forever 0 5 ''beat'')))) 0 (new_map_manager :: string map_manager)
      = Some q' \<and> mm_closed q' \<and> \<not> mm_closed (new_map_manager :: string map_manager)"
  using timer_threads_stop [where mnow = "\<lambda>k. 0" and mclock = "\<lambda>k p. 0" and mnow' = "\<lambda>k. 0" and muser = "\<lambda>u m. (True, m)"
      and n = 12 and t = 7 and mothers = "\<lambda>k. map_schedule_forever 0 5 ''beat''" and q = "new_map_manager :: string map_manager",
      THEN conjunct2, THEN conjunct1]
  by (simp add: new_map_manager_def [THEN arg_cong [where f = mm_closed]])

text \<open>With less than 10 ms to the next timer the multimap's thread does not sleep at all.\<close>

lemma last_milliseconds_spin:
  assumes "0 < map_next_tick (now' k) (map_update (now k) (clock k) user m)" "map_next_tick (now' k) (map_update (now k) (clock k) user m) < 10"
  shows "map_round now clock now' user others k m = (k + 1, others k (map_update (now k) (clock k) user m))"
  using assms by (simp add: map_round_def slices_def)

section \<open>The reactor and the multimap\<close>

text \<open>
  The reactor calls \<open>GetNextTick\<close> only. That of the heap runs what is due; that of the multimap does not, so once a timer
  is due the answer stays 0, and \<open>epoll_wait\<close> never sleeps again.
\<close>

lemma due_timer_keeps_reactor_awake:
  assumes "mm_timers m = (time, t) # ts" "time \<le> now" "now - time < 2 ^ 31"
  shows "map_next_tick now m = 0"
  using assms by (simp add: map_next_tick_def to_int32_def Let_def)

end
