(* ===== verification/Error_Codes.thy ===== *)
theory Error_Codes
  imports Zener_Prelude
begin

text \<open>The error codes of \<open>include/utils/error/error.h\<close> and their names, \<open>src/utils/error/error.cpp\<close>.\<close>

datatype general_error_code = GENERAL_ERROR | INVALID_INPUT | FILE_NOT_FOUND

fun error_code_value :: "general_error_code \<Rightarrow> int" where
  "error_code_value GENERAL_ERROR = -1"
| "error_code_value INVALID_INPUT = -2"
| "error_code_value FILE_NOT_FOUND = -3"

text \<open>A variable of the enumeration can hold any \<open>int\<close>; the others are unknown.\<close>

definition general_error_code_to_string :: "int \<Rightarrow> string" where
  "general_error_code_to_string code =
     (if code = error_code_value GENERAL_ERROR then ''General Error''
      else if code = error_code_value INVALID_INPUT then ''Invalid Input''
      else if code = error_code_value FILE_NOT_FOUND then ''File Not Found''
      else ''Unknown Error'')"

lemma error_names_distinct:
  "general_error_code_to_string (error_code_value a) = general_error_code_to_string (error_code_value b) \<longleftrightarrow> a = b"
  by (cases a; cases b) (simp_all add: general_error_code_to_string_def)

lemma unknown_error_iff:
  "general_error_code_to_string code = ''Unknown Error'' \<longleftrightarrow> code \<notin> range error_code_value"
proof -
  have "UNIV = {GENERAL_ERROR, INVALID_INPUT, FILE_NOT_FOUND}" using general_error_code.exhaust by blast
  then have "range error_code_value = error_code_value ` {GENERAL_ERROR, INVALID_INPUT, FILE_NOT_FOUND}" by (rule arg_cong)
  then show ?thesis by (simp add: general_error_code_to_string_def)
qed

end
