(* ===== verification/Server_Run.thy ===== *)
theory Server_Run
  imports Server_Watch Timer_Threads
begin

text \<open>
  The loop of \<open>Server::Run\<close> as a whole, with the workers of the pool and a thread that calls \<open>Stop\<close>: from the constructor
  to the end of the loop.
\<close>

section \<open>Turns\<close>

text \<open>
  What the environment of one turn of the loop answers. Without \<open>tu_ready\<close> nothing becomes ready: \<open>epoll_wait\<close> returns after
  its time-out, and with a negative one never. A turn that stays in \<open>epoll_wait\<close> for ever has no result.
\<close>

record ('k, 'd) turn =
  tu_sys :: "('k, 'd) sys"
  tu_clock :: "nat \<Rightarrow> int"
  tu_now :: int
  tu_ready :: "(int + (int \<times> 32 word) list) option"
  tu_fds :: "(int \<times> (32 word \<times> 16 word)) list"

definition reactor_turn :: "('k, 'd) turn \<Rightarrow> ('k, 'd) server \<Rightarrow> ('k, 'd) server outcome option" where
  "reactor_turn t s =
     (case tu_ready t of
        Some r \<Rightarrow> Some (and_then (run_round (tu_sys t) (tu_clock t) (tu_now t) (\<lambda>n. r) (tu_fds t) s) (\<lambda>(ms, s1). Inr s1))
      | None \<Rightarrow>
          (case run_round (tu_sys t) (tu_clock t) (tu_now t) (\<lambda>n. Inr []) (tu_fds t) s of
             Inl e \<Rightarrow> Some (Inl e)
           | Inr (ms, s1) \<Rightarrow> if ms < 0 then None else Some (Inr s1)))"

text \<open>Workers take queued tasks and run them, in any order.\<close>

record ('k, 'd) pick =
  pi_index :: nat
  pi_sys :: "('k, 'd) sys"
  pi_rv :: "nat \<Rightarrow> nat \<Rightarrow> int + string"
  pi_wv :: "nat \<Rightarrow> string \<Rightarrow> int + nat"

definition run_pick :: "('k, 'd) pick \<Rightarrow> ('k, 'd) server \<Rightarrow> ('k, 'd) server outcome" where
  "run_pick p s =
     (let ts = tp_tasks (sv_pool s); i = pi_index p in
      if i < length ts
      then and_then (run_pool_task (pi_sys p) (pi_rv p) (pi_wv p) (ts ! i)
             (s\<lparr>sv_pool := (sv_pool s)\<lparr>tp_tasks := take i ts @ drop (Suc i) ts\<rparr>\<rparr>)) (\<lambda>(s1, sent). Inr s1)
      else Inr s)"

fun run_picks :: "('k, 'd) pick list \<Rightarrow> ('k, 'd) server \<Rightarrow> ('k, 'd) server outcome" where
  "run_picks [] s = Inr s"
| "run_picks (p # ps) s = and_then (run_pick p s) (run_picks ps)"

text \<open>
  The loop stops at the flag; a fault ends the process, so nothing is followed past it. After each turn the workers
  run, and after turn \<open>n\<close> some thread calls \<open>Stop\<close>. A reactor that waits for ever (\<open>None\<close>) has not stopped: it never gets
  to look at the flag again.
\<close>

definition halted :: "('k, 'd) server outcome option \<Rightarrow> bool" where
  "halted m = (case m of None \<Rightarrow> False | Some (Inl e) \<Rightarrow> True | Some (Inr s) \<Rightarrow> sv_closed s)"

definition run_turn ::
  "(nat \<Rightarrow> ('k, 'd) turn) \<Rightarrow> (nat \<Rightarrow> ('k, 'd) pick list) \<Rightarrow> nat \<Rightarrow> bool \<Rightarrow> nat \<Rightarrow> ('k, 'd) server outcome option
     \<Rightarrow> nat \<times> ('k, 'd) server outcome option" where
  "run_turn turns picks n close_ok k m =
     (k + 1,
      case m of
        Some (Inr s) \<Rightarrow> map_option (\<lambda>r. and_then r (\<lambda>s1.
                         and_then (run_picks (picks k) s1) (\<lambda>s2.
                           Inr (if k = n then halt_server close_ok s2 else s2)))) (reactor_turn (turns k) s)
      | stopped \<Rightarrow> stopped)"

definition server_run ::
  "(nat \<Rightarrow> ('k, 'd) turn) \<Rightarrow> (nat \<Rightarrow> ('k, 'd) pick list) \<Rightarrow> nat \<Rightarrow> bool \<Rightarrow> ('k, 'd) server \<Rightarrow> ('k, 'd) server outcome option" where
  "server_run turns picks n close_ok s =
     Option.bind (thread_loop halted (run_turn turns picks n close_ok) 0 (Some (Inr s))) (\<lambda>m. m)"

interpretation reactor_thread: stoppable halted "\<lambda>m. m \<noteq> None" "run_turn turns picks n close_ok" n for turns picks n close_ok
proof (unfold_locales, goal_cases)
  case (2 k m k1 m1)
  then have "k = n" by (simp add: run_turn_def)
  with 2(1,4) show ?case
    by (auto simp: run_turn_def halted_def halt_server_def Let_def split: option.splits sum.splits)
qed (simp add: run_turn_def)

section \<open>The queue of the pool\<close>

text \<open>Nothing that a server does queues \<open>_closeConnInternal\<close>.\<close>

definition client_queue :: "('k, 'd) server \<Rightarrow> bool" where
  "client_queue s \<longleftrightarrow> list_all client_task (tp_tasks (sv_pool s))"

lemma client_queue_fields [simp]:
  "client_queue (s\<lparr>sv_epoller := e\<rparr>) = client_queue s" "client_queue (s\<lparr>sv_kernel := k\<rparr>) = client_queue s"
  "client_queue (s\<lparr>sv_fault := f\<rparr>) = client_queue s" "client_queue (s\<lparr>sv_world := w, sv_db := db\<rparr>) = client_queue s"
  "client_queue (store_conn a c s) = client_queue s" "client_queue (close_fd fd s) = client_queue s"
  by (simp_all add: client_queue_def store_conn_def close_fd_def)

lemma same_pool: "sv_pool s' = sv_pool s \<Longrightarrow> client_queue s' = client_queue s"
  by (simp add: client_queue_def)

lemma close_conn_pool: "close_conn sys a s = Inr s' \<Longrightarrow> sv_pool s' = sv_pool s"
  by (auto simp: close_conn_def Let_def dest!: erase_user_pool split: if_splits prod.splits option.splits)

lemma extent_time_pool: "extent_time sys a s = Inr s' \<Longrightarrow> sv_pool s' = sv_pool s"
  by (auto simp: extent_time_def Let_def dest!: schedule_with_key_more server_fields(14) split: if_splits option.splits)

lemma user_entry_pool: "user_entry fd s = (info, s') \<Longrightarrow> sv_pool s' = sv_pool s"
  by (auto simp: user_entry_def split: option.splits)

lemma make_client_pool: "make_client sys fd addr i s = Inr (held, s') \<Longrightarrow> sv_pool s' = sv_pool s"
  by (auto simp: make_client_def Let_def split: sum.splits if_splits)

lemma add_client_pool:
  assumes "add_client sys fd addr s = Inr s'"
  shows "sv_pool s' = sv_pool s"
proof (rule add_client_stages [OF assms])
  fix held s1 s2 r
  assume m: "make_client sys fd addr (sv_next_id s) (s\<lparr>sv_next_id := sz_add (sv_next_id s) 1\<rparr>) = Inr (held, s1)"
    and t: "(if 0 < sv_timeout_ms s1 then schedule_with_key (sy_now sys) fd (sv_timeout_ms s1) 0 (On_add fd (sv_next_id s)) s1
      else Inr s1) = Inr s2"
    and rest: "(if r = -1 then drop_client held fd s2
      else case add_fd (sy_ctl sys) (sv_epoller s2) fd (EPOLLIN OR sv_conn_event s2) (sv_kernel s2) of
        (ok, k) \<Rightarrow> let s3 = s2\<lparr>sv_kernel := k\<rparr> in if \<not> ok then drop_client held fd s3 else Inr s3) = Inr s'"
  have "sv_pool s2 = sv_pool s1"
    using t by (auto dest!: schedule_with_key_more server_fields(14) split: if_splits)
  with make_client_pool [OF m] rest show ?thesis
    by (auto simp: Let_def drop_client_def close_fd_def dest: erase_user_pool split: prod.splits if_splits)
qed

lemma deal_queue:
  "deal_read sys a s = Inr s' \<Longrightarrow> client_queue s \<Longrightarrow> client_queue s'"
  "deal_write sys a s = Inr s' \<Longrightarrow> client_queue s \<Longrightarrow> client_queue s'"
  by (auto simp: deal_read_def deal_write_def queue_task_def add_task_def client_queue_def dest!: extent_time_pool split: if_splits)

lemma next_tick_queue:
  assumes "manager_next_tick clock now' now (run_timeout sys) s = (ms, s')" "client_queue s"
  shows "client_queue s'"
proof (rule next_tick_server [where Q = client_queue, OF _ _ assms])
  fix t and m :: "('a, 'b) server"
  assume m: "client_queue m"
  show "client_queue (snd (run_timeout sys t m))"
  proof (cases "timeout_body sys t m")
    case (Inl e)
    with m show ?thesis by (simp add: run_timeout_def)
  next
    case (Inr m')
    then have "sv_pool m' = sv_pool m"
    proof (rule timeout_body_cases)
      fix m1
      assume "m1 = m \<or> (\<exists>fd info. user_entry fd m = (info, m1))" "m' = m1 \<or> (\<exists>a. close_conn sys a m1 = Inr m')"
      then show ?thesis by (auto dest!: user_entry_pool close_conn_pool)
    qed
    with m Inr same_pool [of m' m] show ?thesis by (simp add: run_timeout_def)
  qed
next
  fix m m' :: "('a, 'b) server"
  assume "timer_manager.more m' = timer_manager.more m"
  then show "client_queue m' = client_queue m" by (rule same_pool [OF server_fields(14)])
qed

interpretation queue_steps: handler_steps sys a "\<lambda>s s'. client_queue s \<longrightarrow> client_queue s'" for sys a
  by unfold_locales (auto dest: same_pool [OF close_conn_pool] same_pool [OF extent_time_pool])

interpretation next_id_steps: handler_steps sys a "\<lambda>s s'. sv_next_id s' = sv_next_id s" for sys a
  by unfold_locales (auto simp: store_conn_def dest: close_conn_next extent_time_next)

interpretation queue_reactor: reactor_steps sys client_queue for sys
proof (unfold_locales, goal_cases)
  case (3 fd s info s1)
  then show ?case using same_pool [OF user_entry_pool] by blast
next
  case (4 fd addr s s')
  then show ?case using same_pool [OF add_client_pool] by blast
next
  case (5 a s s')
  then show ?case using same_pool [OF close_conn_pool] by blast
next
  case (6 a s s')
  then show ?case by (rule deal_queue(1))
next
  case (7 a s s')
  then show ?case by (rule deal_queue(2))
next
  case (8 clock now' s ms s')
  then show ?case by (rule next_tick_queue)
qed simp_all

section \<open>Steps of the program\<close>

definition turn_admits :: "('k, 'd) turn \<Rightarrow> nat" where
  "turn_admits t = (case tu_ready t of Some (Inr ready) \<Rightarrow> length (tu_fds t) * length ready | _ \<Rightarrow> 0)"

text \<open>The server as the loop finds it: at most \<open>N\<close> ids have been given out.\<close>

definition run_ok :: "('k \<Rightarrow> int \<rightharpoonup> 32 word) \<Rightarrow> nat \<Rightarrow> ('k, 'd) server \<Rightarrow> bool" where
  "run_ok interest N s \<longleftrightarrow> server_ok interest s \<and> client_queue s \<and> sv_next_id s \<le> N"

lemma reactor_turn_ok:
  assumes "reactor_turn t s = Some (Inr s')" "epoll_contract interest (sy_ctl (tu_sys t))" "run_ok interest N s"
    and "N + turn_admits t < size_lim"
  shows "run_ok interest (N + turn_admits t) s'"
proof -
  let ?a = "\<lambda>n :: nat. case tu_ready t of None \<Rightarrow> Inr [] | Some r \<Rightarrow> r"
  from assms(1) obtain ms where r: "run_round (tu_sys t) (tu_clock t) (tu_now t) ?a (tu_fds t) s = Inr (ms, s')"
    by (auto simp: reactor_turn_def split: option.splits sum.splits if_splits)
  have n: "admits ?a (tu_fds t) s = turn_admits t"
    by (auto simp: admits_def turn_admits_def split: option.splits sum.splits)
  have left: "ids_left ?a (tu_fds t) s"
    using assms(3,4) n by (auto simp: ids_left_def admits_def run_ok_def split: sum.splits)
  note ok = assms(3) [unfolded run_ok_def]
  have "server_ok interest s'"
    using watched_reactor.run_round_keeps [OF r _ left, of interest] ok assms(2) by blast
  moreover have "client_queue s' \<and> sv_next_id s' \<le> sv_next_id s + turn_admits t"
    using queue_reactor.run_round_keeps [OF r _ left] ok n by simp
  ultimately show ?thesis using ok by (simp add: run_ok_def)
qed

lemma run_pick_ok:
  assumes "run_pick p s = Inr s'" "epoll_contract interest (sy_ctl (pi_sys p))" "run_ok interest N s"
  shows "run_ok interest N s'"
proof (cases "pi_index p < length (tp_tasks (sv_pool s))")
  case False
  with assms(1,3) show ?thesis by (simp add: run_pick_def Let_def)
next
  case True
  define ts where "ts = tp_tasks (sv_pool s)"
  define s1 where "s1 = s\<lparr>sv_pool := (sv_pool s)\<lparr>tp_tasks := take (pi_index p) ts @ drop (Suc (pi_index p)) ts\<rparr>\<rparr>"
  have q: "client_task t" if "t \<in> set ts" for t using that assms(3) by (simp add: run_ok_def client_queue_def ts_def list_all_iff)
  have t: "client_task (ts ! pi_index p)" using q nth_mem True by (simp add: ts_def)
  have s1: "client_queue s1"
    using q by (auto simp: client_queue_def s1_def list_all_iff dest: in_set_takeD in_set_dropD)
  from assms(1) True obtain sent where r: "run_pool_task (pi_sys p) (pi_rv p) (pi_wv p) (ts ! pi_index p) s1 = Inr (s', sent)"
    by (auto simp: run_pick_def Let_def s1_def ts_def)
  from t obtain a where a: "ts ! pi_index p = Read_task a \<or> ts ! pi_index p = Write_task a"
    by (cases "ts ! pi_index p") auto
  have "server_ok interest s1" "sv_next_id s1 = sv_next_id s" using assms(3) by (simp_all add: run_ok_def s1_def)
  with watched_steps.run_client_task_step [OF a r] queue_steps.run_client_task_step [OF a r] next_id_steps.run_client_task_step [OF a r] s1 assms(2,3)
  show ?thesis by (simp add: run_ok_def)
qed

lemma run_picks_ok:
  assumes "run_picks ps s = Inr s'" "\<And>p. p \<in> set ps \<Longrightarrow> epoll_contract interest (sy_ctl (pi_sys p))" "run_ok interest N s"
  shows "run_ok interest N s'"
  using assms by (induction ps arbitrary: s) (auto intro: run_pick_ok)

lemma halt_server_ok [simp]: "run_ok interest N (halt_server close_ok s) = run_ok interest N s"
proof -
  have "timer_manager.truncate (halt_server close_ok s) = timer_manager.truncate s"
    by (simp add: halt_server_def Let_def close_fd_def timer_manager.truncate_def)
  from manager_truncate(4) [OF this] show ?thesis
    by (simp add: run_ok_def server_ok_def server_inv_def watched_def client_queue_def halt_server_def Let_def close_fd_def)
qed

lemma init_socket_frame:
  "init_socket sys api port linger s = Inr (ok, s') \<Longrightarrow> sv_next_id s' = sv_next_id s \<and> sv_pool s' = sv_pool s"
  by (auto simp: init_socket_def Let_def close_fd_def split: if_splits prod.splits)

lemma blank_server_fields [simp]: "sv_next_id (blank_server t p e k db) = 1" "sv_pool (blank_server t p e k db) = p"
  by (simp_all add: blank_server_def timer_manager.extend_def)

lemma new_server_start:
  assumes "new_server sys su port trig timeout linger n m k db lg = Inr (s, lg', dir)"
  shows "run_ok interest 1 s"
proof -
  obtain listen conn et where t: "init_event_mode trig = (listen, conn, et)" by (metis prod_cases3)
  have "sv_next_id s = 1 \<and> tp_tasks (sv_pool s) = []"
    using assms t by (auto simp: new_server_def new_pool_def Let_def dest!: init_socket_frame split: option.splits if_splits)
  with new_server_ok [OF assms] show ?thesis by (simp add: run_ok_def client_queue_def)
qed

section \<open>The whole loop\<close>

lemma run_turn_ok:
  assumes "run_turn turns picks n close_ok k m = (k1, Some (Inr s))" "\<And>s. m = Some (Inr s) \<Longrightarrow> run_ok interest N s"
    and "epoll_contract interest (sy_ctl (tu_sys (turns k)))"
    and "\<And>p. p \<in> set (picks k) \<Longrightarrow> epoll_contract interest (sy_ctl (pi_sys p))" "N + turn_admits (turns k) < size_lim"
  shows "k1 = Suc k \<and> run_ok interest (N + turn_admits (turns k)) s"
proof -
  from assms(1) obtain s1 s2 s3 where 1: "m = Some (Inr s1)" "reactor_turn (turns k) s1 = Some (Inr s2)" "run_picks (picks k) s2 = Inr s3"
    and 2: "s = (if k = n then halt_server close_ok s3 else s3)" "k1 = Suc k"
    by (auto simp: run_turn_def split: option.splits sum.splits)
  from run_picks_ok [OF 1(3) assms(4) reactor_turn_ok [OF 1(2) assms(3) assms(2) [OF 1(1)] assms(5)]]
  show ?thesis unfolding 2 by auto
qed

lemma run_ok_facts:
  assumes "run_ok interest N s"
  shows "cw_users (sv_world s) = int (card (dom (sv_conns s)))
     \<and> (\<forall>a c. sv_conns s a = Some c \<longrightarrow> interest (sv_kernel s) (cn_fd c) \<noteq> None
           \<and> (\<exists>info. sv_users s (cn_fd c) = Some info \<and> ci_conn info = Some a))
     \<and> (\<forall>t \<in> set (tp_tasks (sv_pool s)). \<exists>a. t = Read_task a \<or> t = Write_task a)"
proof -
  have ok: "server_inv s" "watched interest {} s" "client_queue s" using assms by (auto simp: run_ok_def server_ok_def)
  note D = table_invD [OF ok(1) [unfolded server_inv_def]]
  have "interest (sv_kernel s) (cn_fd c) \<noteq> None \<and> (\<exists>info. sv_users s (cn_fd c) = Some info \<and> ci_conn info = Some a)"
    if "sv_conns s a = Some c" for a c
    using that ok(2) D(2) [OF that] by (auto simp: watched_def live_def)
  moreover have "\<exists>a. t = Read_task a \<or> t = Write_task a" if "t \<in> set (tp_tasks (sv_pool s))" for t
  proof -
    from ok(3) that have "client_task t" by (simp add: client_queue_def list_all_iff)
    then show ?thesis by (cases t) auto
  qed
  ultimately show ?thesis using D(5) by blast
qed

text \<open>
  A turn whose \<open>epoll_wait\<close> answers has a result.
\<close>

lemma run_turn_awake:
  assumes "run_turn turns picks n close_ok k m = (k1, m1)" "m \<noteq> None" "tu_ready (turns k) \<noteq> None"
  shows "m1 \<noteq> None"
  using assms by (auto simp: run_turn_def reactor_turn_def split: option.splits sum.splits)


definition demo_turn :: "(int \<rightharpoonup> 32 word, unit) turn" where
  "demo_turn = \<lparr>tu_sys = demo_sys, tu_clock = (\<lambda>p. 0), tu_now = 0, tu_ready = Some (Inr [(3, EPOLLIN)]), tu_fds = [(7, (0, 0))]\<rparr>"


section \<open>Nothing wakes the reactor\<close>

text \<open>
  \<open>Stop\<close> sets the flag and closes the listening socket, which takes it out of the interest list; neither ends an \<open>epoll_wait\<close>
  that has no time-out. So a server without idle time-outs whose clients are silent stays in \<open>Run\<close>, whenever \<open>Stop\<close> comes.
\<close>

lemma waiting_never_ends [simp]: "thread_loop halted (run_turn turns picks n close_ok) k None = None"
  by (rule stuck_loop) (simp_all add: halted_def run_turn_def)

lemma stop_does_not_wake:
  assumes "\<not> sv_closed s" "sv_timeout_ms s \<le> 0" "sv_fault s = None" "tu_ready (turns 0) = None"
  shows "server_run turns picks n close_ok s = None"
proof -
  have "reactor_turn (turns 0) s = None"
    using assms(2-4) by (simp add: reactor_turn_def run_round_def epoll_wait_def)
  then have "thread_loop halted (run_turn turns picks n close_ok) 0 (Some (Inr s)) = thread_loop halted (run_turn turns picks n close_ok) 1 None"
    using assms(1) by (subst thread_loop.simps) (simp add: halted_def run_turn_def)
  then show ?thesis by (simp add: server_run_def)
qed

end
