(* ===== verification/Handler_Phases.thy ===== *)
theory Handler_Phases
  imports Server_Watch
begin

text \<open>
  The handlers of the pool at the granularity at which threads interleave: each runs as a sequence of phases, between which
  the reactor and the other workers do their steps. A phase is one access to the connection, the table (a critical
  section), the timer or epoll.
\<close>

section \<open>Phases\<close>

text \<open>
  A phase names what it still knows: the pointer \<open>client\<close>, the local variable \<open>fd\<close>, and the results of a call. \<open>Close_unwatch\<close> and
  \<open>Close_drop\<close> are the two halves of \<open>closeConn\<close>, which looks at the connection only before them.
\<close>

datatype phase =
    Read_check nat
  | Read_data nat int
  | Read_error nat
  | Process_check nat
  | Process_run nat
  | Rearm nat int "32 word" bool
  | Write_check nat
  | Write_data nat int
  | Extend_look nat
  | Extend_set int nat
  | Write_done nat int int int
  | Close_check nat
  | Close_unwatch int
  | Close_drop int
  | Close_erase int

text \<open>The first result is what the handler has to do next, before the rest; the last one are the bytes sent.\<close>

fun do_phase ::
  "('k, 'd) sys \<Rightarrow> (nat \<Rightarrow> nat \<Rightarrow> int + string) \<Rightarrow> (nat \<Rightarrow> string \<Rightarrow> int + nat) \<Rightarrow> phase \<Rightarrow> ('k, 'd) server
     \<Rightarrow> (phase list \<times> ('k, 'd) server \<times> string) outcome" where
  "do_phase sys rv wv (Read_check a) s = deref a s (\<lambda>c.
     and_then (check_fd_and_match_id a s) (\<lambda>ok. Inr (if ok then [Read_data a (cn_fd c)] else [], s, [])))"
| "do_phase sys rv wv (Read_data a fd) s = deref a s (\<lambda>c.
     and_then (conn_read (sv_et s) (sy_mem sys) rv 0 c) (\<lambda>(ret, err, c1).
       Inr (if ret = 0 then [Close_check a]
            else if ret < 0 then (if err = EAGAIN then [Rearm a fd EPOLLIN True, Read_error a] else [Read_error a])
            else [Process_check a],
            store_conn a c1 s, [])))"
| "do_phase sys rv wv (Read_error a) s = deref a s (\<lambda>c. Inr ([Close_check a], s, []))"
| "do_phase sys rv wv (Process_check a) s =
     and_then (check_fd_and_match_id a s) (\<lambda>ok. Inr (if ok then [Process_run a] else [], s, []))"
| "do_phase sys rv wv (Process_run a) s = deref a s (\<lambda>c.
     and_then (conn_process (sy_env sys) (c, cw_cache (sv_world s), sv_db s)) (\<lambda>(r, c1, fc, db).
       let s1 = store_conn a c1 (s\<lparr>sv_world := (sv_world s)\<lparr>cw_cache := fc\<rparr>, sv_db := db\<rparr>) in
       Inr (case r of
              NEED_MORE_DATA \<Rightarrow> [Rearm a (cn_fd c) (sv_conn_event s1 OR EPOLLIN) True]
            | OK \<Rightarrow> [Rearm a (cn_fd c) (sv_conn_event s1 OR EPOLLOUT) True]
            | RETRY_LATER \<Rightarrow> []
            | ERROR \<Rightarrow> [Close_check a], s1, [])))"
| "do_phase sys rv wv (Rearm a fd ev closing) s =
     (case mod_fd (sy_ctl sys) fd ev (sv_kernel s) of
        (ok, k) \<Rightarrow> Inr (if \<not> ok \<and> closing then [Close_check a] else [], s\<lparr>sv_kernel := k\<rparr>, []))"
| "do_phase sys rv wv (Write_check a) s = deref a s (\<lambda>c.
     and_then (check_fd_and_match_id a s) (\<lambda>ok. Inr (if ok then [Write_data a (cn_fd c)] else [], s, [])))"
| "do_phase sys rv wv (Write_data a fd) s = deref a s (\<lambda>c.
     and_then (conn_write (sv_et s) (fc_maps (cw_cache (sv_world s))) wv 0 c) (\<lambda>(r, err, c1, sent).
       Inr ([Extend_look a, Write_done a fd (to_int32 r) err], store_conn a c1 s, sent)))"
| "do_phase sys rv wv (Extend_look a) s =
     (if sv_timeout_ms s \<le> 0 then Inr ([], s, [])
      else deref a s (\<lambda>c.
        Inr (if cn_fd c \<le> 0 then []
             else case sv_users s (cn_fd c) of None \<Rightarrow> [] | Some info \<Rightarrow> [Extend_set (cn_fd c) (ci_id info)], s, [])))"
| "do_phase sys rv wv (Extend_set fd connId) s =
     and_then (schedule_with_key (sy_now sys) fd (sv_timeout_ms s) 0 (On_extend fd connId) s) (\<lambda>s1. Inr ([], s1, []))"
| "do_phase sys rv wv (Write_done a fd ret err) s = deref a s (\<lambda>c.
     Inr (if to_write_bytes c = 0 then (if request_keep_alive (cn_request c) then [Process_check a] else [Close_check a])
          else if ret < 0 then
            (if err = EAGAIN then [Rearm a fd (sv_conn_event s OR EPOLLOUT) False] else [Close_check a])
          else if 0 < to_write_bytes c then [Rearm a fd (sv_conn_event s OR EPOLLOUT) False]
          else [], s, []))"
| "do_phase sys rv wv (Close_check a) s = deref a s (\<lambda>c.
     cpp_assert (0 < cn_fd c)
       (Inr (if cn_fd c \<le> 0 \<or> MAX_FD < cn_fd c \<or> cn_id c = 0 then [Close_erase (cn_fd c)]
             else [Close_unwatch (cn_fd c), Close_drop (cn_fd c)], s, [])))"
| "do_phase sys rv wv (Close_unwatch fd) s =
     and_then (del_fd (sy_ctl sys) fd (sv_kernel s)) (\<lambda>(ok, k). Inr ([], s\<lparr>sv_kernel := k\<rparr>, []))"
| "do_phase sys rv wv (Close_drop fd) s =
     (case sv_users s fd of
        None \<Rightarrow> Inr ([], s, [])
      | Some info \<Rightarrow>
          and_then (erase_user fd (s\<lparr>sv_users := (sv_users s)(fd \<mapsto> info\<lparr>ci_active := False, ci_id := 0\<rparr>)\<rparr>))
            (\<lambda>s1. Inr ([], s1, [])))"
| "do_phase sys rv wv (Close_erase fd) s = and_then (erase_user fd s) (\<lambda>s1. Inr ([], s1, []))"

section \<open>A handler without interruption\<close>

text \<open>How many phases can still come.\<close>

fun weight :: "phase \<Rightarrow> nat" where
  "weight (Close_unwatch fd) = 1"
| "weight (Close_drop fd) = 1"
| "weight (Close_erase fd) = 1"
| "weight (Extend_set fd i) = 1"
| "weight (Extend_look a) = 2"
| "weight (Close_check a) = 3"
| "weight (Rearm a fd ev closing) = 4"
| "weight (Read_error a) = 4"
| "weight (Process_run a) = 5"
| "weight (Process_check a) = 6"
| "weight (Write_done a fd ret err) = 7"
| "weight (Read_data a fd) = 9"
| "weight (Write_data a fd) = 10"
| "weight (Read_check a) = 10"
| "weight (Write_check a) = 11"

definition weights :: "phase list \<Rightarrow> nat" where
  "weights ps = sum_list (map weight ps)"

lemma weights_simps [simp]: "weights [] = 0" "weights (p # ps) = weight p + weights ps" "weights (ps @ qs) = weights ps + weights qs"
  by (simp_all add: weights_def)

lemma do_phase_decreases: "do_phase sys rv wv p s = Inr (qs, s1, out) \<Longrightarrow> weights qs < weight p"
  by (cases p) (auto simp: Let_def split: if_splits option.splits prod.splits process_result.splits, metis process_result.exhaust)

function run_phases ::
  "('k, 'd) sys \<Rightarrow> (nat \<Rightarrow> nat \<Rightarrow> int + string) \<Rightarrow> (nat \<Rightarrow> string \<Rightarrow> int + nat) \<Rightarrow> phase list \<Rightarrow> ('k, 'd) server
     \<Rightarrow> (('k, 'd) server \<times> string) outcome" where
  "run_phases sys rv wv [] s = Inr (s, [])"
| "run_phases sys rv wv (p # ps) s =
     (case do_phase sys rv wv p s of
        Inl e \<Rightarrow> Inl e
      | Inr (qs, s1, out) \<Rightarrow>
          (case run_phases sys rv wv (qs @ ps) s1 of
             Inl e \<Rightarrow> Inl e
           | Inr (s2, rest) \<Rightarrow> Inr (s2, out @ rest)))"
  by pat_completeness auto
termination
  by (relation "measure (\<lambda>(sys, rv, wv, ps, s). weights ps)") (auto dest: do_phase_decreases)

lemma run_one:
  "run_phases sys rv wv (p # ps) s =
     and_then (do_phase sys rv wv p s) (\<lambda>(qs, s1, out).
     and_then (run_phases sys rv wv (qs @ ps) s1) (\<lambda>(s2, rest). Inr (s2, out @ rest)))"
  by (auto simp: and_then_def split: sum.splits prod.splits)

declare run_phases.simps(2) [simp del]

lemma run_append:
  "run_phases sys rv wv (ps @ qs) s =
     and_then (run_phases sys rv wv ps s) (\<lambda>(s1, out).
     and_then (run_phases sys rv wv qs s1) (\<lambda>(s2, rest). Inr (s2, out @ rest)))"
proof (induction sys rv wv ps s rule: run_phases.induct)
  case (1 sys rv wv s)
  then show ?case by (cases "run_phases sys rv wv qs s") auto
next
  case (2 sys rv wv p ps s)
  show ?case
  proof (cases "do_phase sys rv wv p s")
    case (Inl e)
    then show ?thesis by (simp add: run_one)
  next
    case (Inr r)
    obtain ps' s1 out where r: "r = (ps', s1, out)" by (cases r)
    note IH = "2.IH" [OF Inr [unfolded r] refl refl]
    from Inr r IH show ?thesis
      by (auto simp: run_one and_then_def split: sum.splits prod.splits)
  qed
qed

lemma run_two: "run_phases sys rv wv [p, q] s =
     and_then (run_phases sys rv wv [p] s) (\<lambda>(s1, out).
     and_then (run_phases sys rv wv [q] s1) (\<lambda>(s2, rest). Inr (s2, out @ rest)))"
  using run_append [of sys rv wv "[p]" "[q]" s] by simp

lemma and_then_right [simp]: "and_then m Inr = m" "and_then m (\<lambda>(s, t). Inr (s, t)) = m"
  by (cases m; auto)+

text \<open>A phase or sequence that does the same as a function of the server and sends nothing.\<close>

abbreviation quiet :: "('k, 'd) server outcome \<Rightarrow> (('k, 'd) server \<times> string) outcome" where
  "quiet m \<equiv> and_then m (\<lambda>s. Inr (s, []))"

lemma run_close: "run_phases sys rv wv [Close_check a] s = quiet (close_conn sys a s)"
  by (auto simp: run_one close_conn_def deref_def cpp_assert_def and_then_def Let_def split: option.splits sum.splits prod.splits)

lemma run_rearm: "run_phases sys rv wv [Rearm a fd ev closing] s = quiet (rearm sys a fd ev closing s)"
  by (auto simp: run_one [of _ _ _ "Rearm a fd ev closing"] rearm_def run_close Let_def split: prod.splits)

lemma run_process_run:
  "run_phases sys rv wv [Process_run a] s = quiet (deref a s (\<lambda>c.
     and_then (conn_process (sy_env sys) (c, cw_cache (sv_world s), sv_db s)) (\<lambda>(r, c1, fc, db).
       let s1 = store_conn a c1 (s\<lparr>sv_world := (sv_world s)\<lparr>cw_cache := fc\<rparr>, sv_db := db\<rparr>) in
       case r of
         NEED_MORE_DATA \<Rightarrow> rearm sys a (cn_fd c) (sv_conn_event s1 OR EPOLLIN) True s1
       | OK \<Rightarrow> rearm sys a (cn_fd c) (sv_conn_event s1 OR EPOLLOUT) True s1
       | RETRY_LATER \<Rightarrow> Inr s1
       | ERROR \<Rightarrow> close_conn sys a s1)))"
proof (cases "sv_conns s a")
  case None
  then show ?thesis by (simp add: run_one deref_def)
next
  case (Some c)
  show ?thesis
  proof (cases "conn_process (sy_env sys) (c, cw_cache (sv_world s), sv_db s)")
    case (Inl e)
    with Some show ?thesis by (simp add: run_one deref_def)
  next
    case (Inr r)
    then obtain pr c1 fc db where r: "r = (pr, c1, fc, db)" by (cases r)
    from Some Inr r show ?thesis
      by (cases pr) (simp_all add: run_one [of _ _ _ "Process_run a"] deref_def Let_def run_rearm run_close)
  qed
qed

lemma run_process: "run_phases sys rv wv [Process_check a] s = quiet (on_process sys a s)"
proof (cases "check_fd_and_match_id a s")
  case (Inl e)
  then show ?thesis by (simp add: run_one on_process_def)
next
  case (Inr ok)
  then show ?thesis
    by (simp add: run_one [of _ _ _ "Process_check a"] run_process_run on_process_def Let_def)
qed

lemma run_read_error: "run_phases sys rv wv [Read_error a] s = quiet (handle_read_error sys a s)"
  by (cases "sv_conns s a") (simp_all add: run_one [of _ _ _ "Read_error a"] handle_read_error_def deref_def run_close)

lemma run_read: "run_phases sys rv wv [Read_check a] s = quiet (on_read sys rv a s)"
proof (cases "sv_conns s a")
  case None
  then show ?thesis by (simp add: run_one on_read_def deref_def)
next
  case (Some c)
  show ?thesis
  proof (cases "check_fd_and_match_id a s")
    case (Inl e)
    with Some show ?thesis by (simp add: run_one on_read_def deref_def)
  next
    case (Inr ok)
    show ?thesis
    proof (cases "ok \<longrightarrow> (\<exists>e. conn_read (sv_et s) (sy_mem sys) rv 0 c = Inl e)")
      case True
      with Some Inr show ?thesis
        by (cases ok) (auto simp: run_one [of _ _ _ "Read_check a"] run_one [of _ _ _ "Read_data a fd" for fd] on_read_def deref_def)
    next
      case False
      then obtain ret err c1 where rd: "conn_read (sv_et s) (sy_mem sys) rv 0 c = Inr (ret, err, c1)" "ok"
        by (cases "conn_read (sv_et s) (sy_mem sys) rv 0 c") auto
      with Some Inr show ?thesis
        by (simp add: run_one [of _ _ _ "Read_check a"] run_one [of _ _ _ "Read_data a fd" for fd] on_read_def deref_def Let_def
            run_two run_close run_rearm run_read_error run_process and_then_assoc)
    qed
  qed
qed

lemma run_extend: "run_phases sys rv wv [Extend_look a] s = quiet (extent_time sys a s)"
  by (cases "sv_conns s a")
    (auto simp: run_one [of _ _ _ "Extend_look a"] run_one [of _ _ _ "Extend_set fd i" for fd i] extent_time_def deref_def Let_def
      and_then_assoc split: option.split)

lemma extent_time_conns: "extent_time sys a s = Inr s' \<Longrightarrow> sv_conns s' = sv_conns s"
  by (auto simp: extent_time_def Let_def dest!: schedule_with_key_more server_fields(9) split: if_splits option.splits)

lemma run_write_done:
  assumes "sv_conns s a = Some c"
  shows "run_phases sys rv wv [Write_done a fd ret err] s = quiet
    (if to_write_bytes c = 0 then (if request_keep_alive (cn_request c) then on_process sys a s else close_conn sys a s)
     else if ret < 0 then
       (if err = EAGAIN then rearm sys a fd (sv_conn_event s OR EPOLLOUT) False s else close_conn sys a s)
     else if 0 < to_write_bytes c then rearm sys a fd (sv_conn_event s OR EPOLLOUT) False s
     else Inr s)"
  using assms by (simp add: run_one [of _ _ _ "Write_done a fd ret err"] deref_def run_process run_close run_rearm)

lemma run_write: "run_phases sys rv wv [Write_check a] s = on_write sys wv a s"
proof (cases "sv_conns s a")
  case None
  then show ?thesis by (simp add: run_one on_write_def deref_def)
next
  case (Some c)
  let ?call = "conn_write (sv_et s) (fc_maps (cw_cache (sv_world s))) wv 0 c"
  show ?thesis
  proof (cases "check_fd_and_match_id a s")
    case (Inl e)
    with Some show ?thesis by (simp add: run_one on_write_def deref_def)
  next
    case (Inr ok)
    show ?thesis
    proof (cases "ok \<longrightarrow> (\<exists>e. ?call = Inl e)")
      case True
      with Some Inr show ?thesis
        by (cases ok) (auto simp: run_one [of _ _ _ "Write_check a"] run_one [of _ _ _ "Write_data a fd" for fd] on_write_def deref_def)
    next
      case False
      then obtain r err c1 sent where wr: "?call = Inr (r, err, c1, sent)" "ok" by (cases ?call) auto
      have first: "run_phases sys rv wv [Write_check a] s =
          and_then (run_phases sys rv wv [Extend_look a, Write_done a (cn_fd c) (to_int32 r) err] (store_conn a c1 s))
            (\<lambda>(s2, rest). Inr (s2, sent @ rest))"
        using wr Some Inr
        by (simp add: run_one [of _ _ _ "Write_check a"] run_one [of _ _ _ "Write_data a fd" for fd] deref_def)
      show ?thesis
      proof (cases "extent_time sys a (store_conn a c1 s)")
        case (Inl e)
        then show ?thesis unfolding first using wr Some Inr
          by (simp add: run_two run_extend on_write_def deref_def Let_def)
      next
        case x: (Inr s1)
        from extent_time_conns [OF x] have c1: "sv_conns s1 a = Some c1" by (simp add: store_conn_def)
        show ?thesis unfolding first using wr Some Inr x
          by (simp add: run_two run_extend run_write_done [OF c1] on_write_def deref_def Let_def and_then_assoc)
      qed
    qed
  qed
qed

text \<open>
  The phases are the handlers. Run without interruption, the phases of a read task do what \<open>onRead\<close> does in one go, those of a
  write task what \<open>onWrite\<close> does, with the same bytes sent and the same fault where there is one, and those of a
  closing what \<open>closeConn\<close> does, from every state of the server.
\<close>

lemma phases_are_handlers:
  "run_phases sys rv wv [Read_check a] s = and_then (on_read sys rv a s) (\<lambda>s1. Inr (s1, []))
   \<and> run_phases sys rv wv [Write_check a] s = on_write sys wv a s
   \<and> run_phases sys rv wv [Process_check a] s = and_then (on_process sys a s) (\<lambda>s1. Inr (s1, []))
   \<and> run_phases sys rv wv [Close_check a] s = and_then (close_conn sys a s) (\<lambda>s1. Inr (s1, []))"
  by (intro conjI run_read run_write run_process run_close)

end
