(* ===== verification/Handler_Interleaving.thy ===== *)
theory Handler_Interleaving
  imports Handler_Phases
begin

text \<open>
  The server with its handlers interleaved: what is still consistent, and what a handler that was overtaken does to a client that
  came later.
\<close>

section \<open>Steps\<close>

text \<open>
  A running task is the list of the phases it has still to do; a worker takes the front of the queue when it has none left. A
  round of the reactor is one step.
\<close>

fun first_phase :: "sv_task \<Rightarrow> phase option" where
  "first_phase (Read_task a) = Some (Read_check a)"
| "first_phase (Write_task a) = Some (Write_check a)"
| "first_phase (Close_task fd p) = None"

definition busy :: "phase list list \<Rightarrow> nat" where
  "busy hs = length (filter (\<lambda>h. h \<noteq> []) hs)"

definition without_front :: "('k, 'd) server \<Rightarrow> ('k, 'd) server" where
  "without_front s = s\<lparr>sv_pool := (sv_pool s)\<lparr>tp_tasks := tl (tp_tasks (sv_pool s))\<rparr>\<rparr>"

inductive phase_step ::
  "('k, 'd) server \<times> phase list list \<Rightarrow> ('k, 'd) server \<times> phase list list \<Rightarrow> bool" where
  round_comes: "ids_left answer fds s \<Longrightarrow> run_round sys clock now' answer fds s = Inr (ms, s') \<Longrightarrow> phase_step (s, hs) (s', hs)"
| task_taken: "tp_tasks (sv_pool s) = t # ts \<Longrightarrow> first_phase t = Some p \<Longrightarrow> busy hs < length (tp_workers (sv_pool s)) \<Longrightarrow>
    phase_step (s, hs) (without_front s, hs @ [[p]])"
| phase_done: "i < length hs \<Longrightarrow> hs ! i = p # ps \<Longrightarrow> do_phase sys rv wv p s = Inr (qs, s', out) \<Longrightarrow>
    phase_step (s, hs) (s', hs[i := qs @ ps])"

lemma first_does:
  assumes "do_phase sys rv wv p s = Inr (qs, s', out)"
  shows "phase_step (s, (p # ps) # hs) (s', (qs @ ps) # hs)"
  using phase_done [OF _ _ assms, of 0 "(p # ps) # hs" ps] by simp

lemma second_does:
  assumes "do_phase sys rv wv p s = Inr (qs, s', out)"
  shows "phase_step (s, h # (p # ps) # hs) (s', h # (qs @ ps) # hs)"
  using phase_done [OF _ _ assms, of 1 "h # (p # ps) # hs" ps] by simp

section \<open>What every interleaving keeps\<close>

lemma do_phase_inv:
  assumes "do_phase sys rv wv p s = Inr (qs, s', out)" "server_inv s"
  shows "server_inv s'"
proof (cases p)
  case (Read_data a fd)
  with assms show ?thesis by (auto intro: store_same_inv read_loop_same simp: conn_read_def)
next
  case (Process_run a)
  with assms obtain c r c1 fc db where "sv_conns s a = Some c" "conn_process (sy_env sys) (c, cw_cache (sv_world s), sv_db s) = Inr (r, c1, fc, db)"
    "s' = store_conn a c1 (s\<lparr>sv_world := (sv_world s)\<lparr>cw_cache := fc\<rparr>, sv_db := db\<rparr>)" by (auto simp: Let_def)
  moreover have "server_inv (s\<lparr>sv_world := (sv_world s)\<lparr>cw_cache := fc\<rparr>, sv_db := db\<rparr>)"
    using assms(2) by (simp add: server_inv_def)
  ultimately show ?thesis by (auto intro: store_same_inv conn_process_same)
next
  case (Write_data a fd)
  with assms show ?thesis by (auto intro: store_same_inv conn_write_same)
next
  case (Extend_set fd i)
  with assms show ?thesis by (auto dest!: schedule_with_key_more server_inv_more)
next
  case (Close_drop fd)
  with assms show ?thesis
    by (auto simp: erase_user_marked dest: erase_user_cases split: option.splits)
next
  case (Close_erase fd)
  with assms show ?thesis by (auto dest: erase_user_cases)
qed (use assms in \<open>auto split: prod.splits if_splits option.splits\<close>)

lemma phase_step_inv:
  assumes "phase_step (s, hs) (s', hs')" "server_inv s"
  shows "server_inv s'"
  using assms(1)
proof cases
  case (round_comes answer fds sys clock now' ms)
  then show ?thesis using table_reactor.run_round_keeps assms(2) by blast
next
  case (task_taken t ts p)
  then show ?thesis using assms(2) by (simp add: without_front_def)
next
  case (phase_done i p ps sys rv wv qs out)
  then show ?thesis using do_phase_inv assms(2) by blast
qed

lemma phase_steps_inv: "phase_step\<^sup>*\<^sup>* (s, hs) (s', hs') \<Longrightarrow> server_inv s \<Longrightarrow> server_inv s'"
  by (induction rule: rtranclp_induct2) (auto intro: phase_step_inv)

text \<open>The same handler again and again is the handler in one go.\<close>

lemma phases_in_steps:
  assumes "run_phases sys rv wv ps s = Inr (s', out)" "i < length hs" "hs ! i = ps"
  shows "phase_step\<^sup>*\<^sup>* (s, hs) (s', hs[i := []])"
  using assms
proof (induction sys rv wv ps s arbitrary: hs s' out rule: run_phases.induct)
  case (1 sys rv wv s)
  then show ?case using list_update_id [of hs i] by simp
next
  case (2 sys rv wv p ps s)
  from "2.prems"(1) obtain qs s1 o1 o2 where d: "do_phase sys rv wv p s = Inr (qs, s1, o1)"
    and r: "run_phases sys rv wv (qs @ ps) s1 = Inr (s', o2)" by (auto simp: run_one)
  from phase_done [OF "2.prems"(2,3) d] have "phase_step (s, hs) (s1, hs[i := qs @ ps])" .
  also have "phase_step\<^sup>*\<^sup>* (s1, hs[i := qs @ ps]) (s', hs[i := qs @ ps, i := []])"
    by (rule "2.IH" [OF d refl refl r]) (simp_all add: "2.prems"(2))
  finally (converse_rtranclp_into_rtranclp) show ?case by simp
qed

text \<open>
  C2: The table of connections is consistent in every interleaving. Whatever clients connect, whatever events arrive and however
  the phases of the handlers on the worker threads and the rounds of the reactor alternate, as long as no fault ends the
  program, every entry with a connection refers to an open object with the descriptor and id of the entry, every
  connection object is in the table (none leaks), ids are unique, and \<open>userCount\<close> is the number of connections.
\<close>

theorem table_consistent_interleaved:
  assumes "new_server sys su port trig timeout linger n m k db lg = Inr (s0, lg', dir)" "phase_step\<^sup>*\<^sup>* (s0, []) (s, hs)"
  shows "(\<forall>fd info a. sv_users s fd = Some info \<and> ci_conn info = Some a \<longrightarrow>
            (\<exists>c. sv_conns s a = Some c \<and> cn_fd c = fd \<and> cn_id c = ci_id info \<and> 0 < ci_id info \<and> \<not> cn_closed c))
     \<and> (\<forall>a c. sv_conns s a = Some c \<longrightarrow> (\<exists>info. sv_users s (cn_fd c) = Some info \<and> ci_conn info = Some a))
     \<and> (\<forall>a a' c c'. sv_conns s a = Some c \<and> sv_conns s a' = Some c' \<and> cn_id c = cn_id c' \<longrightarrow> a = a')
     \<and> cw_users (sv_world s) = int (card (dom (sv_conns s)))"
  by (rule server_inv_consistent [OF phase_steps_inv [OF assms(2) new_server_inv [OF assms(1)]]])

lemma demo_hears:
  "\<exists>s. run_round demo_sys (\<lambda>p. 0) 0 (\<lambda>k. Inr [(7, EPOLLIN)]) [] demo_busy = Inr (-1, s) \<and> client_conn s 0 demo_conn
     \<and> tp_tasks (sv_pool s) = [Read_task 0] \<and> tp_workers (sv_pool s) = [Ready]"
proof -
  have h: "handle_event demo_sys [] (cn_fd demo_conn, EPOLLIN) s = Inr (queue_task (Read_task 0) s)"
    if "client_conn s 0 demo_conn" "sv_timeout_ms s = 0" for s :: "(int \<rightharpoonup> 32 word, unit) server"
    unfolding client_event(2) [OF that(1)] using that
    by (auto simp: deal_read_def deref_def extent_time_def elim!: client_connE)
  let ?s = "demo_busy\<lparr>sv_epoller := snd (epoll_wait (\<lambda>k. Inr [(7, EPOLLIN)]) (sv_epoller demo_busy))\<rparr>"
  have c: "client_conn ?s 0 demo_conn" using demo_client by (simp add: client_conn_def)
  have "run_round demo_sys (\<lambda>p. 0) 0 (\<lambda>k. Inr [(7, EPOLLIN)]) [] demo_busy = Inr (-1, queue_task (Read_task 0) ?s)"
    using h [OF c] by (simp add: run_round_def epoll_wait_def demo_busy_def)
  moreover have "tp_tasks (sv_pool (queue_task (Read_task 0) ?s)) = [Read_task 0]" "tp_workers (sv_pool (queue_task (Read_task 0) ?s)) = [Ready]"
    by (simp_all add: queue_task_def add_task_def demo_busy_def demo_server_def blank_server_def timer_manager.extend_def)
  ultimately show ?thesis using c by auto
qed

theorem table_consistent_interleaved_witness:
  "\<exists>lg dir s. new_server demo_sys demo_setup 1316 3 0 False 1 1 Map.empty (no_db, ()) initial_logger = Inr (demo_server, lg, dir)
     \<and> phase_step\<^sup>*\<^sup>* (demo_server, []) (s, [[Read_data 0 7]]) \<and> sv_conns s 0 = Some demo_conn
     \<and> (\<exists>info. sv_users s 7 = Some info \<and> ci_conn info = Some 0) \<and> cw_users (sv_world s) = int (card (dom (sv_conns s)))"
proof -
  obtain lg dir where boot: "new_server demo_sys demo_setup 1316 3 0 False 1 1 Map.empty (no_db, ()) initial_logger
      = Inr (demo_server, lg, dir)" using demo_boot by blast
  obtain s where s: "run_round demo_sys (\<lambda>p. 0) 0 (\<lambda>k. Inr [(7, EPOLLIN)]) [] demo_busy = Inr (-1, s)" "client_conn s 0 demo_conn"
    "tp_tasks (sv_pool s) = [Read_task 0]" "tp_workers (sv_pool s) = [Ready]" using demo_hears by blast
  have c: "sv_conns s 0 = Some demo_conn" "cn_fd demo_conn = 7" using s(2) by (simp_all add: client_conn_def)
  have "phase_step\<^sup>*\<^sup>* (demo_server, []) (demo_busy, [])"
    by (rule r_into_rtranclp, rule round_comes [OF _ demo_accept]) (simp add: ids_left_def size_lim_def)
  also have "phase_step (demo_busy, []) (s, [])"
    by (rule round_comes [OF _ s(1)]) (simp add: ids_left_def size_lim_def demo_busy_def)
  also have "phase_step (s, []) (without_front s, [] @ [[Read_check 0]])"
    by (rule task_taken [OF s(3)]) (simp_all add: busy_def s(4))
  also have "phase_step (without_front s, [] @ [[Read_check 0]]) (without_front s, [[Read_data 0 7]])"
  proof -
    have "do_phase demo_sys (\<lambda>k cap. Inr []) (\<lambda>k t. Inl EAGAIN) (Read_check 0) (without_front s) = Inr ([Read_data 0 7], without_front s, [])"
      using s(2) c by (auto elim!: client_connE simp: without_front_def check_fd_and_match_id_def deref_def)
    from first_does [OF this, of "[]" "[]"] show ?thesis by simp
  qed
  finally have steps: "phase_step\<^sup>*\<^sup>* (demo_server, []) (without_front s, [[Read_data 0 7]])" by simp
  have c': "sv_conns (without_front s) 0 = Some demo_conn" using c by (simp add: without_front_def)
  from table_consistent_interleaved [OF boot steps] c' c(2) boot steps show ?thesis by fastforce
qed

section \<open>A handler that was overtaken\<close>

lemma drop_phase:
  assumes "server_inv s" "sv_users s fd = Some info" "ci_conn info = Some b"
  shows "\<exists>s'. do_phase sys rv wv (Close_drop fd) s = Inr ([], s', []) \<and> server_inv s'
     \<and> sv_users s' = (sv_users s)(fd := None) \<and> sv_conns s' = (sv_conns s)(b := None)
     \<and> cw_users (sv_world s') = cw_users (sv_world s) - 1 \<and> cw_closed (sv_world s') = fd # cw_closed (sv_world s)"
proof -
  from table_invD(1) [OF assms(1) [unfolded server_inv_def] assms(2,3)] obtain c where
    "sv_conns s b = Some c" "cn_fd c = fd" "0 < fd" by (auto simp: live_def)
  with conn_destroy_total [of c "sv_world s"] assms(2,3) obtain s' where e: "erase_user fd s = Inr s'"
    by (auto simp: erase_user_def deref_def)
  with erase_user_cases [OF assms(1) e] assms(2,3) show ?thesis by (simp add: erase_user_marked)
qed

lemma close_phases:
  assumes "server_inv s" "sv_users s fd = Some info" "ci_conn info = Some b" "0 \<le> fd"
  shows "\<exists>s'. run_phases sys rv wv [Close_unwatch fd, Close_drop fd] s = Inr (s', []) \<and> server_inv s'
     \<and> sv_users s' = (sv_users s)(fd := None) \<and> sv_conns s' = (sv_conns s)(b := None)
     \<and> cw_users (sv_world s') = cw_users (sv_world s) - 1 \<and> cw_closed (sv_world s') = fd # cw_closed (sv_world s)"
proof -
  obtain ok k where k: "sy_ctl sys CTL_DEL fd 0 (sv_kernel s) = (ok, k)" by fastforce
  have "server_inv (s\<lparr>sv_kernel := k\<rparr>)" using assms(1) by simp
  from drop_phase [OF this, of fd info b sys rv wv] assms(2-4) k show ?thesis
    by (auto simp: run_one [of _ _ _ "Close_unwatch fd"] run_one [of _ _ _ "Close_drop fd"] del_fd_ok)
qed

text \<open>The two read tasks of one connection, both at the end of the stream, up to the point where both are about to close.\<close>

definition closing :: "int \<Rightarrow> phase list" where
  "closing fd = [Close_unwatch fd, Close_drop fd]"

lemma both_about_to_close:
  fixes s :: "('k, 'd) server" and sys :: "('k, 'd) sys"
  assumes "client_conn s a c" "tp_tasks (sv_pool s) = [Read_task a, Read_task a]" "2 \<le> length (tp_workers (sv_pool s))"
    and "conn_read (sv_et s) (sy_mem sys) rv 0 c = Inr (0, err, c1)" "conn_read (sv_et s) (sy_mem sys) rv 0 c1 = Inr (0, err', c2)"
  shows "phase_step\<^sup>*\<^sup>* (s, []) (store_conn a c2 (without_front (without_front s)), [closing (cn_fd c), closing (cn_fd c)])"
proof -
  let ?s0 = "without_front (without_front s)" and ?R = "Read_check a" and ?D = "Read_data a (cn_fd c)"
  let ?s1 = "store_conn a c1 ?s0" and ?s2 = "store_conn a c2 ?s0"
  have same: "same_conn c c1" "same_conn c1 c2" using assms(4,5) read_loop_same by (auto simp: conn_read_def)
  have c0: "sv_conns ?s0 a = Some c" "check_fd_and_match_id a ?s0 = Inr True"
    using assms(1) by (auto elim!: client_connE simp: without_front_def check_fd_and_match_id_def deref_def)
  have takes: "phase_step\<^sup>*\<^sup>* (s, []) (?s0, [[?R], [?R]])"
  proof (rule converse_rtranclp_into_rtranclp [OF _ r_into_rtranclp])
    show "phase_step (s, []) (without_front s, [] @ [[?R]])" using assms(2,3) by (intro task_taken) (auto simp: busy_def)
    have "phase_step (without_front s, [[?R]]) (?s0, [[?R]] @ [[?R]])"
      using assms(2,3) by (intro task_taken [of _ "Read_task a" "[]"]) (auto simp: busy_def without_front_def)
    then show "phase_step (without_front s, [] @ [[?R]]) (?s0, [[?R], [?R]])" by simp
  qed
  let ?C = "Close_check a" and ?fd = "cn_fd c"
  have check: "do_phase sys rv wv ?R ?s0 = Inr ([?D], ?s0, [])" using c0 by (simp add: deref_def)
  have et: "sv_et ?s0 = sv_et s" "sv_et ?s1 = sv_et s" by (simp_all add: without_front_def store_conn_def)
  have read1: "do_phase sys rv wv ?D ?s0 = Inr ([?C], ?s1, [])" using c0 et assms(4) by (simp add: deref_def)
  have "sv_conns ?s1 a = Some c1" "store_conn a c2 ?s1 = ?s2" by (simp_all add: store_conn_def)
  then have read2: "do_phase sys rv wv ?D ?s1 = Inr ([?C], ?s2, [])" using et assms(5) by (simp add: deref_def)
  have "sv_conns ?s2 a = Some c2" "cn_fd c2 = ?fd" "cn_id c2 = cn_id c" using same by (simp_all add: store_conn_def same_conn_def)
  moreover have "0 < ?fd" "?fd \<le> MAX_FD" "0 < cn_id c" using assms(1) by (auto elim!: client_connE)
  ultimately have close: "do_phase sys rv wv ?C ?s2 = Inr (closing ?fd, ?s2, [])" by (simp add: deref_def closing_def)
  note takes
  also have "phase_step (?s0, [[?R], [?R]]) (?s0, [[?D], [?R]])" using first_does [OF check, of "[]"] by simp
  also have "phase_step (?s0, [[?D], [?R]]) (?s0, [[?D], [?D]])" using second_does [OF check, of _ "[]"] by simp
  also have "phase_step (?s0, [[?D], [?D]]) (?s1, [[?C], [?D]])" using first_does [OF read1, of "[]"] by simp
  also have "phase_step (?s1, [[?C], [?D]]) (?s2, [[?C], [?C]])" using second_does [OF read2, of _ "[]"] by simp
  also have "phase_step (?s2, [[?C], [?C]]) (?s2, [closing ?fd, [?C]])" using first_does [OF close, of "[]"] by simp
  also have "phase_step (?s2, [closing ?fd, [?C]]) (?s2, [closing ?fd, closing ?fd])" using second_does [OF close, of _ "[]"] by simp
  finally show ?thesis .
qed

text \<open>
  C31: A handler that was overtaken closes the connection of somebody else. \<open>closeConn\<close> looks at the connection first and
  erases the entry of its descriptor later, without looking at the id again. Let two read tasks of one client reach
  the end of the stream on two workers. Both are about to close; the first one does, which closes the descriptor (\<open>s1\<close>), and the
  reactor accepts a new client, to which the kernel gives the same number (\<open>s2\<close>). Then the second worker goes on: it
  destroys the new client's connection and closes its descriptor, although nothing was wrong with it.
\<close>

theorem overtaken_close_hits_new_client:
  fixes s :: "('k, 'd) server" and sys sys1 :: "('k, 'd) sys"
  assumes "client_conn s a c" "tp_tasks (sv_pool s) = [Read_task a, Read_task a]" "2 \<le> length (tp_workers (sv_pool s))"
    and "conn_read (sv_et s) (sy_mem sys) rv 0 c = Inr (0, err, c1)" "conn_read (sv_et s) (sy_mem sys) rv 0 c1 = Inr (0, err', c2)"
    and "run_phases sys rv wv [Close_unwatch (cn_fd c), Close_drop (cn_fd c)] (store_conn a c2 (without_front (without_front s))) = Inr (s1, [])"
    and "ids_left answer fds s1" "run_round sys1 clock now' answer fds s1 = Inr (ms, s2)"
    and "sv_users s2 (cn_fd c) = Some info" "ci_conn info = Some b"
  shows "phase_step\<^sup>*\<^sup>* (s, []) (s1, [[], [Close_unwatch (cn_fd c), Close_drop (cn_fd c)]])
     \<and> sv_conns s1 a = None \<and> sv_users s1 (cn_fd c) = None
     \<and> sv_conns s2 b \<noteq> None \<and> ci_id info \<noteq> 0
     \<and> (\<exists>s3. phase_step\<^sup>*\<^sup>* (s, []) (s3, [[], []]) \<and> sv_conns s3 = (sv_conns s2)(b := None)
          \<and> sv_users s3 = (sv_users s2)(cn_fd c := None) \<and> cw_closed (sv_world s3) = cn_fd c # cw_closed (sv_world s2))"
proof -
  let ?fd = "cn_fd c" and ?s = "store_conn a c2 (without_front (without_front s))"
  obtain info0 where u: "sv_users s ?fd = Some info0" "ci_conn info0 = Some a" "0 < ?fd" using assms(1) by (auto elim!: client_connE)
  note both = both_about_to_close [OF assms(1-5)]
  have inv: "server_inv ?s" using phase_steps_inv [OF both] assms(1) by (simp add: client_conn_def)
  have "sv_users ?s ?fd = Some info0" using u(1) by (simp add: store_conn_def without_front_def)
  from close_phases [OF inv this u(2), of sys rv wv] u(3) assms(6) have s1: "server_inv s1"
    "sv_users s1 ?fd = None" "sv_conns s1 a = None" by auto
  from phases_in_steps [OF assms(6), of 0 "[closing ?fd, closing ?fd]"] both
  have reach1: "phase_step\<^sup>*\<^sup>* (s, []) (s1, [[], closing ?fd])" by (simp add: closing_def)
  have st: "phase_step (s1, [[], closing ?fd]) (s2, [[], closing ?fd])" by (rule round_comes [OF assms(7,8)])
  note inv2 = phase_step_inv [OF st s1(1)]
  from close_phases [OF inv2 assms(9,10), of sys rv wv] u(3) obtain s3 where
    r3: "run_phases sys rv wv [Close_unwatch ?fd, Close_drop ?fd] s2 = Inr (s3, [])"
    and s3: "sv_users s3 = (sv_users s2)(?fd := None)" "sv_conns s3 = (sv_conns s2)(b := None)"
      "cw_closed (sv_world s3) = ?fd # cw_closed (sv_world s2)" by auto
  note reach1
  also note st
  also have "phase_step\<^sup>*\<^sup>* (s2, [[], closing ?fd]) (s3, [[], []])"
    using phases_in_steps [OF r3, of 1 "[[], closing ?fd]"] by (simp add: closing_def)
  finally have "phase_step\<^sup>*\<^sup>* (s, []) (s3, [[], []])" .
  moreover have "sv_conns s2 b \<noteq> None \<and> ci_id info \<noteq> 0"
    using table_invD(1) [OF inv2 [unfolded server_inv_def] assms(9,10)] assms(9) by (auto simp: live_def)
  ultimately show ?thesis using reach1 [unfolded closing_def] s1(2,3) s3 by blast
qed

definition demo_pair :: "(int \<rightharpoonup> 32 word, unit) server" where
  "demo_pair = demo_busy\<lparr>sv_pool := \<lparr>tp_workers = [Ready, Ready], tp_joinable = 2, tp_closed = False,
     tp_tasks = [Read_task 0, Read_task 0], tp_active = 0\<rparr>\<rparr>"

lemma demo_end_of_stream:
  "conn_read True 1000000 (\<lambda>k cap. Inr []) 0 demo_conn = Inr (0, ECONNRESET, demo_conn)"
proof -
  have "\<not> writable_bytes (cn_read demo_conn) < 1024"
    by (simp add: demo_conn_def writable_bytes_def INIT_BUFFER_SIZE_def sz_sub_def size_lim_def)
  then have "read_fd 1000000 (\<lambda>cap. Inr []) 0 (cn_read demo_conn) = Inr (0, 0, cn_read demo_conn)"
    by (simp add: read_fd_def read_fd_tail_def Let_def scatter_def)
  then show ?thesis by (simp add: conn_read_def read_loop.simps [of True 1000000 _ 0 0 0 demo_conn] Let_def)
qed

text \<open>The example after the first worker has closed the connection.\<close>

definition demo_left :: "(int \<rightharpoonup> 32 word, unit) server" where
  "demo_left = demo_pair\<lparr>sv_conns := Map.empty, sv_users := Map.empty,
     sv_world := \<lparr>cw_users = 0, cw_closed = [7], cw_cache = new_cache\<rparr>, sv_kernel := [3 \<mapsto> EPOLLIN OR EPOLLET],
     sv_pool := (sv_pool demo_pair)\<lparr>tp_tasks := []\<rparr>\<rparr>"

lemma demo_first_closes:
  "run_phases demo_sys rv wv [Close_unwatch 7, Close_drop 7] (store_conn 0 demo_conn (without_front (without_front demo_pair)))
     = Inr (demo_left, [])"
  by (simp add: run_one run_phases.simps(1) del_fd_def erase_user_def deref_def demo_pair_def demo_busy_def demo_left_def store_conn_def
      without_front_def conn_destroy_def conn_close_def conn_unmap_def unmap_file_def demo_conn_def new_response_def Let_def fun_upd_idem)

lemma demo_accepts_again:
  "\<exists>s2. run_round demo_sys (\<lambda>p. 0) 0 (\<lambda>k. Inr [(3, EPOLLIN)]) [(7, (0, 0))] demo_left = Inr (-1, s2)
     \<and> sv_users s2 7 = Some \<lparr>ci_conn = Some 1, ci_id = 2, ci_active = True\<rparr>"
proof -
  obtain c0 where c: "new_conn 1000000 = Inr c0" using demo_new_conn by blast
  have ev: "EPOLLIN AND (EPOLLRDHUP OR EPOLLHUP OR EPOLLERR) = 0" "EPOLLIN AND EPOLLIN \<noteq> 0"
    "(EPOLLRDHUP OR EPOLLET) AND EPOLLET \<noteq> 0"
    by (simp_all add: epoll_flags)
  show ?thesis
    using c ev
    by (simp add: run_round_def epoll_wait_def handle_event_def MAX_FD_def deal_listen_def check_server_not_full_def
        add_client_def make_client_def conn_init_def sz_add_def size_lim_def set_fd_non_block_def add_fd_def Let_def default_info_def
        demo_left_def demo_pair_def demo_busy_def set_conn_id_def N_MAX_EVENT_def)
qed

theorem overtaken_close_hits_new_client_witness:
  "\<exists>s2 s3. run_round demo_sys (\<lambda>p. 0) 0 (\<lambda>k. Inr [(3, EPOLLIN)]) [(7, (0, 0))] demo_left = Inr (-1, s2)
     \<and> sv_users s2 7 = Some \<lparr>ci_conn = Some 1, ci_id = 2, ci_active = True\<rparr> \<and> sv_conns s2 1 \<noteq> None
     \<and> phase_step\<^sup>*\<^sup>* (demo_pair, []) (s3, [[], []]) \<and> sv_conns s3 1 = None \<and> sv_users s3 7 = None"
proof -
  obtain s2 where s2: "run_round demo_sys (\<lambda>p. 0) 0 (\<lambda>k. Inr [(3, EPOLLIN)]) [(7, (0, 0))] demo_left = Inr (-1, s2)"
    "sv_users s2 7 = Some \<lparr>ci_conn = Some 1, ci_id = 2, ci_active = True\<rparr>" using demo_accepts_again by blast
  have c: "client_conn demo_pair 0 demo_conn" "cn_fd demo_conn = 7"
    using demo_client by (simp_all add: client_conn_def demo_pair_def)
  have q: "tp_tasks (sv_pool demo_pair) = [Read_task 0, Read_task 0]" "2 \<le> length (tp_workers (sv_pool demo_pair))"
    by (simp_all add: demo_pair_def)
  have rd: "conn_read (sv_et demo_pair) (sy_mem demo_sys) (\<lambda>k cap. Inr []) 0 demo_conn = Inr (0, ECONNRESET, demo_conn)"
    using demo_end_of_stream by (simp add: demo_pair_def demo_busy_def)
  have ids: "ids_left (\<lambda>k. Inr [(3, EPOLLIN)]) [(7, (0, 0))] demo_left"
    by (simp add: ids_left_def demo_left_def demo_pair_def demo_busy_def size_lim_def)
  from overtaken_close_hits_new_client [OF c(1) q rd rd demo_first_closes [folded c(2)] ids s2(1), unfolded c(2), OF s2(2)] s2
  show ?thesis by auto
qed

end
