(* ===== verification/Request_Service.thy ===== *)
theory Request_Service
  imports Server_Behaviour
begin

text \<open>
  A whole request at the level of the server: what \<open>onRead\<close>, \<open>onProcess\<close> and the rounds of \<open>onWrite\<close> do together, up
  to the end of the connection or its return to reading.
\<close>

section \<open>One round of \<open>onWrite\<close>\<close>

text \<open>A peer that takes something at every first try, and no worse error than \<open>EAGAIN\<close>.\<close>

definition writev_steady :: "(nat \<Rightarrow> string \<Rightarrow> int + nat) \<Rightarrow> bool" where
  "writev_steady wv \<longleftrightarrow> writev_contract wv \<and> writev_progress wv \<and> (\<forall>k s e. wv k s = Inl e \<longrightarrow> e = EAGAIN)"

lemma write_loop_no_error:
  assumes "\<forall>k s e. wv k s = Inl e \<longrightarrow> e = EAGAIN" "0 \<le> totalLen"
    and "write_loop et maps wv k left totalLen e c = Inr (r, e', c1, t)"
  shows "0 \<le> r"
  using assms(2,3)
proof (induction left arbitrary: k totalLen c t r e' c1)
  case (Suc left)
  from Suc.prems(2) obtain s where g: "gather (cn_write c) maps (take (cn_iov_cnt c) [cn_iov0 c, cn_iov1 c]) = Inr s"
    by (cases "gather (cn_write c) maps (take (cn_iov_cnt c) [cn_iov0 c, cn_iov1 c])") simp_all
  show ?case
  proof (cases "wv k s")
    case (Inl err)
    with assms(1) have "err = EAGAIN" by blast
    with Suc.prems g Inl show ?thesis by simp
  next
    case (Inr m)
    with Suc.prems(2) g obtain c2 where c2: "advance_iov c m = Inr c2" by auto
    show ?thesis
    proof (cases "to_write_bytes c2 = 0 \<or> \<not> et \<or> MAX_WRITE_PER_CALL < totalLen + int m")
      case True
      with Suc.prems g Inr c2 show ?thesis by auto
    next
      case False
      with Suc.prems(2) g Inr c2 obtain r2 e2 c3 t2 where
        "write_loop et maps wv (k + 1) left (totalLen + int m) e c2 = Inr (r2, e2, c3, t2)" "r = r2"
        by (auto split: prod.splits)
      with Suc.IH [of "totalLen + int m"] Suc.prems(1) show ?thesis by simp
    qed
  qed
qed simp

lemma steady_write:
  assumes "conn_ready maps c" "writev_steady wv"
  shows "\<exists>e c1 s. conn_write et maps wv errno c = Inr (int (length s), e, c1, s) \<and> conn_ready maps c1 \<and> same_conn c c1
     \<and> pending maps c = s @ pending maps c1 \<and> (pending maps c \<noteq> [] \<longrightarrow> s \<noteq> [])
     \<and> cn_read c1 = cn_read c \<and> cn_request c1 = cn_request c \<and> cn_response c1 = cn_response c"
proof -
  have wv: "writev_contract wv" "writev_progress wv" "\<forall>k s e. wv k s = Inl e \<longrightarrow> e = EAGAIN"
    using assms(2) by (simp_all add: writev_steady_def)
  from conn_write_sends [OF assms(1) wv(1), of et errno] obtain r e c1 s where
    w: "conn_write et maps wv errno c = Inr (r, e, c1, s)" "conn_ready maps c1" "pending maps c = s @ pending maps c1"
      "r = int (length s) \<or> r = -1" "cn_read c1 = cn_read c" "cn_request c1 = cn_request c" "cn_response c1 = cn_response c"
    by blast
  have "0 \<le> r" using w(1) write_loop_no_error [OF wv(3), of 0 et maps 0 MAX_ATTEMPTS errno c r e c1 s]
    by (auto simp: conn_write_def split: if_splits)
  with w(4) have r: "r = int (length s)" by auto
  have "pending maps c \<noteq> [] \<longrightarrow> s \<noteq> []" using conn_write_progress [OF assms(1) wv(1,2) _ w(1)] by blast
  with w conn_write_same [OF w(1)] show ?thesis unfolding r by blast
qed

lemma small_int32: "n < 2 ^ 31 \<Longrightarrow> to_int32 (int n) = int n"
  by (simp add: to_int32_def)

text \<open>\<open>epoll_ctl\<close> re-arms a registered descriptor, which stays registered.\<close>

definition rearms :: "('k, 'd) sys \<Rightarrow> int \<Rightarrow> ('k \<Rightarrow> bool) \<Rightarrow> bool" where
  "rearms sys fd reg \<longleftrightarrow> (\<forall>ev k. reg k \<longrightarrow> fst (sy_ctl sys CTL_MOD fd ev k) \<and> reg (snd (sy_ctl sys CTL_MOD fd ev k)))"

lemma table_rearms: "rearms (sys\<lparr>sy_ctl := table_ctl\<rparr>) fd (\<lambda>k. k fd \<noteq> None)"
  by (auto simp: rearms_def)

lemma rearm_ok:
  assumes "rearms sys fd reg" "0 < fd" "reg (sv_kernel s)"
  shows "\<exists>k. rearm sys a fd ev cl s = Inr (s\<lparr>sv_kernel := k\<rparr>) \<and> reg k"
proof -
  obtain ok k where k: "sy_ctl sys CTL_MOD fd ev (sv_kernel s) = (ok, k)" by fastforce
  have "fst (sy_ctl sys CTL_MOD fd ev (sv_kernel s)) \<and> reg (snd (sy_ctl sys CTL_MOD fd ev (sv_kernel s)))"
    using assms(1,3) by (simp add: rearms_def)
  with k assms(2) show ?thesis by (simp add: rearm_def mod_fd_def Let_def) blast
qed

text \<open>Either idle time-outs are off, or the manager is consistent and has ids left for \<open>n\<close> more timers.\<close>

definition timers_left :: "('k, 'd) server \<Rightarrow> nat \<Rightarrow> bool" where
  "timers_left s n \<longleftrightarrow> sv_timeout_ms s \<le> 0 \<or> manager_inv s \<and> mg_next_id s + int n \<le> int int_max"

lemma timers_left_mono: "timers_left s n \<Longrightarrow> m \<le> n \<Longrightarrow> timers_left s m"
  by (auto simp: timers_left_def)

lemma timers_left_frame [simp]:
  "timers_left (s\<lparr>sv_kernel := k\<rparr>) n = timers_left s n" "timers_left (store_conn a c s) n = timers_left s n"
  "timers_left (s\<lparr>sv_world := w\<rparr>) n = timers_left s n" "timers_left (s\<lparr>sv_conns := cs\<rparr>) n = timers_left s n" "timers_left (s\<lparr>sv_db := d\<rparr>) n = timers_left s n"
  by (simp_all add: timers_left_def manager_inv_def timer_inv_def ref_ok_def key_def [abs_def] alarms_def [abs_def] store_conn_def)

lemma extent_time_ok:
  assumes "client_conn s a c" "timers_left s (Suc n)"
  shows "\<exists>s1. extent_time sys a s = Inr s1 \<and> timer_manager.more s1 = timer_manager.more s \<and> timers_left s1 n"
proof (cases "sv_timeout_ms s \<le> 0")
  case True
  then show ?thesis by (simp add: extent_time_def timers_left_def)
next
  case False
  from assms(1) obtain info where i: "sv_conns s a = Some c" "sv_users s (cn_fd c) = Some info" "0 < cn_fd c"
    by (auto elim!: client_connE)
  from False assms(2) have m: "manager_inv s" "mg_next_id s + int (Suc n) \<le> int int_max" by (simp_all add: timers_left_def)
  then have ne: "mg_next_id s \<noteq> int int_max" by simp
  show ?thesis
  proof (rule schedule_with_key_ok [OF m(1) ne, of "sy_now sys" "cn_fd c" "sv_timeout_ms s" 0 "On_extend (cn_fd c) (ci_id info)"])
    fix m'
    assume s: "schedule_with_key (sy_now sys) (cn_fd c) (sv_timeout_ms s) 0 (On_extend (cn_fd c) (ci_id info)) s = Inr m'"
      and m': "manager_inv m'" "mg_next_id m' = mg_next_id s + 1" "timer_manager.more m' = timer_manager.more s"
    have "extent_time sys a s = Inr m'" using False i s by (simp add: extent_time_def deref_def Let_def)
    with m' m(2) show ?thesis by (auto simp: timers_left_def)
  qed
qed

lemma on_write_round:
  assumes "client_conn s a c" "timers_left s (Suc n)" "rearms sys (cn_fd c) reg" "reg (sv_kernel s)"
    and "conn_ready (fc_maps (cw_cache (sv_world s))) c" "writev_steady wv"
    and "length (pending (fc_maps (cw_cache (sv_world s))) c) < 2 ^ 31"
  shows "\<exists>c1 t k s1. pending (fc_maps (cw_cache (sv_world s))) c = t @ pending (fc_maps (cw_cache (sv_world s))) c1
     \<and> (pending (fc_maps (cw_cache (sv_world s))) c \<noteq> [] \<longrightarrow> t \<noteq> [])
     \<and> conn_ready (fc_maps (cw_cache (sv_world s))) c1 \<and> same_conn c c1 \<and> reg k
     \<and> cn_read c1 = cn_read c \<and> cn_request c1 = cn_request c
     \<and> timer_manager.more s1 = timer_manager.more (store_conn a c1 s) \<and> timers_left s1 n
     \<and> on_write sys wv a s =
         (if pending (fc_maps (cw_cache (sv_world s))) c1 \<noteq> [] then Inr (s1\<lparr>sv_kernel := k\<rparr>, t)
          else and_then (if request_keep_alive (cn_request c) then on_process sys a s1 else close_conn sys a s1)
                 (\<lambda>s2. Inr (s2, t)))"
proof -
  let ?m = "fc_maps (cw_cache (sv_world s))"
  from steady_write [OF assms(5,6), of "sv_et s" 0] obtain e c1 t where
    w: "conn_write (sv_et s) ?m wv 0 c = Inr (int (length t), e, c1, t)" "conn_ready ?m c1" "same_conn c c1"
      "pending ?m c = t @ pending ?m c1" "pending ?m c \<noteq> [] \<longrightarrow> t \<noteq> []" "cn_read c1 = cn_read c"
      "cn_request c1 = cn_request c" by blast
  have fd: "0 < cn_fd c" "sv_conns s a = Some c" using assms(1) by (auto elim!: client_connE)
  have left: "timers_left (store_conn a c1 s) (Suc n)" using assms(2) by simp
  from extent_time_ok [OF client_conn_store [OF assms(1) w(3)] left, of sys] obtain s1 where
    ext: "extent_time sys a (store_conn a c1 s) = Inr s1"
    and s1: "timer_manager.more s1 = timer_manager.more (store_conn a c1 s)" "timers_left s1 n" by blast
  note f = server_fields [OF s1(1)]
  have reg: "reg (sv_kernel s1)" unfolding f(13) using assms(4) by (simp add: store_conn_def)
  from rearm_ok [OF assms(3) fd(1) reg] obtain k where rk: "reg k" and
    k: "rearm sys a (cn_fd c) (sv_conn_event s OR EPOLLOUT) False s1 = Inr (s1\<lparr>sv_kernel := k\<rparr>)"
    by blast
  have len: "to_int32 (int (length t)) = int (length t)" using assms(7) w(4) by (intro small_int32) simp
  have ev: "sv_conn_event s1 = sv_conn_event s" unfolding f(5) by (simp add: store_conn_def)
  have tw: "to_write_bytes c1 = 0 \<longleftrightarrow> pending ?m c1 = []" using pending_length [OF w(2)] by (metis length_0_conv)
  have "on_write sys wv a s =
         (if pending ?m c1 \<noteq> [] then Inr (s1\<lparr>sv_kernel := k\<rparr>, t)
          else and_then (if request_keep_alive (cn_request c) then on_process sys a s1 else close_conn sys a s1)
                 (\<lambda>s2. Inr (s2, t)))"
    using check_client [OF assms(1)] fd w(1) k len ev ext tw
    by (simp add: on_write_def deref_def Let_def w(7))
  with w rk s1 show ?thesis by blast
qed

section \<open>Sending a response\<close>

text \<open>Writing tasks one after the other, until the connection is gone.\<close>

fun write_tasks ::
  "('k, 'd) sys \<Rightarrow> nat \<Rightarrow> (nat \<Rightarrow> string \<Rightarrow> int + nat) list \<Rightarrow> ('k, 'd) server \<Rightarrow> (('k, 'd) server \<times> string) outcome" where
  "write_tasks sys a [] s = Inr (s, [])"
| "write_tasks sys a (wv # wvs) s =
     (if sv_conns s a = None then Inr (s, [])
      else and_then (run_pool_task sys (\<lambda>k cap. Inl EAGAIN) wv (Write_task a) s) (\<lambda>(s1, t).
           and_then (write_tasks sys a wvs s1) (\<lambda>(s2, u). Inr (s2, t @ u))))"

lemma write_tasks_gone: "sv_conns s a = None \<Longrightarrow> write_tasks sys a wvs s = Inr (s, [])"
  by (cases wvs) simp_all

lemma stored_client:
  assumes "client_conn s a c" "same_conn c c1" "timer_manager.more s1 = timer_manager.more (store_conn a c1 s)"
  shows "client_conn s1 a c1" "client_conn (s1\<lparr>sv_kernel := k\<rparr>) a c1" "sv_world s1 = sv_world s" "sv_users s1 = sv_users s"
    "sv_kernel s1 = sv_kernel s"
proof -
  show s1: "client_conn s1 a c1" using client_conn_store [OF assms(1,2)] client_conn_more [OF assms(3)] by simp
  then show "client_conn (s1\<lparr>sv_kernel := k\<rparr>) a c1" by (simp add: client_conn_def)
  note f = server_fields [OF assms(3)]
  show "sv_world s1 = sv_world s" "sv_users s1 = sv_users s" "sv_kernel s1 = sv_kernel s"
    unfolding f by (simp_all add: store_conn_def)
qed

lemma write_tasks_close:
  assumes "client_conn s a c" "timers_left s (length wvs)" "rearms sys (cn_fd c) reg" "reg (sv_kernel s)"
    and "conn_ready (fc_maps (cw_cache (sv_world s))) c" "\<forall>wv \<in> set wvs. writev_steady wv"
    and "length (pending (fc_maps (cw_cache (sv_world s))) c) < 2 ^ 31" "pending (fc_maps (cw_cache (sv_world s))) c \<noteq> []"
    and "length (pending (fc_maps (cw_cache (sv_world s))) c) \<le> length wvs" "\<not> request_keep_alive (cn_request c)"
  shows "\<exists>s'. write_tasks sys a wvs s = Inr (s', pending (fc_maps (cw_cache (sv_world s))) c)
     \<and> sv_conns s' a = None \<and> sv_users s' = (sv_users s)(cn_fd c := None)
     \<and> cw_users (sv_world s') = cw_users (sv_world s) - 1 \<and> cw_closed (sv_world s') = cn_fd c # cw_closed (sv_world s)"
  using assms
proof (induction wvs arbitrary: s c)
  case (Cons wv wvs)
  let ?m = "fc_maps (cw_cache (sv_world s))"
  have wv: "writev_steady wv" "\<forall>wv \<in> set wvs. writev_steady wv" using Cons.prems(6) by simp_all
  have fd: "0 < cn_fd c" "sv_conns s a = Some c" using Cons.prems(1) by (auto elim!: client_connE)
  have left: "timers_left s (Suc (length wvs))" using Cons.prems(2) by simp
  from on_write_round [OF Cons.prems(1) left Cons.prems(3-5) wv(1) Cons.prems(7)] obtain c1 t k s1 where
    r: "pending ?m c = t @ pending ?m c1" "t \<noteq> []" "conn_ready ?m c1" "same_conn c c1" "cn_request c1 = cn_request c" "reg k"
      "timer_manager.more s1 = timer_manager.more (store_conn a c1 s)" "timers_left s1 (length wvs)"
    and w: "on_write sys wv a s =
         (if pending ?m c1 \<noteq> [] then Inr (s1\<lparr>sv_kernel := k\<rparr>, t)
          else and_then (if request_keep_alive (cn_request c) then on_process sys a s1 else close_conn sys a s1)
                 (\<lambda>s2. Inr (s2, t)))"
    using Cons.prems(8) by blast
  note st = stored_client [OF Cons.prems(1) r(4,7)]
  have fd1: "cn_fd c1 = cn_fd c" using r(4) by (simp add: same_conn_def)
  show ?case
  proof (cases "pending ?m c1 = []")
    case True
    have c1: "server_inv s1" "sv_conns s1 a = Some c1" using st(1) by (simp_all add: client_conn_def)
    from close_conn_total [OF c1, of sys] obtain s2 where s2: "close_conn sys a s1 = Inr s2" by blast
    note freed = close_conn_frees [OF c1 s2]
    have gone: "sv_conns s2 a = None" using freed by simp
    have "write_tasks sys a (wv # wvs) s = Inr (s2, pending ?m c)"
      using fd(2) w True s2 Cons.prems(10) write_tasks_gone [OF gone] r(1) by simp
    with freed gone fd1 st(3,4) show ?thesis by auto
  next
    case False
    let ?s1 = "s1\<lparr>sv_kernel := k\<rparr>"
    have st': "sv_world ?s1 = sv_world s" "sv_users ?s1 = sv_users s" using st(3,4) by simp_all
    have len: "length (pending ?m c1) < length (pending ?m c)" using r(1,2) by simp
    have "\<exists>s2. write_tasks sys a wvs ?s1 = Inr (s2, pending ?m c1) \<and> sv_conns s2 a = None
        \<and> sv_users s2 = (sv_users s)(cn_fd c := None) \<and> cw_users (sv_world s2) = cw_users (sv_world s) - 1
        \<and> cw_closed (sv_world s2) = cn_fd c # cw_closed (sv_world s)"
      by (rule Cons.IH [OF st(2) [of k], unfolded st' fd1 r(5)])
         (use Cons.prems(3,7,9,10) r(3,6,8) wv(2) False len in simp_all)
    then obtain s2 where
      s2: "write_tasks sys a wvs ?s1 = Inr (s2, pending ?m c1)" "sv_conns s2 a = None"
        "sv_users s2 = (sv_users s)(cn_fd c := None)" "cw_users (sv_world s2) = cw_users (sv_world s) - 1"
        "cw_closed (sv_world s2) = cn_fd c # cw_closed (sv_world s)" by blast
    have "write_tasks sys a (wv # wvs) s = Inr (s2, pending ?m c)"
      using fd(2) w False s2(1) r(1) by simp
    with s2 show ?thesis by blast
  qed
qed simp

lemma process_nothing:
  assumes "client_conn s a c" "rearms sys (cn_fd c) reg" "content (cn_read c) = []" "buf_inv (cn_read c)" "reg (sv_kernel s)"
  shows "\<exists>k. reg k \<and> on_process sys a s = Inr (s\<lparr>sv_kernel := k\<rparr>)"
proof -
  have fd: "0 < cn_fd c" "sv_conns s a = Some c" using assms(1) by (auto elim!: client_connE)
  have p: "conn_process env (c, fc, db) = Inr (NEED_MORE_DATA, c, fc, db)" for env :: "'b process_env" and fc db
    using assms(3,4) by (simp add: conn_process_def readable_bytes_content)
  have "store_conn a c (s\<lparr>sv_world := (sv_world s)\<lparr>cw_cache := cw_cache (sv_world s)\<rparr>, sv_db := sv_db s\<rparr>) = s"
    using fd(2) by (simp add: store_conn_def fun_upd_idem)
  moreover from rearm_ok [OF assms(2) fd(1) assms(5)] obtain k where
    "rearm sys a (cn_fd c) (sv_conn_event s OR EPOLLIN) True s = Inr (s\<lparr>sv_kernel := k\<rparr>)" "reg k" by blast
  ultimately have "reg k \<and> on_process sys a s = Inr (s\<lparr>sv_kernel := k\<rparr>)"
    using check_client [OF assms(1)] fd(2) p by (simp add: on_process_def deref_def Let_def)
  then show ?thesis by blast
qed

lemma write_tasks_keep:
  assumes "client_conn s a c" "timers_left s (length wvs)" "rearms sys (cn_fd c) reg" "reg (sv_kernel s)"
    and "conn_ready (fc_maps (cw_cache (sv_world s))) c" "\<forall>wv \<in> set wvs. writev_steady wv"
    and "length (pending (fc_maps (cw_cache (sv_world s))) c) < 2 ^ 31"
    and "length (pending (fc_maps (cw_cache (sv_world s))) c) \<le> length wvs" "request_keep_alive (cn_request c)"
    and "content (cn_read c) = []" "buf_inv (cn_read c)"
  shows "\<exists>s' c'. write_tasks sys a wvs s = Inr (s', pending (fc_maps (cw_cache (sv_world s))) c)
     \<and> client_conn s' a c' \<and> same_conn c c' \<and> cn_read c' = cn_read c \<and> conn_ready (fc_maps (cw_cache (sv_world s))) c'
     \<and> pending (fc_maps (cw_cache (sv_world s))) c' = [] \<and> sv_users s' = sv_users s \<and> sv_world s' = sv_world s"
  using assms
proof (induction wvs arbitrary: s c)
  case Nil
  then show ?case by (auto simp: same_conn_def)
next
  case (Cons wv wvs)
  let ?m = "fc_maps (cw_cache (sv_world s))"
  have wv: "writev_steady wv" "\<forall>wv \<in> set wvs. writev_steady wv" using Cons.prems(6) by simp_all
  have fd: "0 < cn_fd c" "sv_conns s a = Some c" using Cons.prems(1) by (auto elim!: client_connE)
  have left: "timers_left s (Suc (length wvs))" using Cons.prems(2) by simp
  from on_write_round [OF Cons.prems(1) left Cons.prems(3-5) wv(1) Cons.prems(7)] obtain c1 t k s1 where
    r: "pending ?m c = t @ pending ?m c1" "pending ?m c \<noteq> [] \<longrightarrow> t \<noteq> []" "conn_ready ?m c1" "same_conn c c1"
      "cn_read c1 = cn_read c" "cn_request c1 = cn_request c" "reg k"
      "timer_manager.more s1 = timer_manager.more (store_conn a c1 s)" "timers_left s1 (length wvs)"
    and w: "on_write sys wv a s =
         (if pending ?m c1 \<noteq> [] then Inr (s1\<lparr>sv_kernel := k\<rparr>, t)
          else and_then (if request_keep_alive (cn_request c) then on_process sys a s1 else close_conn sys a s1)
                 (\<lambda>s2. Inr (s2, t)))"
    by blast
  note st = stored_client [OF Cons.prems(1) r(4,8)]
  have fd1: "cn_fd c1 = cn_fd c" using r(4) by (simp add: same_conn_def)
  from process_nothing [OF st(1), unfolded fd1 r(5) st(5), OF Cons.prems(3,10,11,4)] obtain k1 where
    "reg k1" "on_process sys a s1 = Inr (s1\<lparr>sv_kernel := k1\<rparr>)" by blast
  with w r(7) Cons.prems(9) have "\<exists>k. reg k \<and> on_write sys wv a s = Inr (s1\<lparr>sv_kernel := k\<rparr>, t)"
    by (cases "pending ?m c1 = []") auto
  then obtain k2 where w2: "reg k2" "on_write sys wv a s = Inr (s1\<lparr>sv_kernel := k2\<rparr>, t)" by blast
  let ?s1 = "s1\<lparr>sv_kernel := k2\<rparr>"
  have st': "sv_world ?s1 = sv_world s" "sv_users ?s1 = sv_users s" using st(3,4) by simp_all
  have len: "length (pending ?m c1) \<le> length wvs" "length (pending ?m c1) < 2 ^ 31"
    using r(1,2) Cons.prems(7,8) by (cases t; cases "pending ?m c"; simp)+
  have "\<exists>s2 c2. write_tasks sys a wvs ?s1 = Inr (s2, pending ?m c1) \<and> client_conn s2 a c2 \<and> same_conn c1 c2
      \<and> cn_read c2 = cn_read c \<and> conn_ready ?m c2 \<and> pending ?m c2 = [] \<and> sv_users s2 = sv_users s \<and> sv_world s2 = sv_world s"
    by (rule Cons.IH [OF st(2) [of k2], unfolded st' fd1 r(5,6)])
       (use Cons.prems(3,9,10,11) w2(1) r(3,9) wv(2) len in simp_all)
  then obtain s2 c2 where
    s2: "write_tasks sys a wvs ?s1 = Inr (s2, pending ?m c1)" "client_conn s2 a c2" "same_conn c1 c2" "cn_read c2 = cn_read c"
      "conn_ready ?m c2" "pending ?m c2 = []" "sv_users s2 = sv_users s" "sv_world s2 = sv_world s" by blast
  have "write_tasks sys a (wv # wvs) s = Inr (s2, pending ?m c)"
    using fd(2) w2(2) s2(1) r(1) by simp
  moreover have "same_conn c c2" using r(4) s2(3) by (simp add: same_conn_def)
  ultimately show ?case using s2 by blast
qed

section \<open>A whole request\<close>

lemma finished_idle:
  assumes "conn_ready maps c" "pending maps c = []" "buf_inv (cn_read c)"
  shows "conn_idle c"
proof -
  have "file_iov_ok maps (cn_iov1 c)" "buf_inv (cn_write c)" using assms(1) by (simp_all add: conn_ready_def)
  with assms(2,3) file_part_length [of maps "cn_iov1 c"] show ?thesis by (simp add: pending_def conn_idle_def)
qed

text \<open>\<open>onRead\<close> when the kernel delivers something and \<open>Process\<close> succeeds.\<close>

lemma on_read_answers:
  assumes "client_conn s a c" "rearms sys (cn_fd c) reg" "reg (sv_kernel s)"
    and "conn_read (sv_et s) (sy_mem sys) rv 0 c = Inr (n, err, c1)" "0 < n"
    and "conn_process (sy_env sys) (c1, cw_cache (sv_world s), sv_db s) = Inr (OK, c2, fc2, db2)"
  shows "\<exists>k. on_read sys rv a s = Inr ((store_conn a c2 (s\<lparr>sv_world := (sv_world s)\<lparr>cw_cache := fc2\<rparr>, sv_db := db2\<rparr>))\<lparr>sv_kernel := k\<rparr>)
     \<and> reg k \<and> client_conn ((store_conn a c2 (s\<lparr>sv_world := (sv_world s)\<lparr>cw_cache := fc2\<rparr>, sv_db := db2\<rparr>))\<lparr>sv_kernel := k\<rparr>) a c2
     \<and> same_conn c c2"
proof -
  have same: "same_conn c c1" using read_loop_same assms(4) by (auto simp: conn_read_def)
  have same2: "same_conn c1 c2" by (rule conn_process_same [OF assms(6)])
  have fd: "0 < cn_fd c" "sv_conns s a = Some c" using assms(1) by (auto elim!: client_connE)
  have fds: "cn_fd c1 = cn_fd c" "cn_fd c2 = cn_fd c" using same same2 by (simp_all add: same_conn_def)
  let ?s1 = "store_conn a c1 s" and ?w = "(sv_world s)\<lparr>cw_cache := fc2\<rparr>"
  let ?s2 = "store_conn a c2 (s\<lparr>sv_world := ?w, sv_db := db2\<rparr>)"
  have c1: "client_conn ?s1 a c1" by (rule client_conn_store [OF assms(1) same])
  have s1: "sv_conns ?s1 a = Some c1" "sv_world ?s1 = sv_world s" "sv_db ?s1 = sv_db s" by (simp_all add: store_conn_def)
  have st: "store_conn a c2 (?s1\<lparr>sv_world := ?w, sv_db := db2\<rparr>) = ?s2" "sv_conn_event ?s2 = sv_conn_event s"
    by (simp_all add: store_conn_def)
  have "reg (sv_kernel ?s2)" using assms(3) by (simp add: store_conn_def)
  from rearm_ok [OF assms(2) fd(1) this] obtain k where
    k: "rearm sys a (cn_fd c) (sv_conn_event s OR EPOLLOUT) True ?s2 = Inr (?s2\<lparr>sv_kernel := k\<rparr>)" "reg k" by blast
  have "on_process sys a ?s1 = Inr (?s2\<lparr>sv_kernel := k\<rparr>)"
    using check_client [OF c1] s1 assms(6) st k(1) fds by (simp add: on_process_def deref_def Let_def)
  then have run: "on_read sys rv a s = Inr (?s2\<lparr>sv_kernel := k\<rparr>)"
    using check_client [OF assms(1)] fd(2) assms(4,5) by (simp add: on_read_def deref_def Let_def)
  have s2': "same_conn c c2" using same same2 by (simp add: same_conn_def)
  have "client_conn (s\<lparr>sv_world := ?w, sv_db := db2\<rparr>) a c"
    using assms(1) by (simp add: client_conn_def server_inv_def)
  from client_conn_store [OF this s2'] have "client_conn (?s2\<lparr>sv_kernel := k\<rparr>) a c2" by (simp add: client_conn_def)
  with run k(2) s2' show ?thesis by blast
qed

text \<open>What \<open>Process\<close> makes of a request for a readable file that \<open>Read\<close> has delivered.\<close>

lemma request_prepares_file:
  assumes "conn_idle c" "\<forall>k. readv_contract (rv k)" "256 * (length (buf_data (cn_read c)) + 8194) \<le> min mem vec_max"
    and "conn_read et mem rv 0 c = Inr (n, err, c1)" "content (cn_read c1) = render_request m p v hs []"
    and "boost_regex (pe_regex env)" "request_line_ok m p v" "\<forall>kv \<in> set hs. header_ok kv" "pe_dir env \<noteq> []"
    and "rq = request_of m p v hs request_init" "path = req_path rq"
    and "fs_stat (pe_os env) (c_str (pe_dir env @ path)) = Some st" "\<not> S_ISDIR (st_mode st)"
    and "and (st_mode st) S_IROTH \<noteq> 0" "0 < st_size st" "st_size st < 2 ^ 63"
    and "get_file_mapping (pe_os env) (pe_now1 env) (pe_now2 env) (pe_dir env @ path) st (released_cache c1 fc) = (Some f, fc1)"
    and "fc_maps fc1 (cf_data f) = Some body" "length body = nat (st_size st)"
    and "conn_process env (c1, fc, db) = Inr (OK, c2, fc2, db2)"
  shows "content (cn_read c2) = [] \<and> buf_inv (cn_read c2) \<and> request_keep_alive (cn_request c2) = request_keep_alive rq
     \<and> conn_ready (fc_maps fc2) c2
     \<and> pending (fc_maps fc2) c2
         = head_text 200 (request_keep_alive rq) (get_file_type (fresh_response [] path False 0)) (st_size st) @ body"
proof -
  let ?rq = "rq\<lparr>req_state := FINISH\<rparr>"
  have bi: "buf_inv (cn_read c)" using assms(1) by (simp add: conn_idle_def)
  have m8: "2 ^ (8 - 0) * (length (buf_data (cn_read c)) + 8194) \<le> min mem vec_max" using assms(3) by simp
  from read_loop_delivers [OF bi assms(2) _ _ _ m8, of 0 et 0] assms(4)
  have c1: "c1 = c\<lparr>cn_read := cn_read c1\<rparr>" "buf_inv (cn_read c1)" by (auto simp: conn_read_def)
  have idle: "conn_idle c1" using assms(1) c1(2) by (subst c1(1)) (simp add: conn_idle_def)
  from parse_rendered [OF assms(6) c1(2) assms(5,7,8), of "pe_mysql env" db] obtain rb where
    parsed: "request_parse (pe_regex env) (pe_mysql env) request_init (cn_read c1) db = Inr (True, ?rq, rb, db)"
    and rb: "content rb = []" "buf_inv rb" unfolding assms(10) by blast
  have ne: "content (cn_read c1) \<noteq> []" unfolding assms(5) by (rule render_request_nonempty)
  have p: "req_path ?rq = path" by (simp add: assms(11))
  have code: "status_sent env True (req_path ?rq) = 200"
    unfolding p status_sent_def status_for_def using assms(12-14) by simp
  have page: "page_for 200 (req_path ?rq) = path" unfolding p by (simp add: page_for_def CODE_PATH_def)
  have st: "final_stat (pe_os env) (response_sent env True ?rq) = st"
    using assms(12-14) p by (simp add: final_stat_def response_sent_def fresh_response_def status_for_def CODE_PATH_def)
  from process_file_response [OF idle ne assms(9) parsed refl refl refl, unfolded code page st, OF assms(15-20)] rb
  show ?thesis by (auto simp: keep_alive_state)
qed

text \<open>
  C1: the server answers a request for a file. Let idle time-outs be off or the timer manager have ids left. Let an idle connection of the table become readable, let what
  arrives complete one rendered request for a readable non-empty file that the cache maps, and let \<open>Process\<close>
  succeed. Then \<open>onRead\<close> succeeds, and as many writing tasks as there are bytes put exactly the head with status 200 and
  the bytes of the file on the socket. Without \<open>keep-alive\<close> the connection is then gone from the table and its
  descriptor closed once; with it the connection is idle again under the same entry.
\<close>

theorem server_answers_request:
  assumes "client_conn s a c" "timers_left s (length wvs)" "rearms sys (cn_fd c) reg" "reg (sv_kernel s)"
    and "conn_idle c" "\<forall>k. readv_contract (rv k)" "256 * (length (buf_data (cn_read c)) + 8194) \<le> min (sy_mem sys) vec_max"
    and "conn_read (sv_et s) (sy_mem sys) rv 0 c = Inr (n, err, c1)" "0 < n"
    and "content (cn_read c1) = render_request m p v hs []"
    and "boost_regex (pe_regex (sy_env sys))" "request_line_ok m p v" "\<forall>kv \<in> set hs. header_ok kv" "pe_dir (sy_env sys) \<noteq> []"
    and "rq = request_of m p v hs request_init" "path = req_path rq"
    and "fs_stat (pe_os (sy_env sys)) (c_str (pe_dir (sy_env sys) @ path)) = Some st" "\<not> S_ISDIR (st_mode st)"
    and "and (st_mode st) S_IROTH \<noteq> 0" "0 < st_size st" "st_size st < 2 ^ 63"
    and "get_file_mapping (pe_os (sy_env sys)) (pe_now1 (sy_env sys)) (pe_now2 (sy_env sys)) (pe_dir (sy_env sys) @ path) st
           (released_cache c1 (cw_cache (sv_world s))) = (Some f, fc1)"
    and "fc_maps fc1 (cf_data f) = Some body" "length body = nat (st_size st)"
    and "conn_process (sy_env sys) (c1, cw_cache (sv_world s), sv_db s) = Inr (OK, c2, fc2, db2)"
    and "response = head_text 200 (request_keep_alive rq) (get_file_type (fresh_response [] path False 0)) (st_size st) @ body"
    and "\<forall>wv \<in> set wvs. writev_steady wv" "length response \<le> length wvs" "length response < 2 ^ 31"
  shows "\<exists>s1 s2. on_read sys rv a s = Inr s1 \<and> write_tasks sys a wvs s1 = Inr (s2, response)
     \<and> (if request_keep_alive rq
        then (\<exists>c'. client_conn s2 a c' \<and> same_conn c c' \<and> conn_idle c' \<and> content (cn_read c') = []
               \<and> sv_users s2 = sv_users s \<and> cw_closed (sv_world s2) = cw_closed (sv_world s))
        else sv_conns s2 a = None \<and> sv_users s2 = (sv_users s)(cn_fd c := None)
           \<and> cw_users (sv_world s2) = cw_users (sv_world s) - 1
           \<and> cw_closed (sv_world s2) = cn_fd c # cw_closed (sv_world s))"
proof -
  from request_prepares_file [OF assms(5-8,10-25)]
  have res: "content (cn_read c2) = []" "buf_inv (cn_read c2)" "request_keep_alive (cn_request c2) = request_keep_alive rq"
    "conn_ready (fc_maps fc2) c2" "pending (fc_maps fc2) c2 = response" unfolding assms(26) by auto
  from on_read_answers [OF assms(1,3,4,8,9,25)] obtain k where
    s1: "on_read sys rv a s = Inr ((store_conn a c2 (s\<lparr>sv_world := (sv_world s)\<lparr>cw_cache := fc2\<rparr>, sv_db := db2\<rparr>))\<lparr>sv_kernel := k\<rparr>)"
      "reg k" "client_conn ((store_conn a c2 (s\<lparr>sv_world := (sv_world s)\<lparr>cw_cache := fc2\<rparr>, sv_db := db2\<rparr>))\<lparr>sv_kernel := k\<rparr>) a c2"
      "same_conn c c2" by blast
  define s1 where "s1 = (store_conn a c2 (s\<lparr>sv_world := (sv_world s)\<lparr>cw_cache := fc2\<rparr>, sv_db := db2\<rparr>))\<lparr>sv_kernel := k\<rparr>"
  have f: "sv_world s1 = (sv_world s)\<lparr>cw_cache := fc2\<rparr>" "timers_left s1 (length wvs)" "reg (sv_kernel s1)" "sv_users s1 = sv_users s"
    "cn_fd c2 = cn_fd c" using assms(2) s1(2,4) by (simp_all add: s1_def store_conn_def same_conn_def)
  have run: "on_read sys rv a s = Inr s1" "client_conn s1 a c2" using s1(1,3) by (simp_all only: s1_def)
  have ready: "conn_ready (fc_maps (cw_cache (sv_world s1))) c2" "pending (fc_maps (cw_cache (sv_world s1))) c2 = response"
    using res(4,5) f(1) by simp_all
  note ka = res(3)
  note bounds = assms(29) assms(28)
  show ?thesis
  proof (cases "request_keep_alive rq")
    case True
    from write_tasks_keep [OF run(2) f(2) assms(3) [folded f(5)] f(3) ready(1) assms(27), unfolded ready(2) ka, OF bounds True res(1,2)]
    obtain s2 c' where s2: "write_tasks sys a wvs s1 = Inr (s2, response)" "client_conn s2 a c'" "same_conn c2 c'" "cn_read c' = cn_read c2"
      "conn_ready (fc_maps (cw_cache (sv_world s1))) c'" "pending (fc_maps (cw_cache (sv_world s1))) c' = []"
      "sv_users s2 = sv_users s1" "sv_world s2 = sv_world s1" by blast
    have "conn_idle c'" using finished_idle [OF s2(5,6)] s2(4) res(2) by simp
    moreover have "same_conn c c'" using s1(4) s2(3) by (simp add: same_conn_def)
    ultimately show ?thesis using run(1) s2 f True res(1) by auto
  next
    case False
    have "response \<noteq> []" unfolding assms(26) using head_text_nonempty by simp
    with write_tasks_close [OF run(2) f(2) assms(3) [folded f(5)] f(3) ready(1) assms(27), unfolded ready(2) ka, OF bounds(1) _ bounds(2) False]
    obtain s2 where "write_tasks sys a wvs s1 = Inr (s2, response)" "sv_conns s2 a = None"
      "sv_users s2 = (sv_users s1)(cn_fd c2 := None)" "cw_users (sv_world s2) = cw_users (sv_world s1) - 1"
      "cw_closed (sv_world s2) = cn_fd c2 # cw_closed (sv_world s1)" by blast
    with run(1) f False show ?thesis by auto
  qed
qed

section \<open>The example\<close>

text \<open>The first client of the example server, in level-triggered mode, asks for \<open>/a\<close>.\<close>

definition asking_conn :: conn where
  "asking_conn = demo_conn\<lparr>cn_write := roomy 500\<rparr>"

definition asking_server :: "(int \<rightharpoonup> 32 word, unit) server" where
  "asking_server = store_conn 0 asking_conn (demo_busy\<lparr>sv_et := False, sv_db := (one_conn, ())\<rparr>)"

definition asking_sys :: "(int \<rightharpoonup> 32 word, unit) sys" where
  "asking_sys = demo_sys\<lparr>sy_mem := 3000000\<rparr>"

definition ask :: "nat \<Rightarrow> nat \<Rightarrow> int + string" where
  "ask k cap = (if k = 0 \<and> length get_a \<le> cap then Inr get_a else Inl EAGAIN)"

lemma asking_simps' [simp]:
  "sv_et asking_server = False" "sy_mem asking_sys = 3000000" "sy_env asking_sys = site_env" "sy_ctl asking_sys = table_ctl"
  "sv_timeout_ms asking_server = 0" "sv_world asking_server = \<lparr>cw_users = 1, cw_closed = [], cw_cache = new_cache\<rparr>"
  "sv_db asking_server = (one_conn, ())" "cn_fd asking_conn = 7"
  by (simp_all add: asking_server_def asking_sys_def asking_conn_def store_conn_def)

lemma asking_client: "client_conn asking_server 0 asking_conn"
proof -
  have "client_conn (demo_busy\<lparr>sv_et := False, sv_db := (one_conn, ())\<rparr>) 0 demo_conn"
    using demo_client by (simp add: client_conn_def server_inv_def)
  then show ?thesis unfolding asking_server_def by (rule client_conn_store) (simp add: same_conn_def asking_conn_def)
qed

lemma asking_conn_idle: "conn_idle asking_conn"
  by (simp add: conn_idle_def asking_conn_def demo_conn_def roomy_def content_def no_iov_def buf_inv_def vec_max_def INIT_BUFFER_SIZE_def)

lemma get_a_length: "length get_a = 19"
  by (simp add: render_request_def crlf_def)

lemma asking_reads:
  "\<exists>c1. conn_read False 3000000 ask 0 asking_conn = Inr (19, 0, c1) \<and> content (cn_read c1) = get_a
     \<and> c1 = asking_conn\<lparr>cn_read := cn_read c1\<rparr> \<and> buf_inv (cn_read c1)"
proof -
  let ?b = "cn_read asking_conn"
  have b: "buf_inv ?b" "content ?b = []" "writable_bytes ?b = 1024" "length (buf_data ?b) = 1024"
    by (simp_all add: asking_conn_def demo_conn_def buf_inv_def vec_max_def INIT_BUFFER_SIZE_def content_def
        writable_bytes_def sz_sub_def size_lim_def)
  have rv: "readv_contract (ask 0)" by (simp add: readv_contract_def ask_def)
  have mem: "2 * length (buf_data ?b) + 8194 \<le> min 3000000 vec_max" unfolding b(4) by (simp add: vec_max_def)
  have "\<exists>b1. read_fd 3000000 (ask 0) 0 ?b = Inr (19, 0, b1)"
    using b(3) get_a_length
    by (simp add: read_fd_def read_fd_tail_def ask_def EXTRA_BUF_SIZE_def Let_def split: prod.split)
  then obtain b1 where b1: "read_fd 3000000 (ask 0) 0 ?b = Inr (19, 0, b1)" by blast
  with read_fd_exact [OF b(1) rv mem, of 0] have ex: "read_exactly (ask 0) 0 ?b (19, 0, b1)" by auto
  then have "buf_inv b1" "content b1 = get_a"
    using b(2) by (auto simp: read_exactly_def ask_def split: if_splits)
  moreover have "conn_read False 3000000 ask 0 asking_conn = Inr (19, 0, asking_conn\<lparr>cn_read := b1\<rparr>)"
    using b1 by (simp add: conn_read_def read_loop.simps [of False 3000000 ask 0 0 0 asking_conn] Let_def)
  ultimately show ?thesis by - (rule exI [of _ "asking_conn\<lparr>cn_read := b1\<rparr>"], simp)
qed

lemma get_a_processed:
  assumes "conn_idle c" "content (cn_read c) = get_a" "cn_write c = roomy 500" "cn_response c = new_response"
  shows "\<exists>c' fc'. conn_process site_env (c, new_cache, (one_conn, ())) = Inr (OK, c', fc', (one_conn, ()))"
proof -
  let ?rq = "(request_of ''GET'' ''/a'' ''1.0'' [] request_init)\<lparr>req_state := FINISH\<rparr>"
  have inv: "buf_inv (cn_read c)" using assms(1) by (simp add: conn_idle_def)
  from parse_rendered [OF perl.boost_regex_axioms inv assms(2) get_a_ok, of "constant_db False []" "(one_conn, ())"]
  obtain rb where parsed: "request_parse (pe_regex site_env) (pe_mysql site_env) request_init (cn_read c) (one_conn, ())
      = Inr (True, ?rq, rb, (one_conn, ()))" by auto
  have rs: "response_sent site_env True ?rq = request_for ''/a'' 200"
    by (simp add: response_sent_def fresh_response_def get_a_request keep_alive_state request_for_def new_response_def)
  have rc: "released_cache c new_cache = new_cache"
    using assms(4) by (simp add: released_cache_def unmap_file_def new_response_def)
  obtain r' c1 b' where mr: "make_response 0 one_site 0 0 (request_for ''/a'' 200, new_cache, roomy 500) = (None, r', c1, b')"
    using make_response_on_wire_example by blast
  have sz: "st_size (final_stat one_site (request_for ''/a'' 200)) = 2"
    by (simp add: final_stat_def request_for_def one_site_def c_str_def status_for_def S_ISDIR_def S_IROTH_def
        CODE_PATH_def Let_def)
  have ne: "content (cn_read c) \<noteq> []" unfolding assms(2) by (rule render_request_nonempty)
  show ?thesis
    by (rule process_runs [OF assms(1) ne _ parsed]) (use mr sz in \<open>simp_all add: rs rc assms(3)\<close>)
qed

theorem server_answers_request_witness:
  "\<exists>s1 s2. on_read asking_sys ask 0 asking_server = Inr s1
     \<and> write_tasks asking_sys 0 (replicate 1000 (\<lambda>k s. Inr (min 1 (length s)))) s1
         = Inr (s2, head_text 200 False ''text/plain'' 2 @ ''hi'')
     \<and> sv_conns s2 0 = None \<and> cw_users (sv_world s2) = 0 \<and> cw_closed (sv_world s2) = [7]"
proof -
  let ?st = "\<lparr>st_size = 2, st_mode = 0x81A4, st_mtime = 5\<rparr>" and ?rq = "request_of ''GET'' ''/a'' ''1.0'' [] request_init"
  let ?wvs = "replicate 1000 (\<lambda>(k::nat) s. Inr (min 1 (length s)) :: int + nat)"
  obtain c1 where c1: "conn_read False 3000000 ask 0 asking_conn = Inr (19, 0, c1)" "content (cn_read c1) = get_a"
    "c1 = asking_conn\<lparr>cn_read := cn_read c1\<rparr>" "buf_inv (cn_read c1)" using asking_reads by blast
  have w1: "cn_write c1 = roomy 500" "cn_response c1 = new_response"
    by (subst c1(3), simp add: asking_conn_def demo_conn_def)+
  have idle: "conn_idle c1" using asking_conn_idle c1(4) by (subst c1(3)) (simp add: conn_idle_def)
  obtain c2 fc2 where run: "conn_process site_env (c1, new_cache, (one_conn, ())) = Inr (OK, c2, fc2, (one_conn, ()))"
    using get_a_processed [OF idle c1(2) w1] by blast
  obtain f fc1 where get: "get_file_mapping one_site 0 0 ''/s/a'' ?st new_cache = (Some f, fc1)"
    and f: "fc_maps fc1 (cf_data f) = Some ''hi''"
    by (simp add: get_file_mapping_def get_exclusive_def cache_hit_def find_file_def new_cache_def load_file_def
        one_site_def Let_def size_lim_def c_str_def)
  have rc: "released_cache c1 new_cache = new_cache" using w1(2) by (simp add: released_cache_def unmap_file_def new_response_def)
  have type: "get_file_type (fresh_response [] ''/a'' False 0) = ''text/plain''"
    by (simp add: get_file_type_def fresh_response_def)
  have stat: "fs_stat one_site (c_str ''/s/a'') = Some ?st" by (simp add: one_site_def c_str_def)
  have mode: "\<not> S_ISDIR (st_mode ?st)" "and (st_mode ?st) S_IROTH \<noteq> 0" by (simp_all add: S_ISDIR_def S_IROTH_def)
  have one: "0 < (1::nat)" by simp
  have wvs: "\<forall>wv \<in> set ?wvs. writev_steady wv"
    using stingy_kernel [OF one] by (simp add: writev_steady_def del: One_nat_def)
  have len: "length (head_text 200 False ''text/plain'' 2 @ ''hi'') \<le> length ?wvs"
    using to_string_int_length [of 200] to_string_int_length [of 2]
    by (simp add: head_text_def CODE_STATUS_def crlf_def)
  have rv: "\<forall>k. readv_contract (ask k)" by (simp add: readv_contract_def ask_def)
  have mem: "256 * (length (buf_data (cn_read asking_conn)) + 8194) \<le> min 3000000 vec_max"
    by (simp add: asking_conn_def demo_conn_def INIT_BUFFER_SIZE_def vec_max_def)
  have reg: "rearms asking_sys (cn_fd asking_conn) (\<lambda>k. k (cn_fd asking_conn) \<noteq> None)"
    using table_rearms [of asking_sys "cn_fd asking_conn"] by (simp add: rearms_def)
  have k: "sv_kernel asking_server (cn_fd asking_conn) \<noteq> None" by (simp add: asking_server_def store_conn_def demo_busy_def)
  have rd: "conn_read (sv_et asking_server) (sy_mem asking_sys) ask 0 asking_conn = Inr (19, 0, c1)" using c1(1) by simp
  have "\<exists>s1 s2. on_read asking_sys ask 0 asking_server = Inr s1
     \<and> write_tasks asking_sys 0 ?wvs s1 = Inr (s2, head_text 200 False ''text/plain'' 2 @ ''hi'')
     \<and> (if request_keep_alive ?rq
        then (\<exists>c'. client_conn s2 0 c' \<and> same_conn asking_conn c' \<and> conn_idle c' \<and> content (cn_read c') = []
               \<and> sv_users s2 = sv_users asking_server \<and> cw_closed (sv_world s2) = cw_closed (sv_world asking_server))
        else sv_conns s2 0 = None \<and> sv_users s2 = (sv_users asking_server)(cn_fd asking_conn := None)
           \<and> cw_users (sv_world s2) = cw_users (sv_world asking_server) - 1
           \<and> cw_closed (sv_world s2) = cn_fd asking_conn # cw_closed (sv_world asking_server))"
    by (rule server_answers_request [OF asking_client _ reg k asking_conn_idle rv _ rd _ c1(2), where rq = ?rq and path = "''/a''"
          and st = ?st and f = f and body = "''hi''" and ?fc1.0 = fc1 and ?c2.0 = c2 and ?fc2.0 = fc2 and ?db2.0 = "(one_conn, ())"])
       (use perl.boost_regex_axioms get_a_ok stat get f run wvs len mode mem rc in \<open>simp_all add: get_a_request type timers_left_def\<close>)
  then show ?thesis by (auto simp: get_a_request)
qed

end
